(* ===== verification/M5_Prelude.thy ===== *)
theory M5_Prelude
  imports Main "HOL-Library.Word" "HOL-Library.Product_Lexorder"
begin

unbundle bit_operations_syntax

section \<open>Shared types, errors and lemmas\<close>

text \<open>
  The types every component of the simulator uses: the machine integers of
  \<^verbatim>\<open>src/src/base/types.hh\<close>, the ways a simulator routine can stop without
  returning, the two result types that carry them, and the flag word template
  \<^verbatim>\<open>Flags<T>\<close> of \<^verbatim>\<open>src/src/base/flags.hh\<close>.

  A routine that terminates on every input returns \<open>'a res\<close>: \<open>Inl\<close> is the failed
  assertion, panic, fatal error or invalid dereference, \<open>Inr\<close> the result.
  A routine with a loop that may not end returns \<open>'a comp\<close>, where \<^const>\<open>None\<close>
  means that the loop does not end.
\<close>

subsection \<open>Machine integers\<close>

type_synonym tick = "64 word"
type_synonym addr = "64 word"
type_synonym uint8 = "8 word"
type_synonym int16 = "16 word"
type_synonym uint32 = "32 word"

definition MaxTick :: tick where
  "MaxTick = 0x7fffffffffffffff"

definition MaxAddr :: addr where
  "MaxAddr = - 1"

subsection \<open>Errors and results\<close>

datatype error =
    Assert string   \<comment> \<open>a failed \<open>assert\<close>\<close>
  | Panic string    \<comment> \<open>a call of \<open>panic\<close>\<close>
  | Fatal string    \<comment> \<open>a call of \<open>fatal\<close>\<close>
  | BadPtr          \<comment> \<open>use of a null pointer or of freed memory\<close>
  | Overflow        \<comment> \<open>overflow of a signed integer, undefined in C++\<close>

type_synonym 'a res = "error + 'a"
type_synonym 'a comp = "'a res option"

definition bindR :: "'a res \<Rightarrow> ('a \<Rightarrow> 'b res) \<Rightarrow> 'b res" where
  "bindR m f = (case m of Inl e \<Rightarrow> Inl e | Inr a \<Rightarrow> f a)"

definition bindC :: "'a comp \<Rightarrow> ('a \<Rightarrow> 'b comp) \<Rightarrow> 'b comp" where
  "bindC m f = (case m of None \<Rightarrow> None | Some (Inl e) \<Rightarrow> Some (Inl e) | Some (Inr a) \<Rightarrow> f a)"

definition assertR :: "bool \<Rightarrow> string \<Rightarrow> unit res" where
  "assertR b msg = (if b then Inr () else Inl (Assert msg))"

definition ret :: "'a \<Rightarrow> 'a comp" where
  "ret a = Some (Inr a)"

definition fail :: "error \<Rightarrow> 'a comp" where
  "fail e = Some (Inl e)"

definition liftC :: "'a res \<Rightarrow> 'a comp" where
  "liftC m = Some m"

named_theorems res_simps \<open>evaluation of the result combinators\<close>

lemma bindR_simps [simp]:
  "bindR (Inl e) f = Inl e"
  "bindR (Inr a) f = f a"
  by (simp_all add: bindR_def)

lemma bindC_simps [simp]:
  "bindC None f = None"
  "bindC (Some (Inl e)) f = Some (Inl e)"
  "bindC (Some (Inr a)) f = f a"
  "bindC (ret a) f = f a"
  "bindC (fail e) f = fail e"
  by (simp_all add: bindC_def ret_def fail_def)

lemma ret_fail_simps [simp]:
  "ret a = ret b \<longleftrightarrow> a = b"
  "fail e = fail e' \<longleftrightarrow> e = e'"
  "ret a \<noteq> fail e"
  "fail e \<noteq> ret a"
  "ret a \<noteq> None"
  "fail e \<noteq> None"
  by (simp_all add: ret_def fail_def)

lemma ret_fail_simps_some [simp]:
  "ret a = Some x \<longleftrightarrow> x = Inr a"
  "fail e = Some x \<longleftrightarrow> x = Inl e"
  by (auto simp: ret_def fail_def)

lemma bindR_eq_Inr [simp]:
  "bindR m f = Inr b \<longleftrightarrow> (\<exists>a. m = Inr a \<and> f a = Inr b)"
  by (cases m) auto

lemma bindR_eq_Inl:
  "bindR m f = Inl e \<longleftrightarrow> m = Inl e \<or> (\<exists>a. m = Inr a \<and> f a = Inl e)"
  by (cases m) auto

lemma bindC_eq_ret:
  "bindC m f = ret b \<longleftrightarrow> (\<exists>a. m = ret a \<and> f a = ret b)"
  by (auto simp: bindC_def ret_def split: option.splits sum.splits)

lemma assertR_simps [simp]:
  "assertR True msg = Inr ()"
  "assertR False msg = Inl (Assert msg)"
  "assertR b msg = Inr u \<longleftrightarrow> b"
  by (simp_all add: assertR_def)

lemma bindR_assoc: "bindR (bindR m f) g = bindR m (\<lambda>a. bindR (f a) g)"
  by (cases m) simp_all

lemma bindC_assoc: "bindC (bindC m f) g = bindC m (\<lambda>a. bindC (f a) g)"
  by (auto simp: bindC_def split: option.splits sum.splits)

lemma bindC_bind:
  "bindC m f = Option.bind m (\<lambda>r. case r of Inl e \<Rightarrow> Some (Inl e) | Inr a \<Rightarrow> f a)"
  by (auto simp: bindC_def split: option.splits sum.splits)

lemma bindC_mono [partial_function_mono]:
  assumes mf: "mono_option B" and mg: "\<And>y. mono_option (\<lambda>f. C y f)"
  shows "mono_option (\<lambda>f. bindC (B f) (\<lambda>y. C y f))"
proof -
  have "mono_option (\<lambda>f. case r of Inl e \<Rightarrow> Some (Inl e) | Inr a \<Rightarrow> C a f)" for r
    using mg by (cases r) (simp_all add: option.const_mono)
  with mf show ?thesis unfolding bindC_bind by (intro bind_mono)
qed

lemma bindC_cong [fundef_cong]:
  "m = m' \<Longrightarrow> (\<And>a. m' = ret a \<Longrightarrow> f a = f' a) \<Longrightarrow> bindC m f = bindC m' f'"
  by (auto simp: bindC_def ret_def split: option.splits sum.splits)

lemma bindR_cong [fundef_cong]:
  "m = m' \<Longrightarrow> (\<And>a. m' = Inr a \<Longrightarrow> f a = f' a) \<Longrightarrow> bindR m f = bindR m' f'"
  by (auto simp: bindR_def split: sum.splits)

subsection \<open>Flag words\<close>

text \<open>
  \<^verbatim>\<open>Flags<T>\<close>: the word is the whole state of the object, so each member function
  is a function on words.
\<close>

definition fl_isSet :: "'a::len word \<Rightarrow> 'a word \<Rightarrow> bool" where
  "fl_isSet f m \<longleftrightarrow> f AND m \<noteq> 0"

definition fl_allSet :: "'a::len word \<Rightarrow> 'a word \<Rightarrow> bool" where
  "fl_allSet f m \<longleftrightarrow> f AND m = m"

definition fl_noneSet :: "'a::len word \<Rightarrow> 'a word \<Rightarrow> bool" where
  "fl_noneSet f m \<longleftrightarrow> f AND m = 0"

definition fl_clear :: "'a::len word \<Rightarrow> 'a word \<Rightarrow> 'a word" where
  "fl_clear f m = f AND NOT m"

definition fl_set :: "'a::len word \<Rightarrow> 'a word \<Rightarrow> 'a word" where
  "fl_set f m = f OR m"

definition fl_set_val :: "'a::len word \<Rightarrow> 'a word \<Rightarrow> bool \<Rightarrow> 'a word" where
  "fl_set_val f m v = (f AND NOT m) OR (if v then m else 0)"

definition fl_update :: "'a::len word \<Rightarrow> 'a word \<Rightarrow> 'a word \<Rightarrow> 'a word" where
  "fl_update f fs m = (f AND NOT m) OR (fs AND m)"

text \<open>
  A flag mask is a power of two, so testing it is testing one bit; setting and
  clearing another mask leaves that bit to the other mask.
\<close>

lemma fl_isSet_bit: "fl_isSet f (2 ^ n) \<longleftrightarrow> bit f n"
  by (simp add: fl_isSet_def and_exp_eq_0_iff_not_bit)

lemma flag_mask:
  fixes f m :: "'a::len word"
  assumes "m = 2 ^ n" "n < LENGTH('a)"
  shows "fl_isSet f m \<longleftrightarrow> bit f n" "bit m k \<longleftrightarrow> k = n"
  using assms by (auto simp: fl_isSet_bit bit_exp_iff)

lemma fl_isSet_or: "fl_isSet f (m OR n) \<longleftrightarrow> fl_isSet f m \<or> fl_isSet f n"
  by (auto simp: fl_isSet_def bit.conj_disj_distrib or_eq_0_iff)

lemma bit_fl_set [simp]: "bit (fl_set f m) n \<longleftrightarrow> bit f n \<or> bit m n"
  by (simp add: fl_set_def bit_or_iff)

lemma bit_fl_clear [simp]:
  "bit (fl_clear f (m :: 'a::len word)) n \<longleftrightarrow> bit f n \<and> \<not> bit m n"
  using bit_imp_le_length [of f n] by (auto simp: fl_clear_def bit_and_iff bit_not_iff)

lemma fl_set_val_alt: "fl_set_val f m v = (if v then fl_set f m else fl_clear f m)"
  by (rule bit_word_eqI) (auto simp: fl_set_val_def fl_set_def fl_clear_def bit_simps)

lemma fl_update_same: "fl_update f f m = f"
  by (rule bit_word_eqI) (auto simp: fl_update_def bit_simps)

lemma fl_noneSet_iff: "fl_noneSet f m \<longleftrightarrow> \<not> fl_isSet f m"
  by (simp add: fl_noneSet_def fl_isSet_def)

subsection \<open>Conversions between widths\<close>

lemma unat_ucast_small:
  "unat (w :: 'a::len word) < 2 ^ LENGTH('b::len) \<Longrightarrow> unat (ucast w :: 'b word) = unat w"
  by (simp add: unsigned_ucast_eq take_bit_nat_eq_self)

lemma scast_nonneg:
  fixes sz :: "32 word"
  assumes "0 \<le>s sz"
  shows "(scast sz :: 64 word) = ucast sz" "unat sz < 2 ^ 31"
proof -
  have b: "0 \<le> sint sz" "sint sz < 2 ^ 31"
    using assms sint_lt [of sz] by (simp_all add: word_sle_eq)
  then have u: "uint sz = sint sz"
    unfolding uint_sint by (intro take_bit_int_eq_self) simp_all
  show "unat sz < 2 ^ 31" using b u by (simp add: unat_eq_nat_uint)
  show "(scast sz :: 64 word) = ucast sz" by (metis u scast_eq ucast_eq)
qed

subsection \<open>Indexing\<close>

text \<open>
  Reading and writing one element of an array or of a \<^verbatim>\<open>std::vector\<close>. An index outside the
  bounds, undefined behaviour in C++, is an invalid dereference.
\<close>

definition arr_at :: "'a list \<Rightarrow> 'i::len word \<Rightarrow> 'a res" where
  "arr_at xs i = (if unat i < length xs then Inr (xs ! unat i) else Inl BadPtr)"

definition arr_upd :: "'a list \<Rightarrow> 'i::len word \<Rightarrow> ('a \<Rightarrow> 'a) \<Rightarrow> 'a list res" where
  "arr_upd xs i f = bindR (arr_at xs i) (\<lambda>x. Inr (xs[unat i := f x]))"

lemma arr_at_in [simp]: "unat i < length xs \<Longrightarrow> arr_at xs i = Inr (xs ! unat i)"
  by (simp add: arr_at_def)

lemma arr_upd_in [simp]: "unat i < length xs \<Longrightarrow> arr_upd xs i f = Inr (xs[unat i := f (xs ! unat i)])"
  by (simp add: arr_upd_def)

lemma arr_at_eq [simp]: "arr_at xs i = Inr x \<longleftrightarrow> unat i < length xs \<and> x = xs ! unat i"
  by (auto simp: arr_at_def)

subsection \<open>Lists\<close>

lemma map_list_update_id: "i < length xs \<Longrightarrow> f y = f (xs ! i) \<Longrightarrow> map f (xs[i := y]) = map f xs"
  by (metis list_update_id map_update)

lemma bindC_ret_elim:
  assumes "bindC m f = ret y"
  obtains x where "m = ret x" "f x = ret y"
  using assms by (auto simp: bindC_def ret_def split: option.splits sum.splits)

lemma distinct_last:
  assumes "distinct s" "s \<noteq> []"
  shows "last s \<notin> set (butlast s)" "remove1 (last s) s = butlast s"
  using assms by (induction s rule: rev_induct) (auto simp: remove1_append)

end
