(* ===== verification/Min_Queue.thy ===== *)
theory Min_Queue
  imports M5_Prelude "HOL-Library.Multiset"
begin

section \<open>Queues that return a least element\<close>

text \<open>
  The contract two components of the simulator offer to their clients: an element
  of least key is taken out, and nothing else changes. The event queue and the
  priority heap of the Ruby message buffers are instances. The client that takes
  out everything is verified once, against the contract.
\<close>

fun drain :: "('q \<Rightarrow> ('q \<times> 'a) comp) \<Rightarrow> nat \<Rightarrow> 'q \<Rightarrow> ('q \<times> 'a list) comp" where
  "drain pop 0 q = ret (q, [])"
| "drain pop (Suc n) q = bindC (pop q) (\<lambda>(q1, x). bindC (drain pop n q1) (\<lambda>(q2, xs). ret (q2, x # xs)))"

locale min_queue =
  fixes rep :: "'q \<Rightarrow> ('a \<times> 'k::linorder) multiset \<Rightarrow> bool"
    and pop :: "'q \<Rightarrow> ('q \<times> 'a) comp"
  assumes pop_min: "rep q M \<Longrightarrow> M \<noteq> {#} \<Longrightarrow>
    \<exists>q' x k. pop q = ret (q', x) \<and> (x, k) \<in># M \<and> (\<forall>y \<in># M. k \<le> snd y) \<and> rep q' (M - {#(x, k)#})"
begin

lemma drain_sorted:
  assumes "rep q M" "size M = n"
  shows "\<exists>q' ys. drain pop n q = ret (q', map fst ys) \<and> mset ys = M \<and> sorted (map snd ys) \<and> rep q' {#}"
  using assms
proof (induction n arbitrary: q M)
  case 0
  then show ?case by (intro exI [of _ q] exI [of _ "[]"]) simp
next
  case (Suc n)
  then have "M \<noteq> {#}" by auto
  then obtain q1 x k where p: "pop q = ret (q1, x)" "(x, k) \<in># M" "\<forall>y \<in># M. k \<le> snd y"
      "rep q1 (M - {#(x, k)#})"
    using pop_min Suc.prems(1) by blast
  moreover have "size (M - {#(x, k)#}) = n" using p(2) Suc.prems(2) by (simp add: size_Diff_singleton)
  ultimately obtain q2 ys where d: "drain pop n q1 = ret (q2, map fst ys)" "mset ys = M - {#(x, k)#}"
      "sorted (map snd ys)" "rep q2 {#}"
    using Suc.IH by blast
  have "set ys \<subseteq> set_mset M" using d(2) by (metis in_diffD set_mset_mset subsetI)
  then have "sorted (map snd ((x, k) # ys))" using d(3) p(3) by auto
  moreover have "mset ((x, k) # ys) = M" using d(2) p(2) by simp
  moreover have "drain pop (Suc n) q = ret (q2, map fst ((x, k) # ys))" using p(1) d(1) by simp
  ultimately show ?case using d(4) by blast
qed

end

end
