(* ===== verification/Event_Queue.thy ===== *)
theory Event_Queue
  imports Min_Queue
begin

unbundle bit_operations_syntax

section \<open>The event queue\<close>

text \<open>
  Model of \<^verbatim>\<open>src/src/sim/eventq.hh\<close> and \<^verbatim>\<open>src/src/sim/eventq.cc\<close>. The queue is a
  linked list of bins, a bin being a stack of events with the same time and
  priority; the links are the fields \<open>nextBin\<close> and \<open>nextInBin\<close> of the events
  themselves, and the \<open>nextBin\<close> field of an event that is not on top of its stack
  may be stale. The model keeps this representation: a heap of event objects,
  pointers as numbers, null as \<^const>\<open>None\<close>, a deleted object as an unmapped
  address. Loops that follow pointers are partial, since a cyclic list would make
  them run forever.

  The lemmas show that every operation returns on a well-formed queue, that it
  implements insertion into, removal from and popping of a list of bins, and that
  the flattened bins are a stable sorted list in which a new event comes before
  the events of equal time and priority (last in, first out).
\<close>

subsection \<open>Events\<close>

record event =
  nextBin :: "nat option"
  nextInBin :: "nat option"
  e_when :: tick
  e_priority :: "8 word"
  e_flags :: int16

definition PublicRead :: int16 where "PublicRead = 0x003f"
definition PublicWrite :: int16 where "PublicWrite = 0x001d"
definition Squashed :: int16 where "Squashed = 0x0001"
definition Scheduled :: int16 where "Scheduled = 0x0002"
definition AutoDelete :: int16 where "AutoDelete = 0x0004"
definition AutoSerialize :: int16 where "AutoSerialize = 0x0008"
definition IsExitEvent :: int16 where "IsExitEvent = 0x0010"
definition IsMainQueue :: int16 where "IsMainQueue = 0x0020"
definition Initialized :: int16 where "Initialized = 0x7a40"
definition InitMask :: int16 where "InitMask = 0xffc0"

definition initialized :: "event \<Rightarrow> bool" where
  "initialized e \<longleftrightarrow> e_flags e AND InitMask = Initialized"

definition scheduled :: "event \<Rightarrow> bool" where
  "scheduled e \<longleftrightarrow> fl_isSet (e_flags e) Scheduled"

definition squashed :: "event \<Rightarrow> bool" where
  "squashed e \<longleftrightarrow> fl_isSet (e_flags e) Squashed"

definition isExitEvent :: "event \<Rightarrow> bool" where
  "isExitEvent e \<longleftrightarrow> fl_isSet (e_flags e) IsExitEvent"

definition squash :: "event \<Rightarrow> event" where
  "squash e = e\<lparr>e_flags := fl_set (e_flags e) Squashed\<rparr>"

definition setFlags :: "int16 \<Rightarrow> event \<Rightarrow> event res" where
  "setFlags fl e = bindR (assertR (fl_noneSet fl (NOT PublicWrite)) ''noneSet(~PublicWrite)'')
     (\<lambda>_. Inr (e\<lparr>e_flags := fl_set (e_flags e) fl\<rparr>))"

definition clearFlags :: "int16 \<Rightarrow> event \<Rightarrow> event res" where
  "clearFlags fl e = bindR (assertR (fl_noneSet fl (NOT PublicWrite)) ''noneSet(~PublicWrite)'')
     (\<lambda>_. Inr (e\<lparr>e_flags := fl_clear (e_flags e) fl\<rparr>))"

definition Default_Pri :: "8 word" where "Default_Pri = 0"
definition CPU_Tick_Pri :: "8 word" where "CPU_Tick_Pri = 50"
definition Stat_Event_Pri :: "8 word" where "Stat_Event_Pri = 90"
definition Sim_Exit_Pri :: "8 word" where "Sim_Exit_Pri = 100"

text \<open>
  The constructor leaves the time uninitialised; the model stores 0, which no
  operation reads before \<open>setWhen\<close>.
\<close>

definition new_event :: "8 word \<Rightarrow> event" where
  "new_event p = \<lparr>nextBin = None, nextInBin = None, e_when = 0, e_priority = p,
     e_flags = Initialized\<rparr>"

definition event_less :: "event \<Rightarrow> event \<Rightarrow> bool" where
  "event_less l r \<longleftrightarrow> e_when l <s e_when r \<or>
     (e_when l = e_when r \<and> e_priority l <s e_priority r)"

definition event_le :: "event \<Rightarrow> event \<Rightarrow> bool" where
  "event_le l r \<longleftrightarrow> e_when l <s e_when r \<or>
     (e_when l = e_when r \<and> e_priority l \<le>s e_priority r)"

definition event_eq :: "event \<Rightarrow> event \<Rightarrow> bool" where
  "event_eq l r \<longleftrightarrow> e_when l = e_when r \<and> e_priority l = e_priority r"

subsection \<open>The queue and its list operations\<close>

record evq =
  heap :: "nat \<Rightarrow> event option"
  qhead :: "nat option"
  isMain :: bool
  curTick :: tick
  dtrace :: bool

definition deref :: "evq \<Rightarrow> nat \<Rightarrow> event comp" where
  "deref s p = (case heap s p of None \<Rightarrow> fail BadPtr | Some e \<Rightarrow> ret e)"

definition upd :: "nat \<Rightarrow> (event \<Rightarrow> event) \<Rightarrow> evq \<Rightarrow> evq" where
  "upd p f s = s\<lparr>heap := (heap s)(p := map_option f (heap s p))\<rparr>"

definition empty_evq :: "evq \<Rightarrow> bool" where
  "empty_evq s \<longleftrightarrow> qhead s = None"

definition nextTick :: "evq \<Rightarrow> tick comp" where
  "nextTick s = (case qhead s of None \<Rightarrow> fail BadPtr | Some p \<Rightarrow> bindC (deref s p) (\<lambda>e. ret (e_when e)))"

definition nextEventTime :: "evq \<Rightarrow> tick comp" where
  "nextEventTime s = (if empty_evq s then ret (curTick s) else nextTick s)"

definition insertBefore :: "nat \<Rightarrow> nat option \<Rightarrow> evq \<Rightarrow> (evq \<times> nat) comp" where
  "insertBefore ev cur s = bindC (deref s ev) (\<lambda>e.
     case cur of
       None \<Rightarrow> ret (upd ev (\<lambda>e. e\<lparr>nextBin := None, nextInBin := None\<rparr>) s, ev)
     | Some c \<Rightarrow> bindC (deref s c) (\<lambda>ce.
         if event_less e ce
         then ret (upd ev (\<lambda>e. e\<lparr>nextBin := Some c, nextInBin := None\<rparr>) s, ev)
         else ret (upd ev (\<lambda>e. e\<lparr>nextBin := nextBin ce, nextInBin := Some c\<rparr>) s, ev)))"

partial_function (option) find_bin ::
  "(nat \<Rightarrow> event option) \<Rightarrow> event \<Rightarrow> nat \<times> nat option \<Rightarrow> (nat \<times> nat option) comp" where
  "find_bin h e pc =
     (case snd pc of
        None \<Rightarrow> ret pc
      | Some c \<Rightarrow>
          (case h c of
             None \<Rightarrow> fail BadPtr
           | Some ce \<Rightarrow> if event_less ce e then find_bin h e (c, nextBin ce) else ret pc))"

definition insert_ev :: "nat \<Rightarrow> evq \<Rightarrow> evq comp" where
  "insert_ev ev s = bindC (deref s ev) (\<lambda>e.
     case qhead s of
       None \<Rightarrow> bindC (insertBefore ev None s) (\<lambda>(s', p). ret (s'\<lparr>qhead := Some p\<rparr>))
     | Some hp \<Rightarrow> bindC (deref s hp) (\<lambda>h.
         if event_le e h
         then bindC (insertBefore ev (Some hp) s) (\<lambda>(s', p). ret (s'\<lparr>qhead := Some p\<rparr>))
         else bindC (find_bin (heap s) e (hp, nextBin h)) (\<lambda>(prev, cur).
           bindC (insertBefore ev cur s) (\<lambda>(s', p).
             ret (upd prev (\<lambda>e. e\<lparr>nextBin := Some p\<rparr>) s')))))"

partial_function (option) find_item ::
  "(nat \<Rightarrow> event option) \<Rightarrow> nat \<Rightarrow> nat \<times> nat option \<Rightarrow> (nat \<times> nat) comp" where
  "find_item h ev cn =
     (case snd cn of
        None \<Rightarrow> fail (Panic ''event not found!'')
      | Some n \<Rightarrow>
          if n = ev then ret (fst cn, n)
          else (case h n of None \<Rightarrow> fail BadPtr | Some ne \<Rightarrow> find_item h ev (n, nextInBin ne)))"

definition removeItem :: "nat \<Rightarrow> nat \<Rightarrow> evq \<Rightarrow> (evq \<times> nat option) comp" where
  "removeItem ev tp s = bindC (deref s tp) (\<lambda>te.
     if ev = tp then
       (case nextInBin te of
          None \<Rightarrow> ret (s, nextBin te)
        | Some n \<Rightarrow> bindC (deref s n) (\<lambda>_. ret (upd n (\<lambda>e. e\<lparr>nextBin := nextBin te\<rparr>) s, Some n)))
     else bindC (find_item (heap s) ev (tp, nextInBin te)) (\<lambda>(cur, n).
       bindC (deref s n) (\<lambda>ne.
         ret (upd cur (\<lambda>e. e\<lparr>nextInBin := nextInBin ne\<rparr>) s, Some tp))))"

definition remove_ev :: "nat \<Rightarrow> evq \<Rightarrow> evq comp" where
  "remove_ev ev s =
     (case qhead s of
        None \<Rightarrow> fail (Panic ''event not found!'')
      | Some hp \<Rightarrow> bindC (deref s hp) (\<lambda>h. bindC (deref s ev) (\<lambda>e.
          if event_eq h e
          then bindC (removeItem ev hp s) (\<lambda>(s', p). ret (s'\<lparr>qhead := p\<rparr>))
          else bindC (find_bin (heap s) e (hp, nextBin h)) (\<lambda>(prev, cur).
            case cur of
              None \<Rightarrow> fail (Panic ''event not found!'')
            | Some c \<Rightarrow> bindC (deref s c) (\<lambda>ce.
                if \<not> event_eq ce e then fail (Panic ''event not found!'')
                else bindC (removeItem ev c s) (\<lambda>(s', p).
                  ret (upd prev (\<lambda>e. e\<lparr>nextBin := p\<rparr>) s')))))))"

subsection \<open>Scheduling\<close>

definition set_main_flag :: "bool \<Rightarrow> event \<Rightarrow> event" where
  "set_main_flag main e =
     e\<lparr>e_flags := (if main then fl_set (e_flags e) IsMainQueue else fl_clear (e_flags e) IsMainQueue)\<rparr>"

definition schedule :: "nat \<Rightarrow> tick \<Rightarrow> evq \<Rightarrow> evq comp" where
  "schedule ev when s =
     (if \<not> curTick s \<le> when then fail (Assert ''when >= curTick'')
      else bindC (deref s ev) (\<lambda>e.
        if scheduled e then fail (Assert ''!scheduled'')
        else if \<not> initialized e then fail (Assert ''initialized'')
        else bindC (insert_ev ev (upd ev (\<lambda>e. e\<lparr>e_when := when\<rparr>) s)) (\<lambda>s'.
          ret (upd ev (set_main_flag (isMain s'))
                (upd ev (\<lambda>e. e\<lparr>e_flags := fl_set (e_flags e) Scheduled\<rparr>) s')))))"

definition delete_event :: "nat \<Rightarrow> evq \<Rightarrow> evq comp" where
  "delete_event ev s = bindC (deref s ev) (\<lambda>e.
     if scheduled e then fail (Assert ''!scheduled'')
     else ret (s\<lparr>heap := (heap s)(ev := None)\<rparr>))"

definition trace_event :: "nat \<Rightarrow> evq \<Rightarrow> evq comp" where
  "trace_event ev s = (if dtrace s then bindC (deref s ev) (\<lambda>_. ret s) else ret s)"

definition deschedule :: "nat \<Rightarrow> evq \<Rightarrow> evq comp" where
  "deschedule ev s = bindC (deref s ev) (\<lambda>e.
     if \<not> scheduled e then fail (Assert ''scheduled'')
     else if \<not> initialized e then fail (Assert ''initialized'')
     else bindC (remove_ev ev s) (\<lambda>s1.
       let s2 = upd ev (\<lambda>e. e\<lparr>e_flags := fl_clear (fl_clear (e_flags e) Squashed) Scheduled\<rparr>) s1 in
       bindC (deref s2 ev) (\<lambda>e2.
         bindC (if fl_isSet (e_flags e2) AutoDelete then delete_event ev s2 else ret s2)
           (trace_event ev))))"

definition reschedule :: "nat \<Rightarrow> tick \<Rightarrow> bool \<Rightarrow> evq \<Rightarrow> evq comp" where
  "reschedule ev when always s =
     (if \<not> curTick s \<le>s when then fail (Assert ''when >= curTick'')
      else bindC (deref s ev) (\<lambda>e.
        if \<not> (always \<or> scheduled e) then fail (Assert ''always || scheduled'')
        else if \<not> initialized e then fail (Assert ''initialized'')
        else bindC (if scheduled e then remove_ev ev s else ret s) (\<lambda>s1.
          bindC (insert_ev ev (upd ev (\<lambda>e. e\<lparr>e_when := when\<rparr>) s1)) (\<lambda>s2.
            ret (upd ev (set_main_flag (isMain s2))
                  (upd ev (\<lambda>e. e\<lparr>e_flags :=
                     fl_set (fl_clear (e_flags e) Squashed) Scheduled\<rparr>) s2))))))"

text \<open>
  The part of \<open>serviceOne\<close> before the event's action: the head is popped and its
  \<open>Scheduled\<close> flag cleared.
\<close>

definition pop_head :: "evq \<Rightarrow> (evq \<times> nat) comp" where
  "pop_head s =
     (case qhead s of
        None \<Rightarrow> fail BadPtr
      | Some ev \<Rightarrow> bindC (deref s ev) (\<lambda>e.
          let s1 = upd ev (\<lambda>e. e\<lparr>e_flags := fl_clear (e_flags e) Scheduled\<rparr>) s in
          case nextInBin e of
            Some n \<Rightarrow> bindC (deref s1 n) (\<lambda>_.
              ret ((upd n (\<lambda>x. x\<lparr>nextBin := nextBin e\<rparr>) s1)\<lparr>qhead := Some n\<rparr>, ev))
          | None \<Rightarrow> ret (s1\<lparr>qhead := nextBin e\<rparr>, ev)))"

subsection \<open>Keys and order\<close>

definition ev_key :: "event \<Rightarrow> int \<times> int" where
  "ev_key e = (sint (e_when e), sint (e_priority e))"

lemma event_less_key: "event_less l r \<longleftrightarrow> ev_key l < ev_key r"
  by (auto simp: event_less_def ev_key_def word_sless_alt less_prod_def signed_word_eqI)

lemma event_le_key: "event_le l r \<longleftrightarrow> ev_key l \<le> ev_key r"
  by (auto simp: event_le_def ev_key_def word_sless_alt word_sle_eq less_eq_prod_def signed_word_eqI)

lemma event_eq_key: "event_eq l r \<longleftrightarrow> ev_key l = ev_key r"
  by (auto simp: event_eq_def ev_key_def signed_word_eqI)

lemmas event_order = event_less_key event_le_key event_eq_key

subsection \<open>Linked bins\<close>

primrec in_bin :: "(nat \<Rightarrow> event option) \<Rightarrow> nat option \<Rightarrow> nat list \<Rightarrow> bool" where
  "in_bin h p [] = (p = None)"
| "in_bin h p (x # xs) =
     (p = Some x \<and> (case h x of None \<Rightarrow> False | Some e \<Rightarrow> in_bin h (nextInBin e) xs))"

primrec bin_seg :: "(nat \<Rightarrow> event option) \<Rightarrow> nat option \<Rightarrow> nat list list \<Rightarrow> nat option \<Rightarrow> bool" where
  "bin_seg h p [] q = (p = q)"
| "bin_seg h p (b # bs) q =
     (b \<noteq> [] \<and> in_bin h p b \<and> (case h (hd b) of None \<Rightarrow> False | Some e \<Rightarrow> bin_seg h (nextBin e) bs q))"

definition key_of :: "(nat \<Rightarrow> event option) \<Rightarrow> nat \<Rightarrow> int \<times> int" where
  "key_of h p = (case h p of None \<Rightarrow> (0, 0) | Some e \<Rightarrow> ev_key e)"

lemma key_of_Some [simp]: "h p = Some e \<Longrightarrow> key_of h p = ev_key e"
  by (simp add: key_of_def)

definition bins_ok :: "(nat \<Rightarrow> int \<times> int) \<Rightarrow> nat list list \<Rightarrow> bool" where
  "bins_ok f bs \<longleftrightarrow> (\<forall>b \<in> set bs. b \<noteq> [] \<and> (\<forall>x \<in> set b. f (hd b) = f x)) \<and>
     sorted_wrt (<) (map (f \<circ> hd) bs)"

fun bins_ins :: "(nat \<Rightarrow> int \<times> int) \<Rightarrow> nat \<Rightarrow> nat list list \<Rightarrow> nat list list" where
  "bins_ins f x [] = [[x]]"
| "bins_ins f x (b # bs) =
     (if f x < f (hd b) then [x] # b # bs
      else if f x = f (hd b) then (x # b) # bs
      else b # bins_ins f x bs)"

fun bins_del :: "nat \<Rightarrow> nat list list \<Rightarrow> nat list list" where
  "bins_del x [] = []"
| "bins_del x (b # bs) =
     (if x \<in> set b then (if remove1 x b = [] then bs else remove1 x b # bs) else b # bins_del x bs)"

lemma bins_ok_Cons:
  "bins_ok f (b # bs) \<longleftrightarrow> b \<noteq> [] \<and> (\<forall>x \<in> set b. f (hd b) = f x) \<and>
     (\<forall>c \<in> set bs. f (hd b) < f (hd c)) \<and> bins_ok f bs"
  by (auto simp: bins_ok_def)

lemma bins_ok_Nil [simp]: "bins_ok f []"
  by (simp add: bins_ok_def)

lemma bins_ok_less: "bins_ok f (b # bs) \<Longrightarrow> x \<in> set b \<Longrightarrow> y \<in> set (concat bs) \<Longrightarrow> f x < f y"
  by (fastforce simp: bins_ok_def)

lemma hd_in_set_bins_ins: "b \<in> set (bins_ins f x bs) \<Longrightarrow> \<forall>b \<in> set bs. b \<noteq> [] \<Longrightarrow>
  hd b = x \<or> (\<exists>c \<in> set bs. f (hd b) = f (hd c))"
  by (induction bs) (auto split: if_splits)

lemma bins_ok_ins: "bins_ok f bs \<Longrightarrow> bins_ok f (bins_ins f x bs)"
proof (induction bs)
  case Nil
  then show ?case by (simp add: bins_ok_def)
next
  case (Cons b bs)
  have ne: "\<forall>c \<in> set bs. c \<noteq> []" using Cons.prems by (auto simp: bins_ok_def)
  have lt: "f (hd b) < f (hd c)" if "c \<in> set (bins_ins f x bs)" "f (hd b) < f x" for c
    using hd_in_set_bins_ins [OF that(1) ne] that(2) Cons.prems by (auto simp: bins_ok_Cons)
  show ?case
    using Cons lt by (auto simp: bins_ok_Cons)
qed

lemma concat_bins_ins: "bins_ok f bs \<Longrightarrow> concat (bins_ins f x bs) = insort_key f x (concat bs)"
proof (induction bs)
  case Nil
  then show ?case by simp
next
  case (Cons b bs)
  have b: "b \<noteq> []" "\<forall>y \<in> set b. f (hd b) = f y" using Cons.prems by (auto simp: bins_ok_Cons)
  have skip: "insort_key f x (b @ ys) = b @ insort_key f x ys" if "\<forall>y \<in> set b. f y < f x" for b ys
    using that by (induction b) auto
  have first: "insort_key f x (b @ ys) = x # b @ ys" if "f x \<le> f (hd b)" "b \<noteq> []" for b ys
    using that by (cases b) auto
  have "\<forall>y \<in> set b. f y < f x" if "f x \<noteq> f (hd b)" "\<not> f x < f (hd b)"
    using that b(2) by (metis linorder_less_linear)
  then show ?case
    using Cons b(1) skip [of b "concat bs"] first [of b "concat bs"] by (auto simp: bins_ok_Cons)
qed

lemma concat_bins_del: "distinct (concat bs) \<Longrightarrow> concat (bins_del x bs) = remove1 x (concat bs)"
proof (induction bs)
  case Nil
  then show ?case by simp
next
  case (Cons b bs)
  then have "remove1 x (b @ concat bs) = (if x \<in> set b then remove1 x b @ concat bs else b @ remove1 x (concat bs))"
    by (simp add: remove1_append)
  with Cons show ?case by auto
qed

lemma hd_remove1_key: "\<forall>y \<in> set b. k = f y \<Longrightarrow> remove1 x b \<noteq> [] \<Longrightarrow> k = f (hd (remove1 x b))"
  by (meson hd_in_set notin_set_remove1)

lemma bins_del_hd:
  "c \<in> set (bins_del x bs) \<Longrightarrow> bins_ok f bs \<Longrightarrow> \<exists>d \<in> set bs. f (hd c) = f (hd d)"
proof (induction bs)
  case (Cons b bs)
  then show ?case
    using hd_remove1_key [of b "f (hd b)" f x]
    by (cases "x \<in> set b"; cases "remove1 x b = []") (auto simp: bins_ok_Cons)
qed simp

lemma bins_ok_del: "bins_ok f bs \<Longrightarrow> bins_ok f (bins_del x bs)"
proof (induction bs)
  case Nil
  then show ?case by simp
next
  case (Cons b bs)
  have b: "b \<noteq> []" "\<forall>y \<in> set b. f (hd b) = f y" "\<forall>c \<in> set bs. f (hd b) < f (hd c)" "bins_ok f bs"
    using Cons.prems by (auto simp: bins_ok_Cons)
  have del: "\<exists>d \<in> set bs. f (hd c) = f (hd d)" if "c \<in> set (bins_del x bs)" for c
    using that b(4) by (rule bins_del_hd)
  have keys: "f (hd b) = f (hd (remove1 x b))" if "remove1 x b \<noteq> []"
    using hd_remove1_key [OF b(2) that] .
  have sub: "\<forall>y \<in> set (remove1 x b). f (hd b) = f y"
    using b(2) by (meson notin_set_remove1)
  have lt: "\<forall>c \<in> set (bins_del x bs). f (hd b) < f (hd c)"
    using del b(3) by metis
  show ?case
  proof (cases "x \<in> set b")
    case True
    have "bins_ok f (remove1 x b # bs)" if ne: "remove1 x b \<noteq> []"
      unfolding bins_ok_Cons keys [OF ne, symmetric] using ne sub b(3,4) by blast
    with True b(4) show ?thesis by simp
  next
    case False
    with Cons.IH b lt show ?thesis by (simp add: bins_ok_Cons)
  qed
qed

lemma heap_upd [simp]: "heap (upd p f s) = (heap s)(p := map_option f (heap s p))"
  and qhead_upd [simp]: "qhead (upd p f s) = qhead s"
  and isMain_upd [simp]: "isMain (upd p f s) = isMain s"
  and curTick_upd [simp]: "curTick (upd p f s) = curTick s"
  and dtrace_upd [simp]: "dtrace (upd p f s) = dtrace s"
  by (simp_all add: upd_def)

lemma deref_Some [simp]: "heap s p = Some e \<Longrightarrow> deref s p = ret e"
  and deref_None [simp]: "heap s p = None \<Longrightarrow> deref s p = fail BadPtr"
  by (simp_all add: deref_def)

lemma in_bin_cong:
  "(\<And>x. x \<in> set xs \<Longrightarrow> map_option nextInBin (h x) = map_option nextInBin (h' x)) \<Longrightarrow>
   in_bin h p xs = in_bin h' p xs"
proof (induction xs arbitrary: p)
  case (Cons x xs)
  have "map_option nextInBin (h x) = map_option nextInBin (h' x)" using Cons.prems by simp
  with Cons show ?case by (cases "h x"; cases "h' x") auto
qed simp

lemma in_bin_alloc: "in_bin h p xs \<Longrightarrow> x \<in> set xs \<Longrightarrow> \<exists>e. h x = Some e"
  by (induction xs arbitrary: p) (auto split: option.splits)

lemma in_bin_hd: "in_bin h p xs \<Longrightarrow> xs \<noteq> [] \<Longrightarrow> p = Some (hd xs)"
  by (cases xs) auto

lemma bin_seg_cong:
  "(\<And>x. x \<in> set (concat bs) \<Longrightarrow> map_option nextInBin (h x) = map_option nextInBin (h' x)) \<Longrightarrow>
   (\<And>b. b \<in> set bs \<Longrightarrow> map_option nextBin (h (hd b)) = map_option nextBin (h' (hd b))) \<Longrightarrow>
   bin_seg h p bs q = bin_seg h' p bs q"
proof (induction bs arbitrary: p)
  case (Cons b bs)
  have "in_bin h p b = in_bin h' p b" using Cons.prems(1) by (intro in_bin_cong) simp
  moreover have "map_option nextBin (h (hd b)) = map_option nextBin (h' (hd b))"
    using Cons.prems(2) by simp
  ultimately show ?case using Cons by (cases "h (hd b)"; cases "h' (hd b)") auto
qed simp

lemma bin_seg_append:
  "bin_seg h p (xs @ ys) q \<longleftrightarrow> (\<exists>r. bin_seg h p xs r \<and> bin_seg h r ys q)"
  by (induction xs arbitrary: p) (auto split: option.splits)

lemma bin_seg_alloc: "bin_seg h p bs q \<Longrightarrow> x \<in> set (concat bs) \<Longrightarrow> \<exists>e. h x = Some e"
  by (induction bs arbitrary: p) (auto dest: in_bin_alloc split: option.splits)

lemma bin_seg_hd: "bin_seg h p (b # bs) q \<Longrightarrow> p = Some (hd b)"
  using in_bin_hd by auto

lemma bin_seg_nonempty: "bin_seg h p bs q \<Longrightarrow> b \<in> set bs \<Longrightarrow> b \<noteq> []"
  by (induction bs arbitrary: p) (auto split: option.splits)

text \<open>Updating cells outside the bins leaves them linked.\<close>

lemma bin_seg_frame:
  assumes seg: "bin_seg h p bs q" and x: "x \<notin> set (concat bs)"
  shows "bin_seg (h(x := v)) p bs q"
proof -
  have "hd b \<noteq> x" if "b \<in> set bs" for b
    using that x bin_seg_nonempty [OF seg that] by (auto dest: hd_in_set)
  then have "bin_seg (h(x := v)) p bs q = bin_seg h p bs q"
    using x by (intro bin_seg_cong) auto
  with seg show ?thesis by simp
qed

text \<open>Redirecting the last bin of a segment.\<close>

lemma bin_seg_relink:
  assumes "bin_seg h p (bs @ [b]) r" "distinct (concat (bs @ [b]))"
  shows "bin_seg (h(hd b := map_option (\<lambda>e. e\<lparr>nextBin := q\<rparr>) (h (hd b)))) p (bs @ [b]) q"
    (is "bin_seg ?h p _ q")
proof -
  obtain r' where pre: "bin_seg h p bs r'" and b: "b \<noteq> []" "in_bin h r' b"
    and alloc: "h (hd b) \<noteq> None"
    using assms(1) by (auto simp: bin_seg_append split: option.splits)
  have "hd b \<notin> set (concat bs)" using assms(2) b(1) by (auto dest: hd_in_set)
  then have "bin_seg ?h p bs r'" using pre bin_seg_frame by blast
  moreover have "in_bin ?h r' b"
    using b(2) by (subst in_bin_cong [where h' = h]) (auto simp: option.map_comp comp_def)
  ultimately show ?thesis using b(1) alloc by (auto simp: bin_seg_append)
qed

lemma find_bin_seg:
  assumes "bin_seg h cur bs None"
  shows "find_bin h e (prev, cur) =
    (let P = (\<lambda>b. key_of h (hd b) < ev_key e); pre = takeWhile P bs; post = dropWhile P bs in
     ret (if pre = [] then prev else hd (last pre), case post of [] \<Rightarrow> None | b # _ \<Rightarrow> Some (hd b)))"
  using assms
proof (induction bs arbitrary: prev cur)
  case Nil
  then show ?case by (simp add: find_bin.simps)
next
  case (Cons b bs)
  then obtain ce where c: "cur = Some (hd b)" "h (hd b) = Some ce" "bin_seg h (nextBin ce) bs None"
    using in_bin_hd by (fastforce split: option.splits)
  then show ?case
    using Cons.IH [OF c(3), of "hd b"]
    by (subst find_bin.simps) (auto simp: event_less_key Let_def)
qed

definition ins_top :: "(nat \<Rightarrow> int \<times> int) \<Rightarrow> nat \<Rightarrow> nat list list \<Rightarrow> nat list list" where
  "ins_top f x post = (case post of [] \<Rightarrow> [[x]]
     | b # ps \<Rightarrow> if f x < f (hd b) then [x] # b # ps else (x # b) # ps)"

lemma bins_ins_split:
  "bins_ins f x bs = takeWhile (\<lambda>b. f (hd b) < f x) bs @
     ins_top f x (dropWhile (\<lambda>b. f (hd b) < f x) bs)"
  by (induction bs) (auto simp: ins_top_def)

lemma concat_ins_top: "set (concat (ins_top f x bs)) = Set.insert x (set (concat bs))"
  by (auto simp: ins_top_def split: list.splits)

definition link_only :: "(event \<Rightarrow> event) \<Rightarrow> bool" where
  "link_only f \<longleftrightarrow> (\<forall>e. e_when (f e) = e_when e \<and> e_priority (f e) = e_priority e \<and>
     e_flags (f e) = e_flags e)"

lemma insertBefore_spec:
  assumes e: "heap s ev = Some e"
    and seg: "bin_seg (heap s) cur post None"
    and new: "ev \<notin> set (concat post)"
    and stop: "case post of [] \<Rightarrow> True | b # _ \<Rightarrow> \<not> key_of (heap s) (hd b) < ev_key e"
  shows "\<exists>f. insertBefore ev cur s = ret (upd ev f s, ev) \<and> link_only f \<and>
    bin_seg (heap (upd ev f s)) (Some ev) (ins_top (key_of (heap s)) ev post) None"
proof (cases post)
  case Nil
  with seg e show ?thesis
    by (intro exI [of _ "\<lambda>e. e\<lparr>nextBin := None, nextInBin := None\<rparr>"])
       (auto simp: insertBefore_def ins_top_def link_only_def)
next
  case (Cons b ps)
  with seg obtain ce where b: "b \<noteq> []" "cur = Some (hd b)" "in_bin (heap s) cur b"
    and ce: "heap s (hd b) = Some ce" "bin_seg (heap s) (nextBin ce) ps None"
    using in_bin_hd by (fastforce split: option.splits)
  have new': "ev \<notin> set b" "ev \<notin> set (concat ps)" "hd b \<noteq> ev"
    using new Cons b(1) by auto
  show ?thesis
  proof (cases "ev_key e < ev_key ce")
    case True
    let ?f = "\<lambda>e. e\<lparr>nextBin := Some (hd b), nextInBin := None\<rparr> :: event"
    have "bin_seg ((heap s)(ev := Some (?f e))) (Some (hd b)) (b # ps) None"
      using seg Cons b(2) new by (intro bin_seg_frame) simp_all
    then show ?thesis using True e ce b new' Cons
      by (intro exI [of _ ?f])
         (simp add: insertBefore_def event_less_key ins_top_def link_only_def)
  next
    case False
    let ?f = "\<lambda>e. e\<lparr>nextBin := nextBin ce, nextInBin := Some (hd b)\<rparr> :: event"
    have "bin_seg ((heap s)(ev := Some (?f e))) (nextBin ce) ps None"
      using ce new'(2) by (intro bin_seg_frame)
    moreover have "in_bin ((heap s)(ev := Some (?f e))) (Some (hd b)) b"
      using b new'(1) by (subst in_bin_cong [where h' = "heap s"]) auto
    ultimately show ?thesis using False e ce b new' Cons
      by (intro exI [of _ ?f])
         (simp add: insertBefore_def event_less_key ins_top_def link_only_def)
  qed
qed

definition ev_data :: "event \<Rightarrow> tick \<times> 8 word \<times> int16" where
  "ev_data e = (e_when e, e_priority e, e_flags e)"

definition same_data :: "(nat \<Rightarrow> event option) \<Rightarrow> (nat \<Rightarrow> event option) \<Rightarrow> bool" where
  "same_data h h' \<longleftrightarrow> (\<forall>p. map_option ev_data (h p) = map_option ev_data (h' p))"

lemma same_data_refl [simp]: "same_data h h"
  by (simp add: same_data_def)

lemma same_data_trans: "same_data h h' \<Longrightarrow> same_data h' h'' \<Longrightarrow> same_data h h''"
  by (simp add: same_data_def)

lemma same_data_link: "link_only f \<Longrightarrow> same_data h (h(p := map_option f (h p)))"
  by (cases "h p") (auto simp: same_data_def link_only_def ev_data_def)

lemma link_only_next [simp]:
  "link_only (\<lambda>e. e\<lparr>nextBin := q\<rparr>)" "link_only (\<lambda>e. e\<lparr>nextInBin := q\<rparr>)"
  by (simp_all add: link_only_def)

lemma same_data_key: "same_data h h' \<Longrightarrow> key_of h = key_of h'"
proof
  fix p assume "same_data h h'"
  then have "map_option ev_data (h p) = map_option ev_data (h' p)" by (simp add: same_data_def)
  then show "key_of h p = key_of h' p"
    by (auto simp: key_of_def ev_data_def ev_key_def split: option.splits)
qed

definition agrees_off :: "nat set \<Rightarrow> (nat \<Rightarrow> event option) \<Rightarrow> (nat \<Rightarrow> event option) \<Rightarrow> bool" where
  "agrees_off A h h' \<longleftrightarrow> (\<forall>p. p \<notin> A \<longrightarrow> h' p = h p)"

lemma hd_last_in_concat:
  assumes "bin_seg h p pre r" "pre \<noteq> []"
  shows "hd (last pre) \<in> set (concat pre)"
proof -
  have "last pre \<in> set pre" using assms(2) by simp
  moreover have "last pre \<noteq> []" using bin_seg_nonempty [OF assms(1) calculation] .
  ultimately show ?thesis by (metis concat_append concat.simps(2) hd_in_set in_set_conv_decomp
        Un_iff set_append)
qed

text \<open>
  Both list operations end the same way: the bins before the position stay linked
  as they are, and the last of them is redirected to the new rest of the list.
\<close>

lemma bin_seg_splice:
  assumes pre: "bin_seg h p pre r" "pre \<noteq> []" "distinct (concat pre)"
    and post: "bin_seg h q post None" "set (concat pre) \<inter> set (concat post) = {}"
  shows "bin_seg (h(hd (last pre) := map_option (\<lambda>e. e\<lparr>nextBin := q\<rparr>) (h (hd (last pre)))))
    p (pre @ post) None" (is "bin_seg ?h _ _ _")
proof -
  have pre_eq: "pre = butlast pre @ [last pre]" using pre(2) by simp
  have "bin_seg ?h p (butlast pre @ [last pre]) q"
    using pre pre_eq by (intro bin_seg_relink [where r = r]) simp_all
  moreover have "hd (last pre) \<notin> set (concat post)"
    using hd_last_in_concat [OF pre(1,2)] post(2) by blast
  ultimately show ?thesis
    using pre_eq bin_seg_frame [OF post(1)] bin_seg_append by metis
qed

lemma insert_ev_spec:
  assumes e: "heap s ev = Some e"
    and seg: "bin_seg (heap s) (qhead s) bs None"
    and dist: "distinct (concat bs)"
    and new: "ev \<notin> set (concat bs)"
  shows "\<exists>h' q'. insert_ev ev s = ret (s\<lparr>heap := h', qhead := q'\<rparr>) \<and>
    bin_seg h' q' (bins_ins (key_of (heap s)) ev bs) None \<and> same_data (heap s) h' \<and>
    agrees_off (Set.insert ev (set (concat bs))) (heap s) h'"
proof (cases "\<exists>b bs'. bs = b # bs' \<and> key_of (heap s) (hd b) < ev_key e")
  case False
  let ?k = "key_of (heap s)"
  have drop: "bins_ins ?k ev bs = ins_top ?k ev bs"
    using False e by (cases bs) (auto simp: bins_ins_split)
  obtain f where f: "insertBefore ev (qhead s) s = ret (upd ev f s, ev)" "link_only f"
    "bin_seg (heap (upd ev f s)) (Some ev) (ins_top ?k ev bs) None"
    using insertBefore_spec [OF e seg new] False by (cases bs) auto
  have "insert_ev ev s = ret ((upd ev f s)\<lparr>qhead := Some ev\<rparr>)"
  proof (cases bs)
    case Nil
    with seg f e show ?thesis by (simp add: insert_ev_def)
  next
    case (Cons b bs')
    with seg obtain h where "qhead s = Some (hd b)" "heap s (hd b) = Some h"
      using in_bin_hd by (fastforce split: option.splits)
    with Cons False f e show ?thesis by (auto simp: insert_ev_def event_le_key)
  qed
  then show ?thesis
    using f drop same_data_link [OF f(2), of "heap s" ev]
    by (intro exI [of _ "heap (upd ev f s)"] exI [of _ "Some ev"])
       (auto simp: upd_def agrees_off_def)
next
  case True
  let ?k = "key_of (heap s)" and ?P = "\<lambda>b. key_of (heap s) (hd b) < ev_key e"
  from True obtain b bs' where bs: "bs = b # bs'" "?P b" by blast
  define pre where "pre = takeWhile ?P bs"
  define post where "post = dropWhile ?P bs"
  have pp: "bs = pre @ post" "pre = b # takeWhile ?P bs'" "post = dropWhile ?P bs'"
    using bs by (simp_all add: pre_def post_def)
  define prev where "prev = hd (last pre)"
  from seg bs obtain h where h: "qhead s = Some (hd b)" "heap s (hd b) = Some h"
    "bin_seg (heap s) (nextBin h) bs' None"
    using in_bin_hd by (fastforce split: option.splits)
  let ?cur = "case post of [] \<Rightarrow> None | b # _ \<Rightarrow> Some (hd b)"
  have fb: "find_bin (heap s) e (hd b, nextBin h) = ret (prev, ?cur)"
    using find_bin_seg [OF h(3), of e "hd b"] pp(2,3) by (auto simp: Let_def prev_def)
  obtain r where r: "bin_seg (heap s) (qhead s) pre r" "bin_seg (heap s) r post None"
    using seg pp(1) bin_seg_append by blast
  have rc: "r = ?cur" using r(2) bin_seg_hd by (cases post) fastforce+
  have newp: "ev \<notin> set (concat pre)" "ev \<notin> set (concat post)" using new pp(1) by auto
  have "case post of [] \<Rightarrow> True | b # _ \<Rightarrow> \<not> ?P b"
    using hd_dropWhile [of ?P bs] unfolding post_def [symmetric] by (cases post) simp_all
  then obtain f where f: "insertBefore ev ?cur s = ret (upd ev f s, ev)" "link_only f"
    "bin_seg (heap (upd ev f s)) (Some ev) (ins_top ?k ev post) None"
    using insertBefore_spec [OF e r(2) newp(2)] rc by blast
  let ?s1 = "upd ev f s" and ?s2 = "upd prev (\<lambda>e. e\<lparr>nextBin := Some ev\<rparr>) (upd ev f s)"
  have prev_in: "prev \<in> set (concat pre)"
    using hd_last_in_concat [OF r(1)] pp(2) by (simp add: prev_def)
  have pre_ne: "pre \<noteq> []" using pp(2) by simp
  have pre_dist: "distinct (concat pre)" using dist unfolding pp(1) by simp
  have disj: "set (concat pre) \<inter> set (concat (ins_top ?k ev post)) = {}"
    using dist newp(1) unfolding pp(1) concat_ins_top by auto
  have "bin_seg (heap ?s1) (qhead s) pre r"
    using bin_seg_frame [OF r(1) newp(1)] by simp
  then have "bin_seg (heap ?s2) (qhead s) (pre @ ins_top ?k ev post) None"
    using bin_seg_splice [OF _ pre_ne pre_dist f(3) disj] by (simp only: prev_def heap_upd)
  then have "bin_seg (heap ?s2) (qhead s) (bins_ins ?k ev bs) None"
    using e by (simp add: bins_ins_split pre_def post_def)
  moreover have "\<not> event_le e h" using bs(2) h(2) by (simp add: event_le_key)
  then have "insert_ev ev s = ret ?s2"
    using h(1,2) e fb f(1) by (simp add: insert_ev_def)
  moreover have "same_data (heap s) (heap ?s2)"
    unfolding heap_upd
    by (rule same_data_trans [OF same_data_link [OF f(2)] same_data_link]) simp
  moreover have "agrees_off (Set.insert ev (set (concat bs))) (heap s) (heap ?s2)"
    using prev_in pp(1) by (auto simp: agrees_off_def)
  ultimately show ?thesis
    by (intro exI [of _ "heap ?s2"] exI [of _ "qhead s"]) (simp add: upd_def)
qed

lemma find_item_spec:
  "in_bin h nx (xs @ ev # ys) \<Longrightarrow> ev \<notin> set xs \<Longrightarrow>
   find_item h ev (c, nx) = ret (last (c # xs), ev)"
proof (induction xs arbitrary: c nx)
  case Nil
  then show ?case by (simp add: find_item.simps)
next
  case (Cons x xs)
  then obtain e where e: "nx = Some x" "h x = Some e" "in_bin h (nextInBin e) (xs @ ev # ys)"
    by (auto split: option.splits)
  have "find_item h ev (c, nx) = find_item h ev (x, nextInBin e)"
    using e(1,2) Cons.prems(2) by (subst find_item.simps) simp
  also have "\<dots> = ret (last (x # xs), ev)"
    using e(3) Cons.prems(2) by (intro Cons.IH) simp_all
  finally show ?case by simp
qed

lemma in_bin_frame: "in_bin h p xs \<Longrightarrow> x \<notin> set xs \<Longrightarrow> in_bin (h(x := v)) p xs"
  by (subst in_bin_cong [where h' = h]) auto

lemma in_bin_unlink:
  assumes "in_bin h p (xs @ c # ev # ys)" "distinct (xs @ c # ev # ys)" "h ev = Some ne"
  shows "in_bin (h(c := map_option (\<lambda>e. e\<lparr>nextInBin := nextInBin ne\<rparr>) (h c))) p (xs @ c # ys)"
    (is "in_bin ?h _ _")
  using assms
proof (induction xs arbitrary: p)
  case Nil
  then obtain ce where ce: "p = Some c" "h c = Some ce" "in_bin h (nextInBin ne) ys" "c \<notin> set ys"
    by (auto split: option.splits)
  then show ?case using in_bin_frame [OF ce(3,4)] by (simp add: fun_upd_def)
next
  case (Cons x xs)
  then obtain e where e: "p = Some x" "h x = Some e" "in_bin h (nextInBin e) (xs @ c # ev # ys)"
    by (auto split: option.splits)
  have "in_bin ?h (nextInBin e) (xs @ c # ys)"
    by (rule Cons.IH) (use Cons.prems e(3) in simp_all)
  moreover have "?h x = Some e" using Cons.prems(2) e(2) by auto
  ultimately show ?case using e(1) by (simp add: fun_upd_def)
qed

definition del_top :: "nat \<Rightarrow> nat list \<Rightarrow> nat list list \<Rightarrow> nat list list" where
  "del_top x b post = (if remove1 x b = [] then post else remove1 x b # post)"

lemma removeItem_spec:
  assumes seg: "bin_seg (heap s) (Some tp) (b # post) None"
    and ev: "ev \<in> set b" and dist: "distinct (concat (b # post))"
  shows "\<exists>h' q'. removeItem ev tp s = ret (s\<lparr>heap := h'\<rparr>, q') \<and>
    bin_seg h' q' (del_top ev b post) None \<and> same_data (heap s) h' \<and>
    agrees_off (set b) (heap s) h'"
proof -
  obtain b' te where b: "b = tp # b'" and te: "heap s tp = Some te"
    and inb: "in_bin (heap s) (nextInBin te) b'" and post: "bin_seg (heap s) (nextBin te) post None"
    using seg by (cases b) (auto split: option.splits)
  consider (single) "ev = tp" "b' = []" | (first) n ns where "ev = tp" "b' = n # ns"
    | (later) "ev \<noteq> tp" by (cases b') auto
  then show ?thesis
  proof cases
    case single
    with b te inb post show ?thesis
      by (intro exI [of _ "heap s"] exI [of _ "nextBin te"])
         (auto simp: removeItem_def del_top_def agrees_off_def)
  next
    case first
    then obtain ne where ne: "heap s n = Some ne" "nextInBin te = Some n" "in_bin (heap s) (nextInBin ne) ns"
      using inb by (auto split: option.splits)
    let ?h = "heap (upd n (\<lambda>e. e\<lparr>nextBin := nextBin te\<rparr>) s)"
    have "bin_seg ?h (nextBin te) post None"
      unfolding heap_upd using post dist b first by (intro bin_seg_frame) auto
    moreover have "in_bin ?h (nextInBin ne) ns"
      unfolding heap_upd using ne(3) dist b first by (intro in_bin_frame) auto
    ultimately have "bin_seg ?h (Some n) ((n # ns) # post) None"
      using ne(1) by simp
    then show ?thesis
      using first b te ne same_data_link [of "\<lambda>e. e\<lparr>nextBin := nextBin te\<rparr>" "heap s" n]
      by (intro exI [of _ ?h] exI [of _ "Some n"])
         (auto simp: removeItem_def del_top_def agrees_off_def upd_def)
  next
    case later
    then have "ev \<in> set b'" using ev b by simp
    then obtain xs ys where xs: "b' = xs @ ev # ys" "ev \<notin> set xs"
      by (metis split_list_first)
    obtain ne where ne: "heap s ev = Some ne" using in_bin_alloc [OF inb] xs by auto
    let ?c = "last (tp # xs)" and ?f = "\<lambda>e. e\<lparr>nextInBin := nextInBin ne\<rparr> :: event"
    let ?h = "heap (upd ?c ?f s)"
    have rem: "remove1 ev b = tp # xs @ ys" using later b xs by (simp add: remove1_append)
    have bl: "butlast (tp # xs) @ [?c] = tp # xs" by (rule append_butlast_last_id) simp
    have split: "b = butlast (tp # xs) @ ?c # ev # ys" "tp # xs @ ys = butlast (tp # xs) @ ?c # ys"
      using b xs arg_cong [OF bl, of "\<lambda>l. l @ ev # ys"] arg_cong [OF bl, of "\<lambda>l. l @ ys"]
      by (simp_all only: append.assoc append.simps)
    have "in_bin ?h (Some tp) (tp # xs @ ys)"
      unfolding heap_upd split(2)
      using seg b dist ne split(1) by (intro in_bin_unlink [where ev = ev]) auto
    moreover have "?c \<notin> set (concat post)" using dist split(1) by auto
    then have "bin_seg ?h (nextBin te) post None"
      unfolding heap_upd using post by (intro bin_seg_frame)
    moreover have "\<exists>e. ?h tp = Some e \<and> nextBin e = nextBin te" using te by simp
    ultimately have "bin_seg ?h (Some tp) ((tp # xs @ ys) # post) None" by auto
    moreover have "removeItem ev tp s = ret (upd ?c ?f s, Some tp)"
      using later te ne find_item_spec [of "heap s" "nextInBin te" xs ev ys tp] inb xs
      by (simp add: removeItem_def)
    moreover have "agrees_off (set b) (heap s) ?h"
      using split(1) by (auto simp: agrees_off_def)
    ultimately show ?thesis
      using rem same_data_link [of ?f "heap s" ?c]
      by (intro exI [of _ ?h] exI [of _ "Some tp"]) (simp add: del_top_def upd_def)
  qed
qed

lemma bins_locate:
  assumes "bins_ok f bs" "x \<in> set (concat bs)"
  shows "\<exists>b post. bs = takeWhile (\<lambda>b. f (hd b) < f x) bs @ b # post \<and> x \<in> set b \<and> f (hd b) = f x \<and>
    bins_del x bs = takeWhile (\<lambda>b. f (hd b) < f x) bs @ del_top x b post"
  using assms
proof (induction bs)
  case (Cons b bs)
  have b: "\<forall>y \<in> set b. f (hd b) = f y" "\<forall>c \<in> set bs. f (hd b) < f (hd c)" "bins_ok f bs" "b \<noteq> []"
    using Cons.prems(1) by (auto simp: bins_ok_Cons)
  show ?case
  proof (cases "x \<in> set b")
    case True
    with b show ?thesis by (intro exI [of _ b] exI [of _ bs]) (auto simp: del_top_def)
  next
    case False
    with Cons.prems have x: "x \<in> set (concat bs)" by simp
    moreover have "f (hd b) < f x"
      using bins_ok_less [OF Cons.prems(1) _ x] b(4) by simp
    ultimately show ?thesis using Cons.IH b(3) False by auto
  qed
qed simp

lemma bin_seg_agrees:
  assumes seg: "bin_seg h p bs q" and ag: "agrees_off A h h'" and disj: "set (concat bs) \<inter> A = {}"
  shows "bin_seg h' p bs q"
proof -
  have same: "h' x = h x" if "x \<in> set (concat bs)" for x
    using that ag disj by (auto simp: agrees_off_def)
  have "hd b \<in> set (concat bs)" if "b \<in> set bs" for b
    using bin_seg_nonempty [OF seg that] that by (auto intro: hd_in_set)
  then have "bin_seg h' p bs q = bin_seg h p bs q"
    using same by (intro bin_seg_cong) simp_all
  with seg show ?thesis by simp
qed

lemma remove_ev_spec:
  assumes seg: "bin_seg (heap s) (qhead s) bs None"
    and ok: "bins_ok (key_of (heap s)) bs"
    and dist: "distinct (concat bs)"
    and ev: "ev \<in> set (concat bs)"
  shows "\<exists>h' q'. remove_ev ev s = ret (s\<lparr>heap := h', qhead := q'\<rparr>) \<and>
    bin_seg h' q' (bins_del ev bs) None \<and> same_data (heap s) h' \<and>
    agrees_off (set (concat bs)) (heap s) h'"
proof -
  let ?k = "key_of (heap s)"
  obtain e where e: "heap s ev = Some e" using bin_seg_alloc [OF seg ev] by blast
  define pre where "pre = takeWhile (\<lambda>b. ?k (hd b) < ?k ev) bs"
  obtain b post where loc: "bs = pre @ b # post" "ev \<in> set b" "?k (hd b) = ?k ev"
    "bins_del ev bs = pre @ del_top ev b post"
    using bins_locate [OF ok ev] unfolding pre_def by blast
  obtain r where r: "bin_seg (heap s) (qhead s) pre r" "bin_seg (heap s) r (b # post) None"
    using seg unfolding loc(1) bin_seg_append by blast
  have rb: "r = Some (hd b)" using bin_seg_hd [OF r(2)] .
  have "distinct (concat (b # post))" using dist unfolding loc(1) by simp
  then obtain h1 q1 where rem: "removeItem ev (hd b) s = ret (s\<lparr>heap := h1\<rparr>, q1)"
    "bin_seg h1 q1 (del_top ev b post) None" "same_data (heap s) h1" "agrees_off (set b) (heap s) h1"
    using removeItem_spec [of s "hd b" b post ev] r(2) rb loc(2) by blast
  obtain be where be: "heap s (hd b) = Some be" using r(2) by (auto split: option.splits)
  have eqb: "event_eq be e" using loc(3) e be by (simp add: event_eq_key)
  show ?thesis
  proof (cases "pre = []")
    case True
    with r(1) rb e be eqb rem have "remove_ev ev s = ret (s\<lparr>heap := h1, qhead := q1\<rparr>)"
      by (simp add: remove_ev_def)
    with True rem loc show ?thesis
      by (intro exI [of _ h1] exI [of _ q1]) (auto simp: agrees_off_def)
  next
    case False
    then obtain a pre' where pre: "pre = a # pre'" by (cases pre) auto
    then obtain h where h: "qhead s = Some (hd a)" "heap s (hd a) = Some h"
      "bin_seg (heap s) (nextBin h) (pre' @ b # post) None"
      using seg loc(1) in_bin_hd by (fastforce split: option.splits)
    have all: "\<forall>b \<in> set pre. ?k (hd b) < ?k ev" unfolding pre_def by (auto dest: set_takeWhileD)
    have "\<not> event_eq h e" using all pre h(2) e by (auto simp: event_eq_key)
    have "find_bin (heap s) e (hd a, nextBin h) = ret (hd (last pre), Some (hd b))"
      using find_bin_seg [OF h(3), of e "hd a"] all pre e loc(3) by (auto simp: Let_def)
    with \<open>\<not> event_eq h e\<close> h e be eqb rem
    have res: "remove_ev ev s = ret (upd (hd (last pre)) (\<lambda>e. e\<lparr>nextBin := q1\<rparr>) (s\<lparr>heap := h1\<rparr>))"
      by (simp add: remove_ev_def)
    let ?h2 = "h1(hd (last pre) := map_option (\<lambda>e. e\<lparr>nextBin := q1\<rparr>) (h1 (hd (last pre))))"
    have disj: "set (concat pre) \<inter> set (concat (b # post)) = {}" "distinct (concat pre)"
      using dist unfolding loc(1) by simp_all
    have "set (concat pre) \<inter> set b = {}" using disj(1) by auto
    then have p1: "bin_seg h1 (qhead s) pre r" using bin_seg_agrees [OF r(1) rem(4)] by blast
    have "set (concat (del_top ev b post)) \<subseteq> set (concat (b # post))"
      using set_remove1_subset [of ev b] by (auto simp: del_top_def split: if_splits)
    with disj have "set (concat pre) \<inter> set (concat (del_top ev b post)) = {}" by blast
    then have "bin_seg ?h2 (qhead s) (bins_del ev bs) None"
      unfolding loc(4) using bin_seg_splice [OF p1 False disj(2) rem(2)] by blast
    moreover have "same_data (heap s) ?h2"
      by (rule same_data_trans [OF rem(3) same_data_link]) simp
    moreover have "hd (last pre) \<in> set (concat bs)"
      using hd_last_in_concat [OF r(1) False] unfolding loc(1) by simp
    then have "agrees_off (set (concat bs)) (heap s) ?h2"
      using rem(4) unfolding loc(1) by (auto simp: agrees_off_def)
    ultimately show ?thesis
      using res by (intro exI [of _ ?h2] exI [of _ "qhead s"]) (simp add: upd_def)
  qed
qed

subsection \<open>Flag bits\<close>

lemma flag_bits [simp]:
  "bit Squashed n \<longleftrightarrow> n = 0" "bit Scheduled n \<longleftrightarrow> n = 1" "bit AutoDelete n \<longleftrightarrow> n = 2"
  "bit IsExitEvent n \<longleftrightarrow> n = 4" "bit IsMainQueue n \<longleftrightarrow> n = 5"
proof -
  have *: "Squashed = 2 ^ 0" "Scheduled = 2 ^ 1" "AutoDelete = 2 ^ 2" "IsExitEvent = 2 ^ 4"
    "IsMainQueue = 2 ^ 5"
    by (simp_all add: Squashed_def Scheduled_def AutoDelete_def IsExitEvent_def IsMainQueue_def)
  show "bit Squashed n \<longleftrightarrow> n = 0" "bit Scheduled n \<longleftrightarrow> n = 1" "bit AutoDelete n \<longleftrightarrow> n = 2"
    "bit IsExitEvent n \<longleftrightarrow> n = 4" "bit IsMainQueue n \<longleftrightarrow> n = 5"
    unfolding * bit_exp_iff by auto
qed

lemma flag_tests:
  "squashed e \<longleftrightarrow> bit (e_flags e) 0" "scheduled e \<longleftrightarrow> bit (e_flags e) 1"
  "fl_isSet f AutoDelete \<longleftrightarrow> bit f 2" "isExitEvent e \<longleftrightarrow> bit (e_flags e) 4"
  using fl_isSet_bit [of "e_flags e" 0] fl_isSet_bit [of "e_flags e" 1] fl_isSet_bit [of f 2]
    fl_isSet_bit [of "e_flags e" 4]
  by (simp_all add: squashed_def scheduled_def isExitEvent_def Squashed_def Scheduled_def
      AutoDelete_def IsExitEvent_def)

lemma init_mask_set: "m AND InitMask = 0 \<Longrightarrow> fl_set f m AND InitMask = f AND InitMask"
  by (simp add: fl_set_def bit.conj_disj_distrib2)

lemma init_mask_clear: "m AND InitMask = 0 \<Longrightarrow> fl_clear f m AND InitMask = f AND InitMask"
proof -
  assume m: "m AND InitMask = 0"
  have "bit InitMask n \<Longrightarrow> \<not> bit m n" for n
    using m by (metis bit_0_eq bit_and_iff bot_apply bot_bool_def)
  then show ?thesis
    by (intro bit_word_eqI) (auto simp: bit_and_iff)
qed

lemma init_mask_flags [simp]:
  "Squashed AND InitMask = 0" "Scheduled AND InitMask = 0" "IsMainQueue AND InitMask = 0"
  by (simp_all add: Squashed_def Scheduled_def IsMainQueue_def InitMask_def)

lemmas init_mask [simp] = init_mask_set init_mask_clear

subsection \<open>The agenda: what a queue holds\<close>

definition wf_evq :: "evq \<Rightarrow> nat list list \<Rightarrow> bool" where
  "wf_evq s bs \<longleftrightarrow> bin_seg (heap s) (qhead s) bs None \<and> distinct (concat bs) \<and>
     bins_ok (key_of (heap s)) bs \<and>
     (\<forall>p \<in> set (concat bs). \<exists>e. heap s p = Some e \<and> scheduled e \<and> initialized e)"

definition agenda :: "evq \<Rightarrow> (nat \<times> int \<times> int) list \<Rightarrow> bool" where
  "agenda s xs \<longleftrightarrow> (\<exists>bs. wf_evq s bs \<and> xs = map (\<lambda>p. (p, key_of (heap s) p)) (concat bs))"

definition others :: "nat \<Rightarrow> evq \<Rightarrow> evq \<Rightarrow> bool" where
  "others ev s s' \<longleftrightarrow> (\<forall>p. p \<noteq> ev \<longrightarrow> map_option ev_data (heap s' p) = map_option ev_data (heap s p)) \<and>
     isMain s' = isMain s \<and> curTick s' = curTick s \<and> dtrace s' = dtrace s"

lemma agenda_sorted: "agenda s xs \<Longrightarrow> sorted (map snd xs)"
proof -
  have "sorted (map f (concat bs))" if "bins_ok f bs" for f :: "nat \<Rightarrow> int \<times> int" and bs
    using that
  proof (induction bs)
    case (Cons b bs)
    have "map f b = map (\<lambda>_. f (hd b)) b"
      using Cons.prems by (intro map_cong) (auto simp: bins_ok_Cons)
    then have "sorted (map f b)" by (simp add: map_replicate_const)
    moreover have "\<forall>x \<in> set b. \<forall>y \<in> set (concat bs). f x \<le> f y"
      using bins_ok_less [OF Cons.prems] by (simp add: less_imp_le)
    ultimately show ?case using Cons by (auto simp: sorted_append bins_ok_Cons)
  qed simp
  moreover assume "agenda s xs"
  ultimately show ?thesis by (auto simp: agenda_def wf_evq_def comp_def)
qed

lemma agenda_distinct: "agenda s xs \<Longrightarrow> distinct (map fst xs)"
  by (auto simp: agenda_def wf_evq_def comp_def)

lemma agenda_event:
  "agenda s xs \<Longrightarrow> (p, k) \<in> set xs \<Longrightarrow>
   \<exists>e. heap s p = Some e \<and> scheduled e \<and> initialized e \<and> k = ev_key e"
  by (auto simp: agenda_def wf_evq_def) (metis key_of_Some)

lemma agenda_head: "agenda s xs \<Longrightarrow> qhead s = (case xs of [] \<Rightarrow> None | x # _ \<Rightarrow> Some (fst x))"
proof -
  assume "agenda s xs"
  then obtain bs where wf: "wf_evq s bs" "xs = map (\<lambda>p. (p, key_of (heap s) p)) (concat bs)"
    by (auto simp: agenda_def)
  show ?thesis
  proof (cases bs)
    case (Cons b bs')
    then obtain x b' where "b = x # b'" using wf by (cases b) (auto simp: wf_evq_def)
    with Cons wf show ?thesis using bin_seg_hd [of "heap s" "qhead s" b bs' None] by (simp add: wf_evq_def)
  qed (use wf in \<open>auto simp: wf_evq_def\<close>)
qed

lemma agenda_not_scheduled: "agenda s xs \<Longrightarrow> heap s ev = Some e \<Longrightarrow> \<not> scheduled e \<Longrightarrow> ev \<notin> fst ` set xs"
  using agenda_event by fastforce

text \<open>The agenda depends on times, priorities and flags of its events only.\<close>

lemma bins_ok_cong:
  assumes ok: "bins_ok f bs" and eq: "\<And>x. x \<in> set (concat bs) \<Longrightarrow> f x = g x"
  shows "bins_ok g bs"
  using assms
proof (induction bs)
  case (Cons b bs)
  have b: "b \<noteq> []" "\<forall>c \<in> set bs. c \<noteq> []" using Cons.prems(1) by (auto simp: bins_ok_def)
  have "f (hd c) = g (hd c)" if "c \<in> set (b # bs)" for c
  proof (rule Cons.prems(2))
    have "c \<noteq> []" using that b by auto
    with that show "hd c \<in> set (concat (b # bs))" unfolding set_concat by (meson UN_iff hd_in_set)
  qed
  moreover have "\<forall>x \<in> set b. f x = g x" using Cons.prems(2) by simp
  moreover have "bins_ok g bs" using Cons by (simp add: bins_ok_Cons)
  ultimately show ?case using Cons.prems(1) by (simp add: bins_ok_Cons)
qed simp

lemma wf_evq_cong:
  assumes "wf_evq s bs"
    and "\<And>p. p \<in> set (concat bs) \<Longrightarrow> heap s' p = heap s p" and "qhead s' = qhead s"
  shows "wf_evq s' bs"
proof -
  have wf: "bin_seg (heap s) (qhead s) bs None" "bins_ok (key_of (heap s)) bs" "distinct (concat bs)"
    using assms(1) by (auto simp: wf_evq_def)
  have k: "key_of (heap s') p = key_of (heap s) p" if "p \<in> set (concat bs)" for p
    using assms(2) [OF that] by (simp add: key_of_def)
  have "agrees_off (- set (concat bs)) (heap s) (heap s')" using assms(2) by (simp add: agrees_off_def)
  then have "bin_seg (heap s') (qhead s') bs None"
    unfolding assms(3) by (rule bin_seg_agrees [OF wf(1)]) auto
  moreover have "bins_ok (key_of (heap s')) bs"
    using bins_ok_cong [OF wf(2)] k by metis
  ultimately show ?thesis using assms(1,2) wf(3) by (auto simp: wf_evq_def)
qed

definition flags_only :: "(event \<Rightarrow> event) \<Rightarrow> bool" where
  "flags_only f \<longleftrightarrow> (\<forall>e. nextBin (f e) = nextBin e \<and> nextInBin (f e) = nextInBin e \<and>
     e_when (f e) = e_when e \<and> e_priority (f e) = e_priority e)"

lemma flags_only_simps [simp]:
  "flags_only (\<lambda>e. e\<lparr>e_flags := g e\<rparr>)" "flags_only (set_main_flag m)"
  by (simp_all add: flags_only_def set_main_flag_def)

lemma flags_only_seg:
  "flags_only f \<Longrightarrow> bin_seg (h(p := map_option f (h p))) q bs r = bin_seg h q bs r"
  by (rule bin_seg_cong) (auto simp: flags_only_def option.map_comp comp_def)

lemma flags_only_key: "flags_only f \<Longrightarrow> key_of (h(p := map_option f (h p))) = key_of h"
  by (auto simp: fun_eq_iff key_of_def flags_only_def ev_key_def split: option.splits)

lemma others_refl [simp]: "others ev s s"
  by (simp add: others_def)

lemma others_trans: "others ev s s' \<Longrightarrow> others ev s' s'' \<Longrightarrow> others ev s s''"
  by (simp add: others_def)

lemma others_upd [simp]: "others ev s (upd ev f s)"
  by (simp add: others_def)

lemma others_same_data: "same_data (heap s) h' \<Longrightarrow> others ev s (s\<lparr>heap := h', qhead := q\<rparr>)"
  by (simp add: others_def same_data_def)

lemma others_event:
  assumes "others ev s s'" "p \<noteq> ev" "heap s p = Some e"
  shows "\<exists>e'. heap s' p = Some e' \<and> ev_data e' = ev_data e"
  using assms by (force simp: others_def)

lemma others_key: "others ev s s' \<Longrightarrow> p \<noteq> ev \<Longrightarrow> key_of (heap s') p = key_of (heap s) p"
proof -
  assume "others ev s s'" "p \<noteq> ev"
  then have "map_option ev_data (heap s' p) = map_option ev_data (heap s p)" by (simp add: others_def)
  then show ?thesis by (auto simp: key_of_def ev_data_def ev_key_def split: option.splits)
qed

lemma ev_data_flags: "ev_data e' = ev_data e \<Longrightarrow> scheduled e' = scheduled e \<and> initialized e' = initialized e \<and>
  squashed e' = squashed e \<and> isExitEvent e' = isExitEvent e \<and> e_when e' = e_when e \<and>
  e_priority e' = e_priority e \<and> e_flags e' = e_flags e \<and> ev_key e' = ev_key e"
  by (simp add: ev_data_def scheduled_def initialized_def squashed_def isExitEvent_def ev_key_def)

lemma live_data:
  assumes "map_option ev_data a = map_option ev_data b"
    and "\<exists>e. b = Some e \<and> scheduled e \<and> initialized e"
  shows "\<exists>e. a = Some e \<and> scheduled e \<and> initialized e"
proof -
  obtain e where e: "b = Some e" "scheduled e" "initialized e" using assms(2) by blast
  then obtain e' where "a = Some e'" "ev_data e' = ev_data e" using assms(1) by auto
  with e ev_data_flags [of e' e] show ?thesis by simp
qed

lemma insort_key_map:
  "insort_key snd (x, f x) (map (\<lambda>p. (p, f p)) ys) = map (\<lambda>p. (p, f p)) (insort_key f x ys)"
  by (induction ys) auto

text \<open>Linking an event that is not on the queue inserts it into the agenda.\<close>

lemma insert_agenda:
  assumes wf: "agenda s xs" and e: "heap s ev = Some e" and new: "ev \<notin> fst ` set xs"
    and f: "flags_only f" "scheduled (f e)" "initialized (f e)"
    and fd: "\<And>e'. ev_data e' = ev_data e \<Longrightarrow> ev_data (f e') = ev_data (f e)"
  shows "\<exists>s1 e1. insert_ev ev s = ret s1 \<and> heap s1 ev = Some e1 \<and> ev_data e1 = ev_data e \<and>
    others ev s s1 \<and> agenda (upd ev f s1) (insort_key snd (ev, ev_key e) xs)"
proof -
  obtain bs where bs: "wf_evq s bs" "xs = map (\<lambda>p. (p, key_of (heap s) p)) (concat bs)"
    using wf by (auto simp: agenda_def)
  have w: "bin_seg (heap s) (qhead s) bs None" "distinct (concat bs)" "bins_ok (key_of (heap s)) bs"
    "ev \<notin> set (concat bs)"
    using bs new by (auto simp: wf_evq_def image_image)
  let ?bs = "bins_ins (key_of (heap s)) ev bs"
  obtain h' q' where ins: "insert_ev ev s = ret (s\<lparr>heap := h', qhead := q'\<rparr>)"
    "bin_seg h' q' ?bs None" "same_data (heap s) h'"
    using insert_ev_spec [OF e w(1,2,4)] by blast
  let ?s1 = "s\<lparr>heap := h', qhead := q'\<rparr>"
  have dat: "map_option ev_data (h' p) = map_option ev_data (heap s p)" for p
    using ins(3) by (simp add: same_data_def)
  obtain e1 where e1: "h' ev = Some e1" "ev_data e1 = ev_data e" using dat [of ev] e by auto
  have key: "key_of (heap (upd ev f ?s1)) = key_of (heap s)"
    using flags_only_key [OF f(1), of h' ev] same_data_key [OF ins(3)] by simp
  have cc: "concat ?bs = insort_key (key_of (heap s)) ev (concat bs)"
    using concat_bins_ins [OF w(3)] .
  have "\<exists>e. heap (upd ev f ?s1) p = Some e \<and> scheduled e \<and> initialized e" if p: "p \<in> set (concat ?bs)" for p
  proof (cases "p = ev")
    case True
    with e1(1) f(2,3) ev_data_flags [OF fd [OF e1(2)]] show ?thesis by simp
  next
    case False
    then have "p \<in> set (concat bs)" using p unfolding cc by (simp add: set_insort_key)
    then have "\<exists>e. heap s p = Some e \<and> scheduled e \<and> initialized e"
      using bs(1) unfolding wf_evq_def by blast
    then have "\<exists>e. h' p = Some e \<and> scheduled e \<and> initialized e" by (rule live_data [OF dat])
    with False show ?thesis by simp
  qed
  moreover have "bin_seg (heap (upd ev f ?s1)) (qhead (upd ev f ?s1)) ?bs None"
    using ins(2) flags_only_seg [OF f(1), of h' ev] by simp
  moreover have "distinct (concat ?bs)"
    unfolding cc using w(2,4) by (simp add: distinct_insort)
  moreover have "bins_ok (key_of (heap (upd ev f ?s1))) ?bs"
    unfolding key by (rule bins_ok_ins [OF w(3)])
  ultimately have "wf_evq (upd ev f ?s1) ?bs" unfolding wf_evq_def by blast
  moreover have "insort_key snd (ev, ev_key e) xs = map (\<lambda>p. (p, key_of (heap (upd ev f ?s1)) p)) (concat ?bs)"
    unfolding key cc bs(2) insort_key_map [symmetric] using e by simp
  ultimately have "agenda (upd ev f ?s1) (insort_key snd (ev, ev_key e) xs)"
    unfolding agenda_def by blast
  with ins e1 others_same_data [OF ins(3)] show ?thesis by (intro exI [of _ ?s1] exI [of _ e1]) simp
qed

text \<open>Unlinking an event removes it from the agenda.\<close>

lemma remove_agenda:
  assumes wf: "agenda s xs" and ev: "ev \<in> fst ` set xs"
  shows "\<exists>s1 e e1. remove_ev ev s = ret s1 \<and> heap s ev = Some e \<and> heap s1 ev = Some e1 \<and>
    ev_data e1 = ev_data e \<and> others ev s s1 \<and> agenda s1 (filter (\<lambda>x. fst x \<noteq> ev) xs) \<and>
    (\<forall>v. agenda (s1\<lparr>heap := (heap s1)(ev := v)\<rparr>) (filter (\<lambda>x. fst x \<noteq> ev) xs))"
proof -
  obtain bs where bs: "wf_evq s bs" "xs = map (\<lambda>p. (p, key_of (heap s) p)) (concat bs)"
    using wf by (auto simp: agenda_def)
  have w: "bin_seg (heap s) (qhead s) bs None" "bins_ok (key_of (heap s)) bs" "distinct (concat bs)"
    "ev \<in> set (concat bs)"
    using bs ev by (auto simp: wf_evq_def image_image)
  obtain e where e: "heap s ev = Some e" using bin_seg_alloc [OF w(1,4)] by blast
  let ?bs = "bins_del ev bs"
  obtain h' q' where rem: "remove_ev ev s = ret (s\<lparr>heap := h', qhead := q'\<rparr>)"
    "bin_seg h' q' ?bs None" "same_data (heap s) h'"
    using remove_ev_spec [OF w] by blast
  let ?s1 = "s\<lparr>heap := h', qhead := q'\<rparr>"
  have dat: "map_option ev_data (h' p) = map_option ev_data (heap s p)" for p
    using rem(3) by (simp add: same_data_def)
  have key: "key_of h' = key_of (heap s)" using same_data_key [OF rem(3)] by simp
  have cc: "concat ?bs = filter (\<lambda>p. p \<noteq> ev) (concat bs)"
    using concat_bins_del [OF w(3)] by (simp add: distinct_remove1_removeAll [OF w(3)] removeAll_filter_not_eq)
      (metis (mono_tags))
  have "\<exists>e. h' p = Some e \<and> scheduled e \<and> initialized e" if "p \<in> set (concat ?bs)" for p
  proof -
    have "p \<in> set (concat bs)" using that unfolding cc by simp
    then have "\<exists>e. heap s p = Some e \<and> scheduled e \<and> initialized e"
      using bs(1) unfolding wf_evq_def by blast
    then show ?thesis by (rule live_data [OF dat])
  qed
  moreover have "distinct (concat ?bs)" unfolding cc using w(3) by simp
  moreover have "bins_ok (key_of h') ?bs" unfolding key by (rule bins_ok_del [OF w(2)])
  ultimately have wf1: "wf_evq ?s1 ?bs" unfolding wf_evq_def using rem(2) by simp
  have fl: "filter (\<lambda>x. fst x \<noteq> ev) xs = map (\<lambda>p. (p, key_of (heap s) p)) (concat ?bs)"
    unfolding bs(2) cc by (simp add: filter_map comp_def)
  have "wf_evq (?s1\<lparr>heap := (heap ?s1)(ev := v)\<rparr>) ?bs" for v
    using wf1 by (rule wf_evq_cong) (simp_all add: cc)
  moreover have "map (\<lambda>p. (p, key_of (h'(ev := v)) p)) (concat ?bs) = map (\<lambda>p. (p, key_of (heap s) p)) (concat ?bs)" for v
    by (rule map_cong) (simp_all add: cc key [symmetric] key_of_def)
  ultimately have "agenda (?s1\<lparr>heap := (heap ?s1)(ev := v)\<rparr>) (filter (\<lambda>x. fst x \<noteq> ev) xs)" for v
    unfolding agenda_def fl by (intro exI [of _ ?bs]) simp
  moreover have "agenda ?s1 (filter (\<lambda>x. fst x \<noteq> ev) xs)"
    unfolding agenda_def fl using wf1 key by (intro exI [of _ ?bs]) simp
  moreover obtain e1 where "h' ev = Some e1" "ev_data e1 = ev_data e" using dat [of ev] e by auto
  ultimately show ?thesis
    using rem(1) e others_same_data [OF rem(3)] 
    by - (rule exI [of _ ?s1], rule exI [of _ e], rule exI [of _ e1], simp)
qed

lemma upd_upd: "upd p f (upd p g s) = upd p (f \<circ> g) s"
  by (simp add: upd_def option.map_comp)

lemma agenda_upd_off:
  assumes "agenda s xs" "ev \<notin> fst ` set xs"
  shows "agenda (upd ev f s) xs"
proof -
  obtain bs where bs: "wf_evq s bs" "xs = map (\<lambda>p. (p, key_of (heap s) p)) (concat bs)"
    using assms(1) by (auto simp: agenda_def)
  have off: "ev \<notin> set (concat bs)" using assms(2) bs(2) by (auto simp: image_image)
  have "wf_evq (upd ev f s) bs"
    using bs(1) by (rule wf_evq_cong) (use off in auto)
  moreover have "xs = map (\<lambda>p. (p, key_of (heap (upd ev f s)) p)) (concat bs)"
    unfolding bs(2) by (rule map_cong) (use off in \<open>auto simp: key_of_def\<close>)
  ultimately show ?thesis unfolding agenda_def by blast
qed

definition sched_flags :: "bool \<Rightarrow> int16 \<Rightarrow> int16" where
  "sched_flags main fl = (if main then fl_set (fl_set fl Scheduled) IsMainQueue
     else fl_clear (fl_set fl Scheduled) IsMainQueue)"

lemma schedule_agenda:
  assumes wf: "agenda s xs" and e: "heap s ev = Some e" "\<not> scheduled e" "initialized e"
    and t: "curTick s \<le> when"
  shows "\<exists>s' e'. schedule ev when s = ret s' \<and> heap s' ev = Some e' \<and>
    ev_data e' = (when, e_priority e, sched_flags (isMain s) (e_flags e)) \<and> others ev s s' \<and>
    agenda s' (insort_key snd (ev, sint when, sint (e_priority e)) xs)"
proof -
  let ?s0 = "upd ev (\<lambda>e. e\<lparr>e_when := when\<rparr>) s"
  let ?f = "set_main_flag (isMain s) \<circ> (\<lambda>e. e\<lparr>e_flags := fl_set (e_flags e) Scheduled\<rparr>)"
  let ?e = "e\<lparr>e_when := when\<rparr>"
  have new: "ev \<notin> fst ` set xs" using agenda_not_scheduled [OF wf e(1,2)] .
  have f: "flags_only ?f" "scheduled (?f ?e)" "initialized (?f ?e)"
    using e(3) by (auto simp: flags_only_def set_main_flag_def flag_tests initialized_def)
  have fd: "ev_data (?f a) = ev_data (?f ?e)" if "ev_data a = ev_data ?e" for a
    using that by (simp add: ev_data_def set_main_flag_def)
  have e0: "heap ?s0 ev = Some ?e" using e(1) by simp
  obtain s1 e1 where s1: "insert_ev ev ?s0 = ret s1" "heap s1 ev = Some e1" "ev_data e1 = ev_data ?e"
    "others ev ?s0 s1" "agenda (upd ev ?f s1) (insort_key snd (ev, ev_key ?e) xs)"
    using insert_agenda [where f = ?f, OF agenda_upd_off [OF wf new] e0 new f fd] by blast
  have "isMain s1 = isMain s" using s1(4) by (simp add: others_def)
  then have "schedule ev when s = ret (upd ev ?f s1)"
    using e t s1(1) by (simp add: schedule_def upd_upd)
  moreover have "ev_data (?f e1) = (when, e_priority e, sched_flags (isMain s) (e_flags e))"
    using fd [OF s1(3)] by (simp add: ev_data_def set_main_flag_def sched_flags_def)
  moreover have "others ev s (upd ev ?f s1)"
    using others_trans [OF others_trans [OF _ s1(4)]] by simp
  ultimately show ?thesis
    using s1(2,5) by - (rule exI [of _ "upd ev ?f s1"], rule exI [of _ "?f e1"], simp add: ev_key_def)
qed

definition desched_flags :: "int16 \<Rightarrow> int16" where
  "desched_flags fl = fl_clear (fl_clear fl Squashed) Scheduled"

lemma deschedule_agenda:
  assumes wf: "agenda s xs" and ev: "ev \<in> fst ` set xs"
  shows "\<exists>e. heap s ev = Some e \<and>
    (if fl_isSet (e_flags e) AutoDelete
     then if dtrace s then deschedule ev s = fail BadPtr
          else \<exists>s'. deschedule ev s = ret s' \<and> heap s' ev = None \<and> others ev s s' \<and>
            agenda s' (filter (\<lambda>x. fst x \<noteq> ev) xs)
     else \<exists>s' e'. deschedule ev s = ret s' \<and> heap s' ev = Some e' \<and>
            ev_data e' = (e_when e, e_priority e, desched_flags (e_flags e)) \<and> others ev s s' \<and>
            agenda s' (filter (\<lambda>x. fst x \<noteq> ev) xs))"
proof -
  obtain s1 e e1 where s1: "remove_ev ev s = ret s1" "heap s ev = Some e" "heap s1 ev = Some e1"
    "ev_data e1 = ev_data e" "others ev s s1"
    "\<And>v. agenda (s1\<lparr>heap := (heap s1)(ev := v)\<rparr>) (filter (\<lambda>x. fst x \<noteq> ev) xs)"
    using remove_agenda [OF wf ev] by blast
  have live: "scheduled e" "initialized e"
    using ev s1(2) agenda_event [OF wf] by fastforce+
  let ?f = "\<lambda>e. e\<lparr>e_flags := desched_flags (e_flags e)\<rparr> :: event" and ?s2 = "upd ev (\<lambda>e. e\<lparr>e_flags := desched_flags (e_flags e)\<rparr>) s1"
  have s2: "?s2 = s1\<lparr>heap := (heap s1)(ev := Some (?f e1))\<rparr>" using s1(3) by (simp add: upd_def)
  have fl: "e_flags e1 = e_flags e" using ev_data_flags [OF s1(4)] by simp
  have ad: "fl_isSet (desched_flags (e_flags e)) AutoDelete = fl_isSet (e_flags e) AutoDelete"
    by (simp add: flag_tests desched_flags_def)
  have ns: "\<not> scheduled (?f e1)" by (simp add: flag_tests desched_flags_def)
  have run: "deschedule ev s = bindC (if fl_isSet (e_flags e) AutoDelete then delete_event ev ?s2 else ret ?s2)
      (trace_event ev)"
    using s1(1,2,3) live ad fl by (simp add: deschedule_def Let_def desched_flags_def [symmetric])
  have del: "delete_event ev ?s2 = ret (s1\<lparr>heap := (heap s1)(ev := None)\<rparr>)"
    using ns s1(3) by (simp add: delete_event_def s2)
  have dt: "dtrace s1 = dtrace s" using s1(5) by (simp add: others_def)
  have "others ev s (s1\<lparr>heap := (heap s1)(ev := None)\<rparr>)" "others ev s ?s2"
    using s1(5) by (simp_all add: others_def)
  moreover have "ev_data (?f e1) = (e_when e, e_priority e, desched_flags (e_flags e))"
    using s1(4) by (simp add: ev_data_def)
  ultimately show ?thesis
    using run del dt s1(2,3) s1(6) [of None] s1(6) [of "Some (?f e1)"]
    by (auto simp: trace_event_def s2)
qed

definition resched_flags :: "bool \<Rightarrow> int16 \<Rightarrow> int16" where
  "resched_flags main fl = sched_flags main (fl_clear fl Squashed)"

lemma reschedule_agenda:
  assumes wf: "agenda s xs" and e: "heap s ev = Some e" "initialized e"
    and on: "scheduled e \<longleftrightarrow> ev \<in> fst ` set xs" and always: "always \<or> scheduled e"
    and t: "curTick s \<le>s when"
  shows "\<exists>s' e'. reschedule ev when always s = ret s' \<and> heap s' ev = Some e' \<and>
    ev_data e' = (when, e_priority e, resched_flags (isMain s) (e_flags e)) \<and> others ev s s' \<and>
    agenda s' (insort_key snd (ev, sint when, sint (e_priority e)) (filter (\<lambda>x. fst x \<noteq> ev) xs))"
proof -
  let ?xs = "filter (\<lambda>x. fst x \<noteq> ev) xs"
  obtain s1 e1 where s1: "(if scheduled e then remove_ev ev s else ret s) = ret s1"
    "heap s1 ev = Some e1" "ev_data e1 = ev_data e" "others ev s s1" "agenda s1 ?xs"
  proof (cases "scheduled e")
    case True
    then have "ev \<in> fst ` set xs" using on by simp
    then show ?thesis using remove_agenda [OF wf] True e(1) that by force
  next
    case False
    then have "?xs = xs" using on by (auto simp: filter_id_conv)
    with False wf e(1) that show ?thesis by auto
  qed
  have new: "ev \<notin> fst ` set ?xs" by auto
  let ?s0 = "upd ev (\<lambda>e. e\<lparr>e_when := when\<rparr>) s1" and ?e = "e1\<lparr>e_when := when\<rparr>"
  let ?f = "set_main_flag (isMain s) \<circ> (\<lambda>e. e\<lparr>e_flags := fl_set (fl_clear (e_flags e) Squashed) Scheduled\<rparr>)"
  have f: "flags_only ?f" "scheduled (?f ?e)" "initialized (?f ?e)"
    using e(2) ev_data_flags [OF s1(3)]
    by (auto simp: flags_only_def set_main_flag_def flag_tests initialized_def)
  have fd: "ev_data (?f a) = ev_data (?f ?e)" if "ev_data a = ev_data ?e" for a
    using that by (simp add: ev_data_def set_main_flag_def)
  have e0: "heap ?s0 ev = Some ?e" using s1(2) by simp
  obtain s2 e2 where s2: "insert_ev ev ?s0 = ret s2" "heap s2 ev = Some e2" "ev_data e2 = ev_data ?e"
    "others ev ?s0 s2" "agenda (upd ev ?f s2) (insort_key snd (ev, ev_key ?e) ?xs)"
    using insert_agenda [where f = ?f, OF agenda_upd_off [OF s1(5) new] e0 new f fd] by blast
  have "isMain s2 = isMain s" using s1(4) s2(4) by (simp add: others_def)
  then have "reschedule ev when always s = ret (upd ev ?f s2)"
    using e t always s1(1) s2(1) by (simp add: reschedule_def upd_upd)
  moreover have "ev_data (?f e2) = (when, e_priority e, resched_flags (isMain s) (e_flags e))"
    using fd [OF s2(3)] s1(3) by (simp add: ev_data_def set_main_flag_def resched_flags_def sched_flags_def)
  moreover have "others ev s (upd ev ?f s2)"
    by (rule others_trans [OF others_trans [OF others_trans [OF s1(4) others_upd] s2(4)] others_upd])
  moreover have "e_priority e1 = e_priority e" using ev_data_flags [OF s1(3)] by simp
  ultimately show ?thesis
    using s2(2,5) by - (rule exI [of _ "upd ev ?f s2"], rule exI [of _ "?f e2"], simp add: ev_key_def)
qed

lemma pop_head_removeItem:
  assumes "qhead s = Some ev" "heap s ev = Some e"
  shows "pop_head s = bindC (removeItem ev ev (upd ev (\<lambda>e. e\<lparr>e_flags := fl_clear (e_flags e) Scheduled\<rparr>) s))
    (\<lambda>(s', q). ret (s'\<lparr>qhead := q\<rparr>, ev))"
  using assms
  by (cases "nextInBin e"; cases "heap s (the (nextInBin e))")
     (auto simp: pop_head_def removeItem_def Let_def deref_def)

lemma pop_head_agenda:
  assumes wf: "agenda s ((ev, k) # xs)"
  shows "\<exists>s' e e'. pop_head s = ret (s', ev) \<and> heap s ev = Some e \<and> k = ev_key e \<and> scheduled e \<and>
    heap s' ev = Some e' \<and> ev_data e' = (e_when e, e_priority e, fl_clear (e_flags e) Scheduled) \<and>
    others ev s s' \<and> agenda s' xs"
proof -
  obtain bs where bs: "wf_evq s bs" "(ev, k) # xs = map (\<lambda>p. (p, key_of (heap s) p)) (concat bs)"
    using wf by (auto simp: agenda_def)
  have w: "bin_seg (heap s) (qhead s) bs None" "distinct (concat bs)" "bins_ok (key_of (heap s)) bs"
    using bs by (auto simp: wf_evq_def)
  obtain e where e: "heap s ev = Some e" "scheduled e" "k = ev_key e"
    using agenda_event [OF wf, of ev k] by auto
  have hd: "qhead s = Some ev" using agenda_head [OF wf] by simp
  obtain b post where b: "bs = (ev # b) # post"
  proof (cases bs)
    case (Cons c cs)
    then obtain x c' where "c = x # c'" using w(1) by (cases c) auto
    with Cons bs(2) that show ?thesis by auto
  qed (use bs(2) in simp)
  let ?f = "\<lambda>e. e\<lparr>e_flags := fl_clear (e_flags e) Scheduled\<rparr> :: event" and ?bs = "del_top ev (ev # b) post"
  let ?s1 = "upd ev (\<lambda>e. e\<lparr>e_flags := fl_clear (e_flags e) Scheduled\<rparr>) s"
  have "bin_seg (heap ?s1) (Some ev) ((ev # b) # post) None"
    using w(1) unfolding hd b by (simp only: heap_upd flags_only_seg flags_only_simps)
  then obtain h' q' where rem: "removeItem ev ev ?s1 = ret (?s1\<lparr>heap := h'\<rparr>, q')"
    "bin_seg h' q' ?bs None" "same_data (heap ?s1) h'"
    using removeItem_spec [of ?s1 ev "ev # b" post ev] w(2) b by auto
  let ?s' = "?s1\<lparr>heap := h', qhead := q'\<rparr>"
  have run: "pop_head s = ret (?s', ev)" using pop_head_removeItem [OF hd e(1)] rem(1) by simp
  have dat: "map_option ev_data (h' p) = map_option ev_data (heap ?s1 p)" for p
    using rem(3) by (simp add: same_data_def)
  obtain e' where e': "h' ev = Some e'" "ev_data e' = ev_data (?f e)" using dat [of ev] e(1) by auto
  have key: "key_of h' = key_of (heap s)"
    using same_data_key [OF rem(3)] flags_only_key [of ?f "heap s" ev] by simp
  have cc: "concat ?bs = b @ concat post" by (simp add: del_top_def)
  have del: "?bs = bins_del ev bs" unfolding b by (simp add: del_top_def)
  have "\<exists>e. h' p = Some e \<and> scheduled e \<and> initialized e" if p: "p \<in> set (concat ?bs)" for p
  proof (rule live_data [OF dat])
    have "p \<noteq> ev" "p \<in> set (concat bs)" using w(2) p unfolding cc b by auto
    then have "\<exists>e. heap s p = Some e \<and> scheduled e \<and> initialized e"
      using bs(1) unfolding wf_evq_def by blast
    with \<open>p \<noteq> ev\<close> show "\<exists>e. heap ?s1 p = Some e \<and> scheduled e \<and> initialized e" by simp
  qed
  moreover have "distinct (concat ?bs)" unfolding cc using w(2) b by simp
  moreover have "bins_ok (key_of h') ?bs" unfolding key del by (rule bins_ok_del [OF w(3)])
  ultimately have "wf_evq ?s' ?bs" unfolding wf_evq_def using rem(2) by simp
  moreover have "xs = map (\<lambda>p. (p, key_of h' p)) (concat ?bs)" using bs(2) unfolding key cc b by simp
  ultimately have "agenda ?s' xs" unfolding agenda_def by (intro exI [of _ ?bs]) simp
  moreover have "others ev s ?s'"
    using others_trans [OF others_upd others_same_data [OF rem(3)]] .
  ultimately show ?thesis
    using run e e' by - (rule exI [of _ ?s'], rule exI [of _ e], rule exI [of _ e'], simp add: ev_data_def)
qed

subsection \<open>The debugging check\<close>

text \<open>
  \<open>debugVerify\<close> walks the bins and their stacks and reports a queue that is out of
  order or visits a node twice. The messages it prints are left out.
\<close>

partial_function (option) verify_bin ::
  "evq \<Rightarrow> nat option \<Rightarrow> nat list \<times> tick \<times> int \<Rightarrow> (nat list \<times> tick \<times> int) option comp" where
  "verify_bin s p st = (case p of None \<Rightarrow> ret (Some st)
     | Some x \<Rightarrow> bindC (deref s x) (\<lambda>e.
         if e_when e <s fst (snd st) then ret None
         else if e_when e = fst (snd st) \<and> sint (e_priority e) < snd (snd st) then ret None
         else if x \<in> set (fst st) then ret None
         else verify_bin s (nextInBin e) (x # fst st, e_when e, sint (e_priority e))))"

partial_function (option) verify_bins :: "evq \<Rightarrow> nat option \<Rightarrow> nat list \<times> tick \<times> int \<Rightarrow> bool comp" where
  "verify_bins s p st = (case p of None \<Rightarrow> ret True
     | Some x \<Rightarrow> bindC (verify_bin s p st) (\<lambda>r.
         case r of None \<Rightarrow> ret False
         | Some st' \<Rightarrow> bindC (deref s x) (\<lambda>e. verify_bins s (nextBin e) st')))"

definition debugVerify :: "evq \<Rightarrow> bool comp" where
  "debugVerify s = verify_bins s (qhead s) ([], 0, 0)"

lemma verify_test:
  "e_when e <s t \<or> (e_when e = t \<and> sint (e_priority e) < p) \<longleftrightarrow> ev_key e < (sint t, p)"
  by (auto simp: ev_key_def word_sless_alt less_prod_def signed_word_eqI)

lemma verify_bin_ok:
  assumes "in_bin (heap s) p b" "distinct b" "set b \<inter> set seen = {}" "\<forall>x \<in> set b. key_of (heap s) x = K"
    "(sint t, pr) \<le> K" "b \<noteq> []"
  shows "\<exists>t' pr'. verify_bin s p (seen, t, pr) = ret (Some (rev b @ seen, t', pr')) \<and> (sint t', pr') = K"
  using assms
proof (induction b arbitrary: p seen t pr)
  case (Cons x b)
  obtain e where e: "p = Some x" "heap s x = Some e" "in_bin (heap s) (nextInBin e) b"
    using Cons.prems(1) by (auto split: option.splits)
  have k: "ev_key e = K" using Cons.prems(4) e(2) by simp
  have "\<not> ev_key e < (sint t, pr)" using k Cons.prems(5) by simp
  then have step: "verify_bin s p (seen, t, pr) =
      verify_bin s (nextInBin e) (x # seen, e_when e, sint (e_priority e))"
    using Cons.prems(3) e verify_test [of e t pr] by (auto simp: verify_bin.simps [of s "Some x"] deref_def)
  show ?case
  proof (cases "b = []")
    case True
    then show ?thesis using step e(3) k by (auto simp: verify_bin.simps [of s None] ev_key_def)
  next
    case False
    then show ?thesis
      using step Cons.IH [OF e(3), of "x # seen" "e_when e" "sint (e_priority e)"] Cons.prems k
      by (auto simp: ev_key_def)
  qed
qed simp

lemma verify_bins_ok:
  assumes "bin_seg (heap s) p bs None" "distinct (concat bs)" "set (concat bs) \<inter> set seen = {}"
    "bins_ok (key_of (heap s)) bs" "bs \<noteq> [] \<Longrightarrow> (sint t, pr) \<le> key_of (heap s) (hd (hd bs))"
  shows "verify_bins s p (seen, t, pr) = ret True"
  using assms
proof (induction bs arbitrary: p seen t pr)
  case Nil
  then show ?case by (simp add: verify_bins.simps)
next
  case (Cons b bs)
  obtain e where e: "p = Some (hd b)" "in_bin (heap s) p b" "heap s (hd b) = Some e"
      "bin_seg (heap s) (nextBin e) bs None" "b \<noteq> []"
    using Cons.prems(1) bin_seg_hd [OF Cons.prems(1)] by (auto split: option.splits)
  have K: "\<forall>x \<in> set b. key_of (heap s) x = key_of (heap s) (hd b)"
    using Cons.prems(4) by (auto simp: bins_ok_Cons)
  have d: "distinct b" "set b \<inter> set seen = {}" "(sint t, pr) \<le> key_of (heap s) (hd b)"
    using Cons.prems(2,3,5) by auto
  obtain t' pr' where v: "verify_bin s p (seen, t, pr) = ret (Some (rev b @ seen, t', pr'))"
      "(sint t', pr') = key_of (heap s) (hd b)"
    using verify_bin_ok [OF e(2) d(1,2) K d(3) e(5)] by blast
  have "verify_bins s (nextBin e) (rev b @ seen, t', pr') = ret True"
  proof (rule Cons.IH [OF e(4)])
    show "(sint t', pr') \<le> key_of (heap s) (hd (hd bs))" if "bs \<noteq> []"
      using that v(2) Cons.prems(4) by (auto simp: bins_ok_Cons neq_Nil_conv intro: less_imp_le)
  qed (use Cons.prems in \<open>auto simp: bins_ok_Cons\<close>)
  then show ?case using v(1) e by (simp add: verify_bins.simps [of s "Some (hd b)"] deref_def)
qed

lemma debugVerify_agenda:
  assumes "agenda s xs"
  shows "debugVerify s = ret (xs = [] \<or> (0, 0) \<le> snd (hd xs))"
proof -
  obtain bs where bs: "bin_seg (heap s) (qhead s) bs None" "distinct (concat bs)" "bins_ok (key_of (heap s)) bs"
      "xs = map (\<lambda>p. (p, key_of (heap s) p)) (concat bs)"
    using assms by (auto simp: agenda_def wf_evq_def)
  have hd: "bs \<noteq> [] \<Longrightarrow> xs \<noteq> [] \<and> snd (hd xs) = key_of (heap s) (hd (hd bs))"
    using bs(3,4) by (cases bs) (auto simp: bins_ok_Cons neq_Nil_conv)
  show ?thesis
  proof (cases "bs = [] \<or> (0, 0) \<le> snd (hd xs)")
    case True
    then have "debugVerify s = ret True"
      unfolding debugVerify_def using bs hd by (intro verify_bins_ok [where bs = bs]) auto
    with True bs(4) show ?thesis by auto
  next
    case False
    then obtain b bs' where b: "bs = b # bs'" by (cases bs) auto
    obtain e where e: "qhead s = Some (hd b)" "heap s (hd b) = Some e"
      using bs(1) b bin_seg_hd by (fastforce split: option.splits)
    have "ev_key e < (sint (0 :: tick), 0)" using False hd b e(2) by (auto simp: not_le)
    then have "verify_bin s (qhead s) ([], 0, 0) = ret None"
      using verify_test [of e 0 0] e by (auto simp: verify_bin.simps [of s "Some (hd b)"] deref_def)
    then show ?thesis using False hd e by (auto simp: debugVerify_def verify_bins.simps [of s "Some (hd b)"])
  qed
qed

subsection \<open>The queue as a least-element queue\<close>

definition pending :: "evq \<Rightarrow> (nat \<times> int \<times> int) multiset \<Rightarrow> bool" where
  "pending s M \<longleftrightarrow> (\<exists>xs. agenda s xs \<and> mset xs = M)"

interpretation evq_min: min_queue pending pop_head
proof
  fix s :: evq and M :: "(nat \<times> int \<times> int) multiset"
  assume "pending s M" "M \<noteq> {#}"
  then obtain ev k xs where xs: "agenda s ((ev, k) # xs)" "mset ((ev, k) # xs) = M"
    unfolding pending_def by (metis list.exhaust mset.simps(1) prod.exhaust)
  obtain s' where "pop_head s = ret (s', ev)" "agenda s' xs" using pop_head_agenda [OF xs(1)] by blast
  moreover have "\<forall>y \<in># M. k \<le> snd y" using agenda_sorted [OF xs(1)] xs(2) by auto
  ultimately show "\<exists>s' ev k. pop_head s = ret (s', ev) \<and> (ev, k) \<in># M \<and> (\<forall>y \<in># M. k \<le> snd y) \<and>
      pending s' (M - {#(ev, k)#})"
    unfolding pending_def using xs(2) by (metis add_mset_remove_trivial mset.simps(2) union_single_eq_member add_mset_add_single)
qed

lemma agenda_empty: "qhead s = None \<Longrightarrow> agenda s []"
  unfolding agenda_def wf_evq_def by (intro exI [of _ "[]"]) simp

lemma agenda_single:
  assumes "qhead s = Some p" "heap s p = Some e" "nextBin e = None" "nextInBin e = None"
    "scheduled e" "initialized e"
  shows "agenda s [(p, ev_key e)]"
  unfolding agenda_def wf_evq_def using assms by (intro exI [of _ "[[p]]"]) (simp add: bins_ok_def)

subsection \<open>Properties\<close>

text \<open>
  Two sample queues: one with an event that is not scheduled, one that holds a single
  event at tick 7, deleted when it is descheduled if \<open>auto\<close> is set.
\<close>

definition idle_queue :: evq where
  "idle_queue = \<lparr>heap = [0 \<mapsto> new_event Default_Pri], qhead = None, isMain = True, curTick = 5, dtrace = False\<rparr>"

definition busy_queue :: "bool \<Rightarrow> bool \<Rightarrow> evq" where
  "busy_queue auto tr = \<lparr>heap = [0 \<mapsto> (new_event CPU_Tick_Pri)\<lparr>e_when := 7,
       e_flags := Initialized OR Scheduled OR IsMainQueue OR (if auto then AutoDelete else 0)\<rparr>],
     qhead = Some 0, isMain = True, curTick = 5, dtrace = tr\<rparr>"

lemma flag_words:
  "scheduled (new_event p) = False" "initialized (new_event p)"
  by (simp_all add: scheduled_def initialized_def new_event_def fl_isSet_def Scheduled_def Initialized_def
      InitMask_def)

lemma busy_event:
  "\<exists>e. heap (busy_queue auto tr) 0 = Some e \<and> scheduled e \<and> initialized e \<and>
     fl_isSet (e_flags e) AutoDelete = auto \<and> ev_key e = (7, 50)"
  by (simp add: busy_queue_def scheduled_def initialized_def new_event_def fl_isSet_def Scheduled_def
      Initialized_def InitMask_def AutoDelete_def IsMainQueue_def ev_key_def CPU_Tick_Pri_def)

lemma agenda_busy: "agenda (busy_queue auto tr) [(0, 7, 50)]"
proof -
  obtain e where e: "heap (busy_queue auto tr) 0 = Some e" "scheduled e" "initialized e" "ev_key e = (7, 50)"
    using busy_event by blast
  moreover have "nextBin e = None" "nextInBin e = None" "qhead (busy_queue auto tr) = Some 0"
    using e(1) by (auto simp: busy_queue_def new_event_def)
  ultimately show ?thesis using agenda_single by metis
qed

text \<open>
  C1: Scheduling an event that is not yet on the queue, at a time not before the current
  one, returns. The event gets the new time and the flags \<open>Scheduled\<close> and, on the main
  queue, \<open>IsMainQueue\<close>. It takes its place in the agenda by time and priority, before the
  events with the same time and priority, and no other event changes.
\<close>

theorem schedule_inserts:
  assumes "agenda s xs" "heap s ev = Some e" "\<not> scheduled e" "initialized e" "curTick s \<le> when"
  shows "\<exists>s' e'. schedule ev when s = ret s' \<and> heap s' ev = Some e' \<and>
    ev_data e' = (when, e_priority e, sched_flags (isMain s) (e_flags e)) \<and> others ev s s' \<and>
    agenda s' (insort_key snd (ev, sint when, sint (e_priority e)) xs)"
  using assms by (rule schedule_agenda)

theorem schedule_inserts_witness:
  "\<exists>s' e'. schedule 0 9 idle_queue = ret s' \<and> heap s' 0 = Some e' \<and>
    ev_data e' = (9, Default_Pri, sched_flags True Initialized) \<and> others 0 idle_queue s' \<and>
    agenda s' [(0, 9, 0)]"
  using schedule_inserts [of idle_queue "[]" 0 "new_event Default_Pri" 9]
  by (simp add: idle_queue_def agenda_empty flag_words Default_Pri_def) (simp add: new_event_def)

text \<open>
  C2: Descheduling an event of the queue takes exactly that event out of the agenda, clears
  its flags \<open>Scheduled\<close> and \<open>Squashed\<close>, and deletes it when it is marked \<open>AutoDelete\<close>;
  the order of the others is unchanged. This holds with and without event tracing, except for
  an \<open>AutoDelete\<close> event while tracing is on, where the call touches the freed event.
\<close>

theorem deschedule_removes:
  assumes "agenda s xs" "ev \<in> fst ` set xs" "heap s ev = Some e" "\<not> (dtrace s \<and> fl_isSet (e_flags e) AutoDelete)"
  shows "\<exists>s'. deschedule ev s = ret s' \<and> others ev s s' \<and> agenda s' (filter (\<lambda>x. fst x \<noteq> ev) xs) \<and>
    (if fl_isSet (e_flags e) AutoDelete then heap s' ev = None
     else \<exists>e'. heap s' ev = Some e' \<and> ev_data e' = (e_when e, e_priority e, desched_flags (e_flags e)))"
  using deschedule_agenda [OF assms(1,2)] assms(3,4) by (auto split: if_splits)

theorem deschedule_removes_witness:
  "(\<exists>s'. deschedule 0 (busy_queue True False) = ret s' \<and> others 0 (busy_queue True False) s' \<and> agenda s' [] \<and> heap s' 0 = None) \<and>
   (\<exists>s' e'. deschedule 0 (busy_queue False True) = ret s' \<and> others 0 (busy_queue False True) s' \<and> agenda s' [] \<and>
     heap s' 0 = Some e' \<and> \<not> scheduled e')"
proof
  obtain e where "heap (busy_queue True False) 0 = Some e" "fl_isSet (e_flags e) AutoDelete"
    using busy_event [of True False] by blast
  moreover have "\<not> dtrace (busy_queue True False)" by (simp add: busy_queue_def)
  ultimately show "\<exists>s'. deschedule 0 (busy_queue True False) = ret s' \<and> others 0 (busy_queue True False) s' \<and> agenda s' [] \<and> heap s' 0 = None"
    using deschedule_removes [OF agenda_busy, of 0 True False] by auto
next
  obtain e where e: "heap (busy_queue False True) 0 = Some e" "\<not> fl_isSet (e_flags e) AutoDelete"
    using busy_event [of False True] by blast
  have "\<not> scheduled e'" if "ev_data e' = (e_when e, e_priority e, desched_flags (e_flags e))" for e'
    using that by (simp add: ev_data_def flag_tests desched_flags_def)
  with e show "\<exists>s' e'. deschedule 0 (busy_queue False True) = ret s' \<and> others 0 (busy_queue False True) s' \<and> agenda s' [] \<and>
     heap s' 0 = Some e' \<and> \<not> scheduled e'"
    using deschedule_removes [OF agenda_busy, of 0 False True] by fastforce
qed

text \<open>
  C36: With event tracing switched on, descheduling an \<open>AutoDelete\<close> event deletes the event
  and then asks the deleted object for its trace message: a use after free.
\<close>

theorem deschedule_traced_use_after_free:
  assumes "agenda s xs" "ev \<in> fst ` set xs" "dtrace s" "heap s ev = Some e" "fl_isSet (e_flags e) AutoDelete"
  shows "deschedule ev s = fail BadPtr"
  using deschedule_agenda [OF assms(1,2)] assms(3-5) by auto

theorem deschedule_traced_use_after_free_witness:
  "deschedule 0 (busy_queue True True) = fail BadPtr"
proof -
  obtain e where "heap (busy_queue True True) 0 = Some e" "fl_isSet (e_flags e) AutoDelete"
    using busy_event [of True True] by blast
  moreover have "dtrace (busy_queue True True)" by (simp add: busy_queue_def)
  ultimately show ?thesis using deschedule_traced_use_after_free [OF agenda_busy, of 0 True True] by simp
qed

text \<open>
  C3: Rescheduling moves an event to its new place in the agenda, whether it was on the queue
  before or not (with \<open>always\<close>), clears \<open>Squashed\<close> and leaves the other events as they are.
\<close>

theorem reschedule_moves:
  assumes "agenda s xs" "heap s ev = Some e" "initialized e" "scheduled e \<longleftrightarrow> ev \<in> fst ` set xs"
    "always \<or> scheduled e" "curTick s \<le>s when"
  shows "\<exists>s' e'. reschedule ev when always s = ret s' \<and> heap s' ev = Some e' \<and>
    ev_data e' = (when, e_priority e, resched_flags (isMain s) (e_flags e)) \<and> others ev s s' \<and>
    agenda s' (insort_key snd (ev, sint when, sint (e_priority e)) (filter (\<lambda>x. fst x \<noteq> ev) xs))"
  using assms by (rule reschedule_agenda)

theorem reschedule_moves_witness:
  "\<exists>s'. reschedule 0 11 False (busy_queue False False) = ret s' \<and> agenda s' [(0, 11, 50)]"
proof -
  obtain e where e: "heap (busy_queue False False) 0 = Some e" "scheduled e" "initialized e" "ev_key e = (7, 50)"
    using busy_event by blast
  have "curTick (busy_queue False False) \<le>s 11" by (simp add: busy_queue_def)
  then obtain s' where "reschedule 0 11 False (busy_queue False False) = ret s'"
      "agenda s' [(0, 11, sint (e_priority e))]"
    using reschedule_moves [OF agenda_busy e(1,3), of False 11] e(2) by auto
  then show ?thesis using e(4) by (auto simp: ev_key_def)
qed

text \<open>
  C7: Taking events off the head until the queue is empty yields every scheduled event once,
  in the order of time and then of priority.
\<close>

theorem dispatch_order:
  assumes "agenda s xs"
  shows "\<exists>s' ys. drain pop_head (length xs) s = ret (s', map fst ys) \<and> mset ys = mset xs \<and>
    sorted (map snd ys) \<and> qhead s' = None"
proof -
  have "pending s (mset xs)" using assms by (auto simp: pending_def)
  from evq_min.drain_sorted [OF this, of "length xs"]
  obtain s' ys where d: "drain pop_head (length xs) s = ret (s', map fst ys)" "mset ys = mset xs"
      "sorted (map snd ys)" "pending s' {#}"
    by auto
  then have "qhead s' = None" using agenda_head by (fastforce simp: pending_def)
  with d show ?thesis by blast
qed

theorem dispatch_order_witness:
  "\<exists>s' ys. drain pop_head 1 (busy_queue False False) = ret (s', map fst ys) \<and>
    mset ys = {#(0, 7, 50)#} \<and> sorted (map snd ys) \<and> qhead s' = None"
  using dispatch_order [OF agenda_busy [of False False]] by simp

text \<open>
  C37: On a well-formed queue \<open>debugVerify\<close> returns, and its verdict depends on the first
  event alone: since it starts from tick 0 and priority 0, it accepts the queue exactly when
  the queue is empty, or its first event is at a positive tick, or at tick 0 with a priority
  that is not negative. A queue whose first event is at tick 0 with a negative priority, or at
  a negative tick, is reported although nothing is out of order.
\<close>

theorem debugVerify_verdict:
  assumes "agenda s xs"
  shows "debugVerify s = ret (case xs of [] \<Rightarrow> True | (ev, t, pri) # _ \<Rightarrow> 0 < t \<or> t = 0 \<and> 0 \<le> pri)"
  using debugVerify_agenda [OF assms] by (auto split: list.splits)

definition first_queue :: "tick \<Rightarrow> 8 word \<Rightarrow> evq" where
  "first_queue t pri = \<lparr>heap = [0 \<mapsto> (new_event pri)\<lparr>e_when := t, e_flags := Initialized OR Scheduled\<rparr>],
     qhead = Some 0, isMain = True, curTick = t, dtrace = False\<rparr>"

lemma agenda_first: "agenda (first_queue t pri) [(0, sint t, sint pri)]"
proof -
  obtain e where "heap (first_queue t pri) 0 = Some e" "scheduled e" "initialized e" "ev_key e = (sint t, sint pri)"
      "nextBin e = None" "nextInBin e = None" "qhead (first_queue t pri) = Some 0"
    by (simp add: first_queue_def scheduled_def initialized_def new_event_def fl_isSet_def Scheduled_def Initialized_def
        InitMask_def ev_key_def)
  then show ?thesis using agenda_single by metis
qed

theorem debugVerify_verdict_witness:
  "debugVerify (first_queue 7 (- 1)) = ret True \<and> debugVerify (first_queue 0 (- 1)) = ret False \<and>
   debugVerify (first_queue (- 5) 0) = ret False"
  using debugVerify_verdict [OF agenda_first [of 7 "- 1"]] debugVerify_verdict [OF agenda_first [of 0 "- 1"]]
    debugVerify_verdict [OF agenda_first [of "- 5" 0]] by simp

end
