(* ===== verification/Simulate.thy ===== *)
theory Simulate
  imports Event_Queue
begin

section \<open>The simulation loop\<close>

text \<open>
  Model of \<open>serviceOne\<close> and \<open>serviceEvents\<close> (\<^verbatim>\<open>src/src/sim/eventq.cc\<close>,
  \<^verbatim>\<open>src/src/sim/eventq.hh\<close>) and of \<open>simulate\<close> (\<^verbatim>\<open>src/src/sim/simulate.cc\<close>).

  An event's action is the virtual function \<open>process()\<close>, code of the object that owns
  the event. It reaches the queue only through the public interface, so its effect
  on the queue is a list of public operations; which ones may depend on the queue
  and on the rest of the simulator, the type \<open>'w\<close>. The actions, the allocator behind
  \<open>new\<close>, the signal flags polled after each event and the handlers run by
  \<open>pollQueue.service()\<close> are the environment, a parameter of the loop.
\<close>

subsection \<open>Actions\<close>

datatype qop =
    QNew nat "8 word"
  | QDelete nat
  | QSetFlags nat int16
  | QClearFlags nat int16
  | QSquash nat
  | QSchedule nat tick
  | QDeschedule nat
  | QReschedule nat tick bool

definition update_live :: "nat \<Rightarrow> (event \<Rightarrow> event res) \<Rightarrow> evq \<Rightarrow> evq comp" where
  "update_live p f s = bindC (deref s p) (\<lambda>e. bindC (liftC (f e)) (\<lambda>e'. ret (upd p (\<lambda>_. e') s)))"

definition new_at :: "nat \<Rightarrow> event \<Rightarrow> evq \<Rightarrow> evq comp" where
  "new_at p e s = (if heap s p \<noteq> None then fail BadPtr else ret (s\<lparr>heap := (heap s)(p \<mapsto> e)\<rparr>))"

fun run_op :: "qop \<Rightarrow> evq \<Rightarrow> evq comp" where
  "run_op (QNew p pri) s = new_at p (new_event pri) s"
| "run_op (QDelete p) s = delete_event p s"
| "run_op (QSetFlags p fl) s = update_live p (setFlags fl) s"
| "run_op (QClearFlags p fl) s = update_live p (clearFlags fl) s"
| "run_op (QSquash p) s = update_live p (\<lambda>e. Inr (squash e)) s"
| "run_op (QSchedule p t) s = schedule p t s"
| "run_op (QDeschedule p) s = deschedule p s"
| "run_op (QReschedule p t always) s = reschedule p t always s"

fun run_ops :: "qop list \<Rightarrow> evq \<Rightarrow> evq comp" where
  "run_ops [] s = ret s"
| "run_ops (x # xs) s = bindC (run_op x s) (run_ops xs)"

record async =
  async_event :: bool
  async_statdump :: bool
  async_statreset :: bool
  async_exit :: bool
  async_io :: bool
  async_alarm :: bool
  async_exception :: bool

record 'w env =
  process :: "nat \<Rightarrow> evq \<Rightarrow> 'w \<Rightarrow> qop list \<times> 'w"
  alloc :: "(nat \<Rightarrow> event option) \<Rightarrow> nat"
  sample :: "'w \<Rightarrow> async \<times> 'w"
  poll :: "evq \<Rightarrow> 'w \<Rightarrow> qop list \<times> 'w"
  simLoopExitClass :: "nat \<Rightarrow> bool"

subsection \<open>Servicing events\<close>

definition finish_event :: "nat \<Rightarrow> evq \<Rightarrow> evq comp" where
  "finish_event ev s = bindC (deref s ev) (\<lambda>e.
     if fl_isSet (e_flags e) AutoDelete \<and> \<not> scheduled e then delete_event ev s else ret s)"

definition serviceOne :: "'w env \<Rightarrow> evq \<times> 'w \<Rightarrow> ((evq \<times> 'w) \<times> nat option) comp" where
  "serviceOne env sw = bindC (pop_head (fst sw)) (\<lambda>(s1, ev). bindC (deref s1 ev) (\<lambda>e.
     if \<not> squashed e then
       let (ops, w1) = process env ev s1 (snd sw) in
       bindC (run_ops ops s1) (\<lambda>s2. bindC (deref s2 ev) (\<lambda>e2.
         if isExitEvent e2 then
           (if fl_isSet (e_flags e2) AutoDelete then fail (Assert ''!AutoDelete'')
            else ret ((s2, w1), Some ev))
         else bindC (finish_event ev s2) (\<lambda>s3. ret ((s3, w1), None))))
     else bindC (finish_event ev (upd ev (\<lambda>e. e\<lparr>e_flags := fl_clear (e_flags e) Squashed\<rparr>) s1))
       (\<lambda>s3. ret ((s3, snd sw), None))))"

partial_function (option) serviceEvents :: "'w env \<Rightarrow> tick \<Rightarrow> evq \<times> 'w \<Rightarrow> (evq \<times> 'w) comp" where
  "serviceEvents env when sw =
     (if empty_evq (fst sw) then ret sw
      else bindC (nextTick (fst sw)) (\<lambda>t.
        if when <s t then ret sw
        else bindC (serviceOne env sw) (\<lambda>r. serviceEvents env when (fst r))))"

subsection \<open>The main loop\<close>

definition newSimLoopExitEvent :: "nat \<Rightarrow> evq \<Rightarrow> evq comp" where
  "newSimLoopExitEvent p s =
     bindC (new_at p (new_event Sim_Exit_Pri) s) (update_live p (setFlags IsExitEvent))"

definition exitSimLoop :: "'w env \<Rightarrow> evq \<Rightarrow> evq comp" where
  "exitSimLoop env s = (let p = alloc env (heap s) in
     bindC (newSimLoopExitEvent p s) (\<lambda>s1. schedule p (curTick s1) s1))"

definition StatEvent :: "'w env \<Rightarrow> tick \<Rightarrow> evq \<Rightarrow> evq comp" where
  "StatEvent env when s = (let p = alloc env (heap s) in
     bindC (new_at p (new_event Stat_Event_Pri) s) (\<lambda>s1.
       bindC (update_live p (setFlags AutoDelete) s1) (schedule p when)))"

definition handle_async :: "'w env \<Rightarrow> evq \<times> 'w \<Rightarrow> ((evq \<times> 'w) \<times> bool) comp" where
  "handle_async env sw = (let (a, w1) = sample env (snd sw); s = fst sw in
     if \<not> async_event a then ret ((s, w1), False)
     else bindC (if async_statdump a \<or> async_statreset a then StatEvent env (curTick s) s else ret s) (\<lambda>s1.
       bindC (if async_exit a then exitSimLoop env s1 else ret s1) (\<lambda>s2.
         let (ops, w2) = (if async_io a \<or> async_alarm a then poll env s2 w1 else ([], w1)) in
         bindC (run_ops ops s2) (\<lambda>s3. ret ((s3, w2), async_exception a)))))"

definition sim_exit :: "'w env \<Rightarrow> nat \<Rightarrow> nat \<Rightarrow> evq \<times> 'w \<Rightarrow> ((evq \<times> 'w) \<times> nat option) comp" where
  "sim_exit env limit ev sw =
     (if \<not> simLoopExitClass env ev then fail (Panic ''Bogus exit event class!'')
      else if ev \<noteq> limit then
        bindC (deref (fst sw) limit) (\<lambda>le.
          if \<not> scheduled le then fail (Assert ''limit_event->scheduled()'')
          else ret ((upd limit squash (fst sw), snd sw), Some ev))
      else ret (sw, Some ev))"

definition service_head :: "'w env \<Rightarrow> evq \<times> 'w \<Rightarrow> ((evq \<times> 'w) \<times> nat option) comp" where
  "service_head env sw =
     (if empty_evq (fst sw) then fail (Assert ''!mainEventQueue.empty()'')
      else bindC (nextTick (fst sw)) (\<lambda>t.
        if \<not> curTick (fst sw) \<le>s t then fail (Assert ''event scheduled in the past'')
        else serviceOne env ((fst sw)\<lparr>curTick := t\<rparr>, snd sw)))"

partial_function (option) sim_loop ::
  "'w env \<Rightarrow> nat \<Rightarrow> evq \<times> 'w \<Rightarrow> ((evq \<times> 'w) \<times> nat option) comp" where
  "sim_loop env limit sw = bindC (service_head env sw) (\<lambda>r.
     case snd r of
       Some ev \<Rightarrow> sim_exit env limit ev (fst r)
     | None \<Rightarrow> bindC (handle_async env (fst r)) (\<lambda>r2.
         if snd r2 then ret (fst r2, None) else sim_loop env limit (fst r2)))"

definition sim_limit :: "tick \<Rightarrow> tick \<Rightarrow> tick" where
  "sim_limit now num_cycles = (if now + num_cycles <s 0 then MaxTick else now + num_cycles)"

definition simulate :: "'w env \<Rightarrow> tick \<Rightarrow> evq \<times> 'w \<Rightarrow> ((evq \<times> 'w) \<times> nat option) comp" where
  "simulate env num_cycles sw =
     (if num_cycles <s 0 then fail (Fatal ''simulate: num_cycles must be >= 0'')
      else let limit = alloc env (heap (fst sw)) in
        bindC (newSimLoopExitEvent limit (fst sw)) (\<lambda>s1.
          bindC (schedule limit (sim_limit (curTick s1) num_cycles) s1) (\<lambda>s2.
            sim_loop env limit (s2, snd sw))))"

subsection \<open>Lemmas\<close>

definition closed_evq :: "evq \<Rightarrow> (nat \<times> int \<times> int) list \<Rightarrow> bool" where
  "closed_evq s xs \<longleftrightarrow> agenda s xs \<and> finite (dom (heap s)) \<and> (\<forall>p e. heap s p = Some e \<longrightarrow> scheduled e \<longrightarrow> p \<in> fst ` set xs)"

definition wf_sim :: "evq \<Rightarrow> bool" where
  "wf_sim s \<longleftrightarrow> (\<exists>xs. closed_evq s xs)"

lemma closed_evq_wf: "closed_evq s xs \<Longrightarrow> wf_sim s"
  by (auto simp: wf_sim_def)

lemma others_finite: "others ev s s' \<Longrightarrow> finite (dom (heap s)) \<Longrightarrow> finite (dom (heap s'))"
proof -
  assume o: "others ev s s'" and fin: "finite (dom (heap s))"
  have "dom (heap s') \<subseteq> Set.insert ev (dom (heap s))"
  proof
    fix p assume "p \<in> dom (heap s')"
    then show "p \<in> Set.insert ev (dom (heap s))"
      using o unfolding others_def by (metis domIff insertCI map_option_is_None)
  qed
  then show ?thesis using fin by (simp add: finite_subset)
qed

lemma closed_others:
  assumes c: "closed_evq s xs" and o: "others ev s s'"
    and ag: "agenda s' ys" and sub: "fst ` set xs - {ev} \<subseteq> fst ` set ys"
    and ev: "\<And>e. heap s' ev = Some e \<Longrightarrow> scheduled e \<Longrightarrow> ev \<in> fst ` set ys"
  shows "closed_evq s' ys"
proof -
  have "p \<in> fst ` set ys" if p: "heap s' p = Some e" "scheduled e" "p \<noteq> ev" for p e
  proof -
    have "map_option ev_data (heap s' p) = map_option ev_data (heap s p)"
      using o p(3) by (simp add: others_def)
    then have "map_option ev_data (heap s p) = Some (ev_data e)" using p(1) by simp
    then obtain e0 where e0: "heap s p = Some e0" "ev_data e0 = ev_data e" by auto
    then have "scheduled e0" using p(2) ev_data_flags [OF e0(2)] by simp
    then have "p \<in> fst ` set xs" using c e0(1) by (auto simp: closed_evq_def)
    with sub p(3) show ?thesis by blast
  qed
  moreover have "finite (dom (heap s'))" using c others_finite [OF o] by (simp add: closed_evq_def)
  ultimately show ?thesis using ag ev unfolding closed_evq_def by blast
qed

lemma fst_insort: "fst ` set (insort_key snd (ev, k) xs) = Set.insert ev (fst ` set xs)"
  by (simp add: set_insort_key)

lemma fst_filter: "fst ` set (filter (\<lambda>x. fst x \<noteq> ev) xs) = fst ` set xs - {ev}"
  by auto

text \<open>
  What each operation of the public interface can do on a well-formed queue: it
  returns, keeps the queue well formed, or stops at an assertion or at a freed
  object. It neither runs forever nor reaches the panic of an event that is not
  found.
\<close>

definition frame :: "nat set \<Rightarrow> evq \<Rightarrow> evq \<Rightarrow> bool" where
  "frame A s s' \<longleftrightarrow> (\<forall>p. p \<notin> A \<longrightarrow> map_option ev_data (heap s' p) = map_option ev_data (heap s p)) \<and>
     isMain s' = isMain s \<and> curTick s' = curTick s \<and> dtrace s' = dtrace s"

lemma frame_others: "others ev s s' \<Longrightarrow> frame {ev} s s'"
  by (simp add: others_def frame_def)

lemma frame_refl [simp]: "frame A s s"
  by (simp add: frame_def)

lemma frame_trans: "frame A s s' \<Longrightarrow> frame B s' s'' \<Longrightarrow> frame (A \<union> B) s s''"
  by (simp add: frame_def)

lemma frame_mono: "frame A s s' \<Longrightarrow> A \<subseteq> B \<Longrightarrow> frame B s s'"
  by (auto simp: frame_def)

lemma frame_upd [simp]: "frame {p} s (upd p f s)"
  by (rule frame_others) simp

lemma frame_heap [simp]: "frame {p} s (s\<lparr>heap := (heap s)(p := v)\<rparr>)"
  by (simp add: frame_def)

definition outcome :: "('a \<Rightarrow> bool) \<Rightarrow> 'a comp \<Rightarrow> bool" where
  "outcome P m \<longleftrightarrow> (\<exists>r. m = ret r \<and> P r) \<or> (\<exists>msg. m = fail (Assert msg)) \<or> m = fail BadPtr"

lemma outcome_ret [simp]: "outcome P (ret r) \<longleftrightarrow> P r"
  and outcome_fail [simp]: "outcome P (fail (Assert msg))" "outcome P (fail BadPtr)"
  by (auto simp: outcome_def)

lemma outcome_bind:
  assumes m: "outcome P m" and f: "\<And>r. P r \<Longrightarrow> outcome Q (f r)"
  shows "outcome Q (bindC m f)"
  using m unfolding outcome_def [of P]
proof (elim disjE exE conjE)
  fix r assume "m = ret r" "P r"
  with f show ?thesis by simp
qed simp_all

lemma outcome_mono: "outcome P m \<Longrightarrow> (\<And>r. P r \<Longrightarrow> Q r) \<Longrightarrow> outcome Q m"
  by (auto simp: outcome_def)

abbreviation sane :: "nat set \<Rightarrow> evq \<Rightarrow> evq comp \<Rightarrow> bool" where
  "sane A s \<equiv> outcome (\<lambda>s'. wf_sim s' \<and> frame A s s')"

lemma sane_bind:
  assumes m: "sane A s m" and f: "\<And>s'. wf_sim s' \<Longrightarrow> sane B s' (f s')"
  shows "sane (A \<union> B) s (bindC m f)"
  using m by (rule outcome_bind) (auto intro: outcome_mono [OF f] frame_trans)

lemma sane_schedule:
  assumes "wf_sim s" shows "sane {ev} s (schedule ev t s)"
proof (cases "heap s ev")
  case (Some e)
  obtain xs where c: "closed_evq s xs" using assms by (auto simp: wf_sim_def)
  then have ag: "agenda s xs" by (simp add: closed_evq_def)
  show ?thesis
  proof (cases "curTick s \<le> t \<and> \<not> scheduled e \<and> initialized e")
    case True
    then obtain s' e' where s': "schedule ev t s = ret s'" "others ev s s'"
      "agenda s' (insort_key snd (ev, sint t, sint (e_priority e)) xs)"
      using schedule_agenda [OF ag Some] by blast
    have "closed_evq s' (insort_key snd (ev, sint t, sint (e_priority e)) xs)"
      by (rule closed_others [OF c s'(2,3)]) (simp_all add: fst_insort subset_insertI2)
    with s'(1,2) show ?thesis by (auto intro: closed_evq_wf frame_others)
  next
    case False
    then show ?thesis using Some by (auto simp: schedule_def)
  qed
qed (auto simp: schedule_def)

lemma sane_deschedule:
  assumes "wf_sim s" shows "sane {ev} s (deschedule ev s)"
proof (cases "heap s ev")
  case (Some e)
  obtain xs where c: "closed_evq s xs" using assms by (auto simp: wf_sim_def)
  then have ag: "agenda s xs" by (simp add: closed_evq_def)
  show ?thesis
  proof (cases "scheduled e")
    case True
    then have ev: "ev \<in> fst ` set xs" using c Some by (auto simp: closed_evq_def)
    have res: "closed_evq s' (filter (\<lambda>x. fst x \<noteq> ev) xs)"
      if "others ev s s'" "agenda s' (filter (\<lambda>x. fst x \<noteq> ev) xs)"
        "\<And>a. heap s' ev = Some a \<Longrightarrow> \<not> scheduled a" for s'
      by (rule closed_others [OF c that(1,2)]) (use that(3) in \<open>auto simp: fst_filter\<close>)
    have nsch: "\<not> scheduled a" if "ev_data a = (w, pr, desched_flags fl)" for a w pr fl
      using that by (simp add: ev_data_def flag_tests desched_flags_def)
    consider "deschedule ev s = fail BadPtr"
      | s' where "deschedule ev s = ret s'" "heap s' ev = None" "others ev s s'"
          "agenda s' (filter (\<lambda>x. fst x \<noteq> ev) xs)"
      | s' e' where "deschedule ev s = ret s'" "heap s' ev = Some e'" "\<not> scheduled e'" "others ev s s'"
          "agenda s' (filter (\<lambda>x. fst x \<noteq> ev) xs)"
      using deschedule_agenda [OF ag ev] nsch by (auto split: if_splits)
    then show ?thesis by cases (auto intro!: closed_evq_wf res frame_others)
  next
    case False
    then show ?thesis using Some by (auto simp: deschedule_def)
  qed
qed (auto simp: deschedule_def)

lemma sane_reschedule:
  assumes "wf_sim s" shows "sane {ev} s (reschedule ev t always s)"
proof (cases "heap s ev")
  case (Some e)
  obtain xs where c: "closed_evq s xs" using assms by (auto simp: wf_sim_def)
  then have ag: "agenda s xs" by (simp add: closed_evq_def)
  have on: "scheduled e \<longleftrightarrow> ev \<in> fst ` set xs"
    using c Some agenda_event [OF ag, of ev] by (auto simp: closed_evq_def)
  show ?thesis
  proof (cases "curTick s \<le>s t \<and> (always \<or> scheduled e) \<and> initialized e")
    case True
    let ?ys = "insort_key snd (ev, sint t, sint (e_priority e)) (filter (\<lambda>x. fst x \<noteq> ev) xs)"
    obtain s' where s': "reschedule ev t always s = ret s'" "others ev s s'" "agenda s' ?ys"
      using reschedule_agenda [OF ag Some _ on] True by blast
    have "closed_evq s' ?ys"
      by (rule closed_others [OF c s'(2,3)]) (unfold fst_insort fst_filter, auto)
    with s'(1,2) show ?thesis by (auto intro: closed_evq_wf frame_others)
  next
    case False
    then show ?thesis using Some by (auto simp: reschedule_def)
  qed
qed (auto simp: reschedule_def)

lemma agenda_heap_off:
  assumes "agenda s xs" "ev \<notin> fst ` set xs"
  shows "agenda (s\<lparr>heap := (heap s)(ev := v)\<rparr>) xs"
proof -
  obtain bs where bs: "wf_evq s bs" "xs = map (\<lambda>p. (p, key_of (heap s) p)) (concat bs)"
    using assms(1) by (auto simp: agenda_def)
  have off: "ev \<notin> set (concat bs)" using assms(2) bs(2) by (auto simp: image_image)
  have "wf_evq (s\<lparr>heap := (heap s)(ev := v)\<rparr>) bs"
    using bs(1) by (rule wf_evq_cong) (use off in auto)
  moreover have "xs = map (\<lambda>p. (p, key_of ((heap s)(ev := v)) p)) (concat bs)"
    unfolding bs(2) by (rule map_cong) (use off in \<open>auto simp: key_of_def\<close>)
  ultimately show ?thesis unfolding agenda_def by auto
qed

lemma closed_heap_off:
  assumes c: "closed_evq s xs" and off: "p \<notin> fst ` set xs"
    and v: "\<And>e. v = Some e \<Longrightarrow> \<not> scheduled e"
  shows "closed_evq (s\<lparr>heap := (heap s)(p := v)\<rparr>) xs"
  using c v agenda_heap_off [OF _ off] by (auto simp: closed_evq_def)

lemma agenda_flags:
  assumes ag: "agenda s xs" and e: "heap s p = Some e"
    and fl: "bit fl 1 = bit (e_flags e) 1" "fl AND InitMask = e_flags e AND InitMask"
  shows "agenda (upd p (\<lambda>_. e\<lparr>e_flags := fl\<rparr>) s) xs"
proof -
  obtain bs where bs: "wf_evq s bs" "xs = map (\<lambda>p. (p, key_of (heap s) p)) (concat bs)"
    using ag by (auto simp: agenda_def)
  let ?f = "\<lambda>e. e\<lparr>e_flags := fl\<rparr> :: event"
  have up: "upd p (\<lambda>_. ?f e) s = upd p ?f s" using e by (simp add: upd_def)
  have key: "key_of (heap (upd p ?f s)) = key_of (heap s)" by (simp only: heap_upd flags_only_key flags_only_simps)
  have seg: "bin_seg (heap (upd p ?f s)) (qhead s) bs None = bin_seg (heap s) (qhead s) bs None"
    by (simp only: heap_upd flags_only_seg flags_only_simps)
  have same: "scheduled (?f e) = scheduled e" "initialized (?f e) = initialized e"
    using fl by (simp_all add: flag_tests initialized_def)
  have "\<exists>e. heap (upd p ?f s) q = Some e \<and> scheduled e \<and> initialized e" if q: "q \<in> set (concat bs)" for q
  proof -
    have "\<exists>e. heap s q = Some e \<and> scheduled e \<and> initialized e"
      using bs(1) q unfolding wf_evq_def by blast
    then show ?thesis using e same by (cases "q = p") auto
  qed
  then have "wf_evq (upd p ?f s) bs"
    using bs(1) seg key unfolding wf_evq_def by simp
  then show ?thesis unfolding agenda_def up key using bs(2) by blast
qed

lemma wf_sim_flags:
  assumes "wf_sim s" and e: "heap s p = Some e"
    and fl: "bit fl 1 = bit (e_flags e) 1" "fl AND InitMask = e_flags e AND InitMask"
  shows "wf_sim (upd p (\<lambda>_. e\<lparr>e_flags := fl\<rparr>) s)"
proof -
  obtain xs where c: "closed_evq s xs" using assms(1) by (auto simp: wf_sim_def)
  have "agenda (upd p (\<lambda>_. e\<lparr>e_flags := fl\<rparr>) s) xs"
    using agenda_flags [OF _ e fl] c by (simp add: closed_evq_def)
  moreover have "scheduled (e\<lparr>e_flags := fl\<rparr>) = scheduled e" using fl by (simp add: flag_tests)
  ultimately have "closed_evq (upd p (\<lambda>_. e\<lparr>e_flags := fl\<rparr>) s) xs"
    using c e by (auto simp: closed_evq_def split: if_splits)
  then show ?thesis by (rule closed_evq_wf)
qed

lemma public_write_bits:
  assumes "fl_noneSet fl (NOT PublicWrite)"
  shows "\<not> bit fl 1" "fl AND InitMask = 0"
proof -
  have imp: "bit fl n \<Longrightarrow> bit PublicWrite n" for n
  proof (rule ccontr)
    assume n: "bit fl n" "\<not> bit PublicWrite n"
    then have "bit (fl AND NOT PublicWrite) n"
      using bit_imp_le_length [of fl n] by (simp add: bit_and_iff bit_not_iff)
    with assms show False by (simp add: fl_noneSet_def)
  qed
  show "\<not> bit fl 1" using imp [of 1] by (auto simp: PublicWrite_def)
  have "PublicWrite AND InitMask = 0" by (simp add: PublicWrite_def InitMask_def)
  then have "\<not> (bit PublicWrite n \<and> bit InitMask n)" for n
    by (metis bit_0_eq bit_and_iff bot_apply bot_bool_def)
  with imp show "fl AND InitMask = 0"
    by (intro bit_word_eqI) (auto simp: bit_and_iff)
qed

lemma sane_update_flags:
  assumes "wf_sim s"
    and "\<And>e e'. f e = Inr e' \<Longrightarrow> \<exists>fl. e' = e\<lparr>e_flags := fl\<rparr> \<and> bit fl 1 = bit (e_flags e) 1 \<and>
      fl AND InitMask = e_flags e AND InitMask"
    and "\<And>e err. f e = Inl err \<Longrightarrow> \<exists>msg. err = Assert msg"
  shows "sane {p} s (update_live p f s)"
proof (cases "heap s p")
  case (Some e)
  show ?thesis
  proof (cases "f e")
    case (Inl err)
    with Some assms(3) show ?thesis by (fastforce simp: update_live_def liftC_def outcome_def fail_def)
  next
    case (Inr e')
    with assms(2) obtain fl where "e' = e\<lparr>e_flags := fl\<rparr>" "bit fl 1 = bit (e_flags e) 1"
      "fl AND InitMask = e_flags e AND InitMask" by blast
    with wf_sim_flags [OF assms(1) Some] Some Inr show ?thesis
      by (simp add: update_live_def liftC_def)
  qed
qed (simp add: update_live_def)

lemma sane_setFlags: "wf_sim s \<Longrightarrow> sane {p} s (update_live p (setFlags fl) s)"
  using public_write_bits [of fl]
  by (intro sane_update_flags) (auto simp: setFlags_def assertR_def split: if_splits)

lemma sane_clearFlags: "wf_sim s \<Longrightarrow> sane {p} s (update_live p (clearFlags fl) s)"
  using public_write_bits [of fl]
  by (intro sane_update_flags) (auto simp: clearFlags_def assertR_def split: if_splits)

lemma sane_squash: "wf_sim s \<Longrightarrow> sane {p} s (update_live p (\<lambda>e. Inr (squash e)) s)"
  by (intro sane_update_flags) (auto simp: squash_def)

lemma sane_new: "wf_sim s \<Longrightarrow> \<not> scheduled e \<Longrightarrow> sane {p} s (new_at p e s)"
proof (cases "heap s p")
  case None
  assume "wf_sim s" and e: "\<not> scheduled e"
  then obtain xs where c: "closed_evq s xs" by (auto simp: wf_sim_def)
  then have "p \<notin> fst ` set xs" using None agenda_event [of s xs p] by (force simp: closed_evq_def)
  then have "closed_evq (s\<lparr>heap := (heap s)(p := Some e)\<rparr>) xs" using c e by (intro closed_heap_off) auto
  then show ?thesis using None closed_evq_wf by (simp add: new_at_def)
qed (simp add: new_at_def)

lemma sane_delete: "wf_sim s \<Longrightarrow> sane {p} s (delete_event p s)"
proof (cases "heap s p")
  case (Some e)
  assume "wf_sim s"
  then obtain xs where c: "closed_evq s xs" by (auto simp: wf_sim_def)
  show ?thesis
  proof (cases "scheduled e")
    case False
    then have "p \<notin> fst ` set xs" using Some agenda_event [of s xs p] c by (force simp: closed_evq_def)
    then have "closed_evq (s\<lparr>heap := (heap s)(p := None)\<rparr>) xs" using c by (intro closed_heap_off) auto
    then show ?thesis using Some False closed_evq_wf by (simp add: delete_event_def)
  qed (use Some in \<open>simp add: delete_event_def\<close>)
qed (simp add: delete_event_def)

lemma new_event_not_scheduled [simp]: "\<not> scheduled (new_event pri)"
  by (simp add: new_event_def scheduled_def fl_isSet_def Initialized_def Scheduled_def)

fun op_ptr :: "qop \<Rightarrow> nat" where
  "op_ptr (QNew p pri) = p"
| "op_ptr (QDelete p) = p"
| "op_ptr (QSetFlags p fl) = p"
| "op_ptr (QClearFlags p fl) = p"
| "op_ptr (QSquash p) = p"
| "op_ptr (QSchedule p t) = p"
| "op_ptr (QDeschedule p) = p"
| "op_ptr (QReschedule p t always) = p"

lemma sane_run_op: "wf_sim s \<Longrightarrow> sane {op_ptr x} s (run_op x s)"
  by (cases x) (simp_all add: sane_new sane_delete sane_setFlags sane_clearFlags sane_squash
      sane_schedule sane_deschedule sane_reschedule)

lemma sane_run_ops: "wf_sim s \<Longrightarrow> sane (op_ptr ` set xs) s (run_ops xs s)"
proof (induction xs arbitrary: s)
  case (Cons x xs)
  then show ?case using sane_bind [OF sane_run_op Cons.IH, of s x] by simp
qed simp

lemma closed_pop:
  assumes c: "closed_evq s ((ev, k) # xs)"
  shows "\<exists>s1 e e1. pop_head s = ret (s1, ev) \<and> heap s ev = Some e \<and> k = ev_key e \<and>
    heap s1 ev = Some e1 \<and> ev_data e1 = (e_when e, e_priority e, fl_clear (e_flags e) Scheduled) \<and>
    closed_evq s1 xs \<and> frame {ev} s s1"
proof -
  have ag: "agenda s ((ev, k) # xs)" using c by (simp add: closed_evq_def)
  obtain s1 e e1 where p: "pop_head s = ret (s1, ev)" "heap s ev = Some e" "k = ev_key e"
    "heap s1 ev = Some e1" "ev_data e1 = (e_when e, e_priority e, fl_clear (e_flags e) Scheduled)"
    "others ev s s1" "agenda s1 xs"
    using pop_head_agenda [OF ag] by blast
  have "\<not> scheduled e1" using p(5) by (simp add: ev_data_def flag_tests)
  then have "closed_evq s1 xs"
    using p(4) by (intro closed_others [OF c p(6,7)]) auto
  with p frame_others [OF p(6)] show ?thesis by blast
qed

lemma closed_curTick: "closed_evq (s\<lparr>curTick := t\<rparr>) xs = closed_evq s xs"
  by (simp add: closed_evq_def agenda_def wf_evq_def)

lemma closed_head_time:
  assumes "closed_evq s ((ev, k) # xs)"
  shows "\<not> empty_evq s" "\<exists>e. heap s ev = Some e \<and> nextTick s = ret (e_when e) \<and> fst k = sint (e_when e)"
proof -
  have ag: "agenda s ((ev, k) # xs)" using assms by (simp add: closed_evq_def)
  then have hd: "qhead s = Some ev" using agenda_head by fastforce
  then show "\<not> empty_evq s" by (simp add: empty_evq_def)
  obtain e where "heap s ev = Some e" "k = ev_key e" using agenda_event [OF ag, of ev k] by auto
  with hd show "\<exists>e. heap s ev = Some e \<and> nextTick s = ret (e_when e) \<and> fst k = sint (e_when e)"
    by (simp add: nextTick_def ev_key_def)
qed

lemma closed_nonempty: "wf_sim s \<Longrightarrow> \<not> empty_evq s \<Longrightarrow> \<exists>ev k xs. closed_evq s ((ev, k) # xs)"
proof -
  assume "wf_sim s" "\<not> empty_evq s"
  then obtain xs where c: "closed_evq s xs" and "qhead s \<noteq> None"
    by (auto simp: wf_sim_def empty_evq_def)
  then have "xs \<noteq> []" using agenda_head [of s xs] by (auto simp: closed_evq_def)
  with c show ?thesis by (cases xs) auto
qed

lemma sane_finish: "wf_sim s \<Longrightarrow> sane {ev} s (finish_event ev s)"
  by (cases "heap s ev") (auto simp: finish_event_def sane_delete)

lemma wf_sim_unsquash:
  assumes "wf_sim s" "heap s ev = Some e"
  shows "wf_sim (upd ev (\<lambda>e. e\<lparr>e_flags := fl_clear (e_flags e) Squashed\<rparr>) s)"
proof -
  have "upd ev (\<lambda>e. e\<lparr>e_flags := fl_clear (e_flags e) Squashed\<rparr>) s =
      upd ev (\<lambda>_. e\<lparr>e_flags := fl_clear (e_flags e) Squashed\<rparr>) s"
    using assms(2) by (simp add: upd_def)
  with wf_sim_flags [OF assms, of "fl_clear (e_flags e) Squashed"] show ?thesis by simp
qed

text \<open>
  \<open>serviceOne\<close> on a well-formed queue: the head event is taken off the agenda and
  its action is run. The addresses that may change are the head and those the
  action names.
\<close>

definition touched :: "'w env \<Rightarrow> nat \<Rightarrow> evq \<Rightarrow> 'w \<Rightarrow> nat set" where
  "touched env ev s w = Set.insert ev (op_ptr ` set (fst (process env ev s w)))"

lemma serviceOne_outcome:
  assumes c: "closed_evq s ((ev, k) # xs)"
  shows "\<exists>s1 e e1. pop_head s = ret (s1, ev) \<and> closed_evq s1 xs \<and> frame {ev} s s1 \<and> heap s ev = Some e \<and>
    heap s1 ev = Some e1 \<and> ev_data e1 = (e_when e, e_priority e, fl_clear (e_flags e) Scheduled) \<and>
    outcome (\<lambda>(sw', ex). wf_sim (fst sw') \<and> frame (touched env ev s1 w) s (fst sw') \<and>
      (case ex of None \<Rightarrow> True | Some x \<Rightarrow> x = ev \<and> \<not> squashed e1) \<and>
      (\<not> squashed e1 \<and> isExitEvent e1 \<and> ev \<notin> op_ptr ` set (fst (process env ev s1 w)) \<longrightarrow> ex = Some ev))
      (serviceOne env (s, w))"
proof -
  obtain s1 e e1 where p: "pop_head s = ret (s1, ev)" "heap s ev = Some e"
    "heap s1 ev = Some e1" "closed_evq s1 xs" "frame {ev} s s1"
    and dat: "ev_data e1 = (e_when e, e_priority e, fl_clear (e_flags e) Scheduled)"
    using closed_pop [OF c] by blast
  have wf1: "wf_sim s1" using closed_evq_wf [OF p(4)] .
  let ?P = "\<lambda>(sw', ex). wf_sim (fst sw') \<and> frame (touched env ev s1 w) s (fst sw') \<and>
      (case ex of None \<Rightarrow> True | Some x \<Rightarrow> x = ev \<and> \<not> squashed e1) \<and>
      (\<not> squashed e1 \<and> isExitEvent e1 \<and> ev \<notin> op_ptr ` set (fst (process env ev s1 w)) \<longrightarrow> ex = Some ev)"
  obtain ops w1 where pr: "process env ev s1 w = (ops, w1)" by fastforce
  have "outcome ?P (serviceOne env (s, w))"
  proof (cases "squashed e1")
    case True
    let ?s2 = "upd ev (\<lambda>e. e\<lparr>e_flags := fl_clear (e_flags e) Squashed\<rparr>) s1"
    have wf2: "wf_sim ?s2" using wf_sim_unsquash [OF wf1 p(3)] .
    have f2: "frame {ev} s ?s2" by (rule frame_mono [OF frame_trans [OF p(5) frame_upd]]) simp
    have fr: "frame (touched env ev s1 w) s s3" if "frame {ev} ?s2 s3" for s3
      using frame_trans [OF f2 that] by (rule frame_mono) (simp add: touched_def)
    have "serviceOne env (s, w) = bindC (finish_event ev ?s2) (\<lambda>s3. ret ((s3, w), None))"
      using p(1,3) True by (simp add: serviceOne_def)
    moreover have "outcome ?P (bindC (finish_event ev ?s2) (\<lambda>s3. ret ((s3, w), None)))"
      by (rule outcome_bind [OF sane_finish [OF wf2]]) (simp add: fr True)
    ultimately show ?thesis by simp
  next
    case False
    have fr: "frame (touched env ev s1 w) s s2" if "frame (op_ptr ` set ops) s1 s2" for s2
      using frame_trans [OF p(5) that] by (rule frame_mono) (simp add: touched_def pr)
    have fr2: "frame (touched env ev s1 w) s s3" if "frame (op_ptr ` set ops) s1 s2" "frame {ev} s2 s3" for s2 s3
      using frame_trans [OF fr [OF that(1)] that(2)] by (rule frame_mono) (simp add: touched_def)
    let ?g = "\<lambda>s2. bindC (deref s2 ev) (\<lambda>e2.
         if isExitEvent e2 then
           (if fl_isSet (e_flags e2) AutoDelete then fail (Assert ''!AutoDelete'')
            else ret ((s2, w1), Some ev))
         else bindC (finish_event ev s2) (\<lambda>s3. ret ((s3, w1), None)))"
    have run: "serviceOne env (s, w) = bindC (run_ops ops s1) ?g"
      using p(1,3) False pr by (simp add: serviceOne_def)
    have "outcome ?P (?g s2)" if "wf_sim s2 \<and> frame (op_ptr ` set ops) s1 s2" for s2
    proof (cases "heap s2 ev")
      case (Some e2)
      have same: "isExitEvent e2 = isExitEvent e1" if "ev \<notin> op_ptr ` set ops"
        using that \<open>wf_sim s2 \<and> _\<close> Some p(3) ev_data_flags [of e2 e1] by (auto simp: frame_def)
      have "outcome ?P (bindC (finish_event ev s2) (\<lambda>s3. ret ((s3, w1), None)))" if "\<not> isExitEvent e2"
        by (rule outcome_bind [OF sane_finish])
           (use that same \<open>wf_sim s2 \<and> _\<close> fr2 in \<open>auto simp: pr\<close>)
      with Some that fr False show ?thesis by simp
    qed simp
    then show ?thesis unfolding run by (rule outcome_bind [OF sane_run_ops [OF wf1]])
  qed
  with p dat show ?thesis by blast
qed

lemma setFlags_exit [simp]: "setFlags IsExitEvent e = Inr (e\<lparr>e_flags := fl_set (e_flags e) IsExitEvent\<rparr>)"
  and setFlags_auto [simp]: "setFlags AutoDelete e = Inr (e\<lparr>e_flags := fl_set (e_flags e) AutoDelete\<rparr>)"
  by (simp_all add: setFlags_def fl_noneSet_def PublicWrite_def IsExitEvent_def AutoDelete_def)

lemma sane_exitSimLoop: "wf_sim s \<Longrightarrow> sane {alloc env (heap s)} s (exitSimLoop env s)"
proof -
  assume wf: "wf_sim s"
  let ?p = "alloc env (heap s)"
  have "sane ({?p} \<union> {?p}) s (newSimLoopExitEvent ?p s)"
    unfolding newSimLoopExitEvent_def
    using wf by (intro sane_bind sane_new sane_setFlags) simp_all
  from sane_bind [OF this, of "{?p}" "\<lambda>s1. schedule ?p (curTick s1) s1"]
  show ?thesis unfolding exitSimLoop_def Let_def using sane_schedule by simp
qed

lemma sane_StatEvent: "wf_sim s \<Longrightarrow> sane {alloc env (heap s)} s (StatEvent env t s)"
proof -
  assume wf: "wf_sim s"
  let ?p = "alloc env (heap s)"
  have "sane {?p} s1 (bindC (update_live ?p (setFlags AutoDelete) s1) (schedule ?p t))" if "wf_sim s1" for s1
    using sane_bind [OF sane_setFlags [OF that, of ?p AutoDelete] sane_schedule, of ?p "\<lambda>_. t"] by simp
  from sane_bind [OF sane_new [OF wf] this, of "new_event Stat_Event_Pri" ?p]
  show ?thesis unfolding StatEvent_def Let_def by simp
qed

text \<open>
  The environment never hands out an address in use, and leaves the address \<open>L\<close>
  alone: it neither allocates it nor names it in an operation.
\<close>

definition avoids :: "nat \<Rightarrow> 'w env \<Rightarrow> bool" where
  "avoids L env \<longleftrightarrow>
     (\<forall>ev s w. L \<notin> op_ptr ` set (fst (process env ev s w))) \<and>
     (\<forall>s w. L \<notin> op_ptr ` set (fst (poll env s w))) \<and>
     (\<forall>h. finite (dom h) \<longrightarrow> h (alloc env h) = None)"

definition keeps :: "nat \<Rightarrow> evq \<Rightarrow> evq \<Rightarrow> bool" where
  "keeps L s s' \<longleftrightarrow> curTick s' = curTick s \<and> map_option ev_data (heap s' L) = map_option ev_data (heap s L)"

lemma keeps_frame: "frame A s s' \<Longrightarrow> L \<notin> A \<Longrightarrow> keeps L s s'"
  by (simp add: frame_def keeps_def)

lemma keeps_refl [simp]: "keeps L s s"
  by (simp add: keeps_def)

lemma keeps_trans: "keeps L s s' \<Longrightarrow> keeps L s' s'' \<Longrightarrow> keeps L s s''"
  by (simp add: keeps_def)

lemma keeps_live: "keeps L s s' \<Longrightarrow> heap s L \<noteq> None \<Longrightarrow> heap s' L \<noteq> None"
  by (auto simp: keeps_def)

lemma wf_sim_finite: "wf_sim s \<Longrightarrow> finite (dom (heap s))"
  by (auto simp: wf_sim_def closed_evq_def)

lemma alloc_avoids: "avoids L env \<Longrightarrow> wf_sim s \<Longrightarrow> heap s L \<noteq> None \<Longrightarrow> L \<noteq> alloc env (heap s)"
  using wf_sim_finite [of s] by (auto simp: avoids_def)

abbreviation sane_keeps :: "nat \<Rightarrow> evq \<Rightarrow> evq comp \<Rightarrow> bool" where
  "sane_keeps L s \<equiv> outcome (\<lambda>s'. wf_sim s' \<and> keeps L s s')"

lemma sane_to_keeps: "sane A s m \<Longrightarrow> L \<notin> A \<Longrightarrow> sane_keeps L s m"
  by (erule outcome_mono) (auto intro: keeps_frame)

lemma sane_keeps_bind:
  assumes m: "sane_keeps L s m" and live: "heap s L \<noteq> None"
    and f: "\<And>s'. wf_sim s' \<Longrightarrow> heap s' L \<noteq> None \<Longrightarrow> sane_keeps L s' (f s')"
  shows "sane_keeps L s (bindC m f)"
proof (rule outcome_bind [OF m])
  fix s' assume s': "wf_sim s' \<and> keeps L s s'"
  then have "sane_keeps L s' (f s')" using f keeps_live [OF _ live] by blast
  then show "sane_keeps L s (f s')" by (rule outcome_mono) (use s' keeps_trans in blast)
qed

lemma handle_async_outcome:
  assumes av: "avoids L env" and wf: "wf_sim s" and live: "heap s L \<noteq> None"
  shows "outcome (\<lambda>(sw', stop). wf_sim (fst sw') \<and> keeps L s (fst sw')) (handle_async env (s, w))"
proof -
  obtain a w1 where a: "sample env w = (a, w1)" by fastforce
  have stat: "sane_keeps L s (if async_statdump a \<or> async_statreset a then StatEvent env (curTick s) s else ret s)"
    using sane_to_keeps [OF sane_StatEvent [OF wf]] alloc_avoids [OF av wf live] wf by auto
  have exit: "sane_keeps L s1 (if async_exit a then exitSimLoop env s1 else ret s1)"
    if "wf_sim s1" "heap s1 L \<noteq> None" for s1
    using sane_to_keeps [OF sane_exitSimLoop [OF that(1)]] alloc_avoids [OF av that] that by auto
  have ops: "outcome (\<lambda>(sw', stop). wf_sim (fst sw') \<and> keeps L s2 (fst sw'))
      (let (ops, w2) = (if async_io a \<or> async_alarm a then poll env s2 w1 else ([], w1)) in
         bindC (run_ops ops s2) (\<lambda>s3. ret ((s3, w2), async_exception a)))" if "wf_sim s2" for s2
  proof -
    obtain ops w2 where p: "(if async_io a \<or> async_alarm a then poll env s2 w1 else ([], w1)) = (ops, w2)"
      by fastforce
    have "L \<notin> op_ptr ` set ops" using av p unfolding avoids_def by (metis empty_iff fst_conv image_empty list.set(1))
    then have "sane_keeps L s2 (run_ops ops s2)" using sane_to_keeps [OF sane_run_ops [OF that]] by blast
    then show ?thesis unfolding p by (auto intro: outcome_bind)
  qed
  show ?thesis
  proof (cases "async_event a")
    case True
    let ?k = "\<lambda>s2. let (ops, w2) = (if async_io a \<or> async_alarm a then poll env s2 w1 else ([], w1)) in
         bindC (run_ops ops s2) (\<lambda>s3. ret ((s3, w2), async_exception a))"
    have "handle_async env (s, w) = bindC (bindC (if async_statdump a \<or> async_statreset a
        then StatEvent env (curTick s) s else ret s) (\<lambda>s1. if async_exit a then exitSimLoop env s1 else ret s1)) ?k"
      using True a by (simp add: handle_async_def bindC_assoc)
    moreover have "outcome (\<lambda>(sw', stop). wf_sim (fst sw') \<and> keeps L s (fst sw')) \<dots>"
    proof (rule outcome_bind [OF sane_keeps_bind [OF stat live exit]])
      fix s2 assume s2: "wf_sim s2 \<and> keeps L s s2"
      show "outcome (\<lambda>(sw', stop). wf_sim (fst sw') \<and> keeps L s (fst sw')) (?k s2)"
        by (rule outcome_mono [OF ops]) (use s2 keeps_trans in auto)
    qed
    ultimately show ?thesis by simp
  qed (use a wf in \<open>simp add: handle_async_def\<close>)
qed

subsection \<open>The limit of a run\<close>

definition limit_event :: "nat \<Rightarrow> tick \<Rightarrow> evq \<Rightarrow> bool" where
  "limit_event L t s \<longleftrightarrow> (\<exists>e. heap s L = Some e \<and> e_when e = t \<and> e_priority e = Sim_Exit_Pri \<and>
     scheduled e \<and> \<not> squashed e \<and> isExitEvent e \<and> \<not> fl_isSet (e_flags e) AutoDelete)"

lemma limit_event_keeps: "limit_event L t s \<Longrightarrow> keeps L s s' \<Longrightarrow> limit_event L t s'"
proof -
  assume "limit_event L t s" and k: "keeps L s s'"
  then obtain e where e: "heap s L = Some e" "e_when e = t" "e_priority e = Sim_Exit_Pri"
     "scheduled e" "\<not> squashed e" "isExitEvent e" "\<not> fl_isSet (e_flags e) AutoDelete"
    by (auto simp: limit_event_def)
  then obtain e' where e': "heap s' L = Some e'" "ev_data e' = ev_data e" using k by (auto simp: keeps_def)
  with e ev_data_flags [OF e'(2)] show ?thesis unfolding limit_event_def by auto
qed

lemma limit_event_live: "limit_event L t s \<Longrightarrow> heap s L \<noteq> None"
  by (auto simp: limit_event_def)

text \<open>
  One iteration of the loop: the time moves forward to the head event, which is at
  most the limit; unless the head is the limit event itself, the limit event stays
  scheduled.
\<close>

lemma service_head_outcome:
  assumes av: "avoids L env" and wf: "wf_sim s" and lim: "limit_event L t s"
  shows "outcome (\<lambda>(sw', ex). wf_sim (fst sw') \<and> curTick s \<le>s curTick (fst sw') \<and>
      curTick (fst sw') \<le>s t \<and> (ex = Some L \<or> limit_event L t (fst sw'))) (service_head env (s, w))"
proof -
  obtain le where le: "heap s L = Some le" "e_when le = t" "scheduled le" "\<not> squashed le" "isExitEvent le"
    "\<not> fl_isSet (e_flags le) AutoDelete"
    using lim by (auto simp: limit_event_def)
  obtain ys where c0: "closed_evq s ys" using wf by (auto simp: wf_sim_def)
  then have L_in: "L \<in> fst ` set ys" using le by (auto simp: closed_evq_def)
  then obtain ev k xs where ys: "ys = (ev, k) # xs" by (cases ys) auto
  with c0 have c: "closed_evq s ((ev, k) # xs)" by simp
  then have ag: "agenda s ((ev, k) # xs)" by (simp add: closed_evq_def)
  obtain e where e: "heap s ev = Some e" "nextTick s = ret (e_when e)" "fst k = sint (e_when e)"
    using closed_head_time [OF c] by blast
  have "k \<le> ev_key le"
  proof -
    obtain kl where kl: "(L, kl) \<in> set ((ev, k) # xs)" using L_in unfolding ys by (metis imageE prod.collapse)
    then have "kl = ev_key le" using agenda_event [OF ag kl] le(1) by auto
    moreover have "\<forall>x \<in> set ((ev, k) # xs). k \<le> snd x" using agenda_sorted [OF ag] by auto
    ultimately show ?thesis using kl by fastforce
  qed
  then have le_t: "e_when e \<le>s t"
    using e(3) le(2) by (auto simp: ev_key_def word_sle_eq less_eq_prod_def)
  let ?s = "s\<lparr>curTick := e_when e\<rparr>"
  have c': "closed_evq ?s ((ev, k) # xs)" using c by (simp add: closed_curTick)
  obtain s1 e1 where s1: "pop_head ?s = ret (s1, ev)" "heap s1 ev = Some e1"
    "ev_data e1 = (e_when e, e_priority e, fl_clear (e_flags e) Scheduled)"
    "outcome (\<lambda>(sw', ex). wf_sim (fst sw') \<and> frame (touched env ev s1 w) ?s (fst sw') \<and>
      (case ex of None \<Rightarrow> True | Some x \<Rightarrow> x = ev \<and> \<not> squashed e1) \<and>
      (\<not> squashed e1 \<and> isExitEvent e1 \<and> ev \<notin> op_ptr ` set (fst (process env ev s1 w)) \<longrightarrow> ex = Some ev))
      (serviceOne env (?s, w))"
    using serviceOne_outcome [OF c', of env w] e(1) by auto
  have run: "service_head env (s, w) = (if \<not> curTick s \<le>s e_when e then fail (Assert ''event scheduled in the past'')
      else serviceOne env (?s, w))"
    using closed_head_time(1) [OF c] e(2) by (simp add: service_head_def)
  have time: "curTick s' = e_when e" if "frame A ?s s'" for A s'
    using that by (simp add: frame_def)
  show ?thesis
  proof (cases "ev = L")
    case False
    then have "L \<notin> touched env ev s1 w" using av by (auto simp: touched_def avoids_def)
    then have "limit_event L t s'" if "frame (touched env ev s1 w) ?s s'" for s'
      using limit_event_keeps [OF _ keeps_frame [OF that]] lim by (simp add: limit_event_def)
    with s1(4) run le_t time show ?thesis
      by (auto intro!: outcome_mono [OF s1(4)])
  next
    case True
    then have "e = le" using e(1) le(1) by simp
    then have "\<not> squashed e1" "isExitEvent e1"
      using s1(3) le(4,5) by (simp_all add: ev_data_def flag_tests)
    moreover have "ev \<notin> op_ptr ` set (fst (process env ev s1 w))" using av True by (simp add: avoids_def)
    ultimately show ?thesis
      using run le_t time True by (auto intro!: outcome_mono [OF s1(4)])
  qed
qed

text \<open>Partial correctness of the loop: what holds of its result, if it has one.\<close>

definition safe :: "('a \<Rightarrow> bool) \<Rightarrow> 'a comp \<Rightarrow> bool" where
  "safe P m \<longleftrightarrow> (\<forall>y. m = Some y \<longrightarrow> (case y of Inr r \<Rightarrow> P r
     | Inl err \<Rightarrow> (\<exists>msg. err = Assert msg) \<or> err = BadPtr \<or> err = Panic ''Bogus exit event class!''))"

lemma safe_ret [simp]: "safe P (ret r) \<longleftrightarrow> P r"
  and safe_fail [simp]: "safe P (fail (Assert msg))" "safe P (fail BadPtr)"
    "safe P (fail (Panic ''Bogus exit event class!''))"
  by (auto simp: safe_def)

lemma safe_mono: "safe P m \<Longrightarrow> (\<And>r. P r \<Longrightarrow> Q r) \<Longrightarrow> safe Q m"
  by (auto simp: safe_def split: sum.splits)

lemma safe_bind: "outcome P m \<Longrightarrow> (\<And>r. P r \<Longrightarrow> safe Q (f r)) \<Longrightarrow> safe Q (bindC m f)"
  by (auto simp: outcome_def)

definition run_ok :: "evq \<Rightarrow> tick \<Rightarrow> (evq \<times> 'w) \<times> nat option \<Rightarrow> bool" where
  "run_ok s t r \<longleftrightarrow> wf_sim (fst (fst r)) \<and> curTick s \<le>s curTick (fst (fst r)) \<and>
     curTick (fst (fst r)) \<le>s t"

lemma sim_exit_ok:
  assumes ok: "run_ok s t (sw, ex)"
  shows "safe (run_ok s t) (sim_exit env L ev sw)"
proof (cases "heap (fst sw) L")
  case (Some le)
  have wf: "wf_sim (fst sw)" using ok by (simp add: run_ok_def)
  have "upd L squash (fst sw) = upd L (\<lambda>_. le\<lparr>e_flags := fl_set (e_flags le) Squashed\<rparr>) (fst sw)"
    using Some by (simp add: upd_def squash_def)
  then have "wf_sim (upd L squash (fst sw))"
    using wf_sim_flags [OF wf Some, of "fl_set (e_flags le) Squashed"] by simp
  with Some ok show ?thesis by (auto simp: sim_exit_def run_ok_def)
next
  case None
  with ok show ?thesis by (auto simp: sim_exit_def run_ok_def)
qed

lemma run_ok_step: "curTick s \<le>s curTick s' \<Longrightarrow> run_ok s' t r \<Longrightarrow> run_ok s t r"
  by (auto simp: run_ok_def word_sle_eq)

lemma sim_loop_step:
  assumes IH: "\<And>sw. wf_sim (fst sw) \<Longrightarrow> limit_event L t (fst sw) \<Longrightarrow> safe (run_ok (fst sw) t) (loop sw)"
    and av: "avoids L env" and wf: "wf_sim (fst sw)" and lim: "limit_event L t (fst sw)"
  shows "safe (run_ok (fst sw) t) (bindC (service_head env sw) (\<lambda>r. case snd r of
      None \<Rightarrow> bindC (handle_async env (fst r)) (\<lambda>r2. if snd r2 then ret (fst r2, None) else loop (fst r2))
    | Some ev \<Rightarrow> sim_exit env L ev (fst r)))"
proof (rule safe_bind)
  show "outcome (\<lambda>(sw', ex). wf_sim (fst sw') \<and> curTick (fst sw) \<le>s curTick (fst sw') \<and>
      curTick (fst sw') \<le>s t \<and> (ex = Some L \<or> limit_event L t (fst sw'))) (service_head env sw)"
    using service_head_outcome [OF av wf lim, of "snd sw"] by simp
next
  fix r :: "(evq \<times> 'a) \<times> nat option"
  obtain sw1 ex where r: "r = (sw1, ex)" by fastforce
  assume "case r of (sw', ex) \<Rightarrow> wf_sim (fst sw') \<and> curTick (fst sw) \<le>s curTick (fst sw') \<and>
      curTick (fst sw') \<le>s t \<and> (ex = Some L \<or> limit_event L t (fst sw'))"
  then have ok: "run_ok (fst sw) t (sw1, ex)" and lim1: "ex = None \<Longrightarrow> limit_event L t (fst sw1)"
    by (auto simp: r run_ok_def)
  then have wf1: "wf_sim (fst sw1)" and t1: "curTick (fst sw) \<le>s curTick (fst sw1)"
    "curTick (fst sw1) \<le>s t" by (auto simp: run_ok_def)
  have async: "safe (run_ok (fst sw) t) (bindC (handle_async env sw1)
      (\<lambda>r2. if snd r2 then ret (fst r2, None) else loop (fst r2)))" if ex: "ex = None"
  proof (rule safe_bind)
    show "outcome (\<lambda>(sw', stop). wf_sim (fst sw') \<and> keeps L (fst sw1) (fst sw')) (handle_async env sw1)"
      using handle_async_outcome [OF av wf1 limit_event_live [OF lim1 [OF ex]], of "snd sw1"] by simp
  next
    fix r2 :: "(evq \<times> 'a) \<times> bool"
    assume "case r2 of (sw', stop) \<Rightarrow> wf_sim (fst sw') \<and> keeps L (fst sw1) (fst sw')"
    then have r2: "wf_sim (fst (fst r2))" "keeps L (fst sw1) (fst (fst r2))" by auto
    then have now: "curTick (fst (fst r2)) = curTick (fst sw1)" by (simp add: keeps_def)
    have "safe (run_ok (fst (fst r2)) t) (loop (fst r2))"
      using IH r2(1) limit_event_keeps [OF lim1 [OF ex] r2(2)] .
    then have "safe (run_ok (fst sw) t) (loop (fst r2))"
    proof (rule safe_mono)
      fix r3 :: "(evq \<times> 'a) \<times> nat option"
      assume "run_ok (fst (fst r2)) t r3"
      then show "run_ok (fst sw) t r3" by (rule run_ok_step [rotated]) (simp add: now t1(1))
    qed
    with r2(1) now t1 show "safe (run_ok (fst sw) t) (if snd r2 then ret (fst r2, None) else loop (fst r2))"
      by (simp add: run_ok_def)
  qed
  show "safe (run_ok (fst sw) t) (case snd r of
      None \<Rightarrow> bindC (handle_async env (fst r)) (\<lambda>r2. if snd r2 then ret (fst r2, None) else loop (fst r2))
    | Some ev \<Rightarrow> sim_exit env L ev (fst r))"
    using async sim_exit_ok [OF ok] by (cases ex) (simp_all add: r)
qed

lemma sim_loop_ok:
  fixes env :: "'a env" and sw :: "evq \<times> 'a"
  assumes "avoids L env" "wf_sim (fst sw)" "limit_event L t (fst sw)"
  shows "safe (run_ok (fst sw) t) (sim_loop env L sw)"
proof -
  have "avoids L env \<longrightarrow> wf_sim (fst sw) \<longrightarrow> limit_event L t (fst sw) \<longrightarrow> safe (run_ok (fst sw) t) (Some y)"
    if "sim_loop env L sw = Some y" for y
  proof (rule sim_loop.raw_induct [where P = "\<lambda>env L sw y. avoids L env \<longrightarrow> wf_sim (fst sw) \<longrightarrow>
      limit_event L t (fst sw) \<longrightarrow> safe (run_ok (fst sw) t) (Some y)", OF _ that], intro impI)
    fix loop :: "'a env \<Rightarrow> nat \<Rightarrow> evq \<times> 'a \<Rightarrow> ((evq \<times> 'a) \<times> nat option) comp" and env :: "'a env" and L :: nat and sw :: "evq \<times> 'a" and y
    assume IH: "\<And>env L sw y. loop env L sw = Some y \<Longrightarrow> avoids L env \<longrightarrow> wf_sim (fst sw) \<longrightarrow>
        limit_event L t (fst sw) \<longrightarrow> safe (run_ok (fst sw) t) (Some y)"
      and av: "avoids L env" and wf: "wf_sim (fst sw)" and lim: "limit_event L t (fst sw)"
    have "safe (run_ok (fst sw) t) (loop env L sw)" if "wf_sim (fst sw)" "limit_event L t (fst sw)" for sw
      using IH [of env L sw] av that unfolding safe_def by blast
    note step = sim_loop_step [OF this av wf lim]
    assume "bindC (service_head env sw) (\<lambda>r. case snd r of
          None \<Rightarrow> bindC (handle_async env (fst r)) (\<lambda>r2. if snd r2 then ret (fst r2, None) else loop env L (fst r2))
        | Some ev \<Rightarrow> sim_exit env L ev (fst r)) = Some y"
    with step show "safe (run_ok (fst sw) t) (Some y)" by simp
  qed
  then show ?thesis using assms by (auto simp: safe_def)
qed

lemma new_limit:
  assumes wf: "wf_sim s" and new: "heap s L = None"
    and run: "bindC (newSimLoopExitEvent L s) (schedule L t) = ret s2"
  shows "wf_sim s2 \<and> curTick s2 = curTick s \<and> limit_event L t s2"
proof -
  let ?e = "new_event Sim_Exit_Pri" and ?f = "\<lambda>e. e\<lparr>e_flags := fl_set (e_flags e) IsExitEvent\<rparr> :: event"
  define s1 where "s1 = s\<lparr>heap := (heap s)(L \<mapsto> ?f ?e)\<rparr>"
  have ns: "newSimLoopExitEvent L s = ret s1"
    using new by (simp add: newSimLoopExitEvent_def new_at_def update_live_def liftC_def upd_def s1_def
        flip: ret_def)
  have "sane ({L} \<union> {L}) s (newSimLoopExitEvent L s)"
    unfolding newSimLoopExitEvent_def using wf by (intro sane_bind sane_new sane_setFlags) simp_all
  then have wf1: "wf_sim s1" by (simp add: ns)
  then have "sane {L} s1 (schedule L t s1)" by (rule sane_schedule)
  then have wf2: "wf_sim s2" "curTick s2 = curTick s" using run by (auto simp: ns frame_def s1_def)
  obtain xs where ag: "agenda s1 xs" using wf1 by (auto simp: wf_sim_def closed_evq_def)
  have h1: "heap s1 L = Some (?f ?e)" by (simp add: s1_def)
  have fl: "\<not> scheduled (?f ?e)" "initialized (?f ?e)" "isExitEvent (?f ?e)" "\<not> squashed (?f ?e)"
    "\<not> fl_isSet (e_flags (?f ?e)) AutoDelete"
    by (simp_all add: scheduled_def initialized_def isExitEvent_def squashed_def fl_isSet_def fl_set_def
        new_event_def Initialized_def Scheduled_def IsExitEvent_def Squashed_def AutoDelete_def InitMask_def)
  have "curTick s1 \<le> t" using run by (auto simp: ns schedule_def split: if_splits)
  then obtain e' where e': "heap s2 L = Some e'"
    "ev_data e' = (t, e_priority (?f ?e), sched_flags (isMain s1) (e_flags (?f ?e)))"
    using schedule_agenda [OF ag h1 fl(1,2), of t] run by (auto simp: ns)
  then have "limit_event L t s2"
    using fl(3-5)
    by (auto simp: limit_event_def ev_data_def flag_tests sched_flags_def new_event_def)
  with wf2 show ?thesis by simp
qed

lemma simulate_safe:
  assumes wf: "wf_sim s" and av: "avoids (alloc env (heap s)) env"
    and n: "\<not> n <s 0"
  shows "safe (run_ok s (sim_limit (curTick s) n)) (simulate env n (s, w))"
proof -
  let ?L = "alloc env (heap s)" and ?t = "sim_limit (curTick s) n"
  have new: "heap s ?L = None" using av wf_sim_finite [OF wf] by (simp add: avoids_def)
  obtain s1 where s1: "newSimLoopExitEvent ?L s = ret s1" "curTick s1 = curTick s"
    using new by (simp add: newSimLoopExitEvent_def new_at_def update_live_def liftC_def flip: ret_def)
  have "wf_sim s1"
  proof -
    have "sane ({?L} \<union> {?L}) s (newSimLoopExitEvent ?L s)"
      unfolding newSimLoopExitEvent_def using wf by (intro sane_bind sane_new sane_setFlags) simp_all
    then show ?thesis by (simp add: s1)
  qed
  then have oc: "outcome (\<lambda>s2. bindC (newSimLoopExitEvent ?L s) (schedule ?L ?t) = ret s2) (schedule ?L ?t s1)"
    using sane_schedule [of s1 ?L ?t] by (auto simp: outcome_def s1)
  have "simulate env n (s, w) = bindC (schedule ?L ?t s1) (\<lambda>s2. sim_loop env ?L (s2, w))"
    using n by (simp add: simulate_def Let_def s1)
  moreover have "safe (run_ok s ?t) (bindC (schedule ?L ?t s1) (\<lambda>s2. sim_loop env ?L (s2, w)))"
  proof (rule safe_bind [OF oc])
    fix s2 assume "bindC (newSimLoopExitEvent ?L s) (schedule ?L ?t) = ret s2"
    then have s2: "wf_sim s2" "curTick s2 = curTick s" "limit_event ?L ?t s2"
      using new_limit [OF wf new] by auto
    have "safe (run_ok s2 ?t) (sim_loop env ?L (s2, w))"
      using sim_loop_ok [OF av, of "(s2, w)" ?t] s2 by simp
    then show "safe (run_ok s ?t) (sim_loop env ?L (s2, w))"
      by (rule safe_mono) (simp add: run_ok_def s2(2))
  qed
  ultimately show ?thesis by simp
qed

subsection \<open>Termination with passive handlers\<close>

definition quiet :: "'w env \<Rightarrow> bool" where
  "quiet env \<longleftrightarrow> (\<forall>ev s w. process env ev s w = ([], w)) \<and> (\<forall>w. \<not> async_event (fst (sample env w))) \<and>
     (\<forall>ev. simLoopExitClass env ev)"

lemma closed_unsquash:
  assumes c: "closed_evq s xs" and e: "heap s ev = Some e"
  shows "closed_evq (upd ev (\<lambda>e. e\<lparr>e_flags := fl_clear (e_flags e) Squashed\<rparr>) s) xs"
proof -
  let ?e = "e\<lparr>e_flags := fl_clear (e_flags e) Squashed\<rparr>"
  have up: "upd ev (\<lambda>e. e\<lparr>e_flags := fl_clear (e_flags e) Squashed\<rparr>) s = upd ev (\<lambda>_. ?e) s"
    using e by (simp add: upd_def)
  have "agenda (upd ev (\<lambda>_. ?e) s) xs" using c by (intro agenda_flags [OF _ e]) (simp_all add: closed_evq_def)
  with c e show ?thesis unfolding up by (auto simp: closed_evq_def flag_tests split: if_splits)
qed

lemma finish_event_off:
  assumes c: "closed_evq s xs" and e: "heap s ev = Some e" and off: "\<not> scheduled e"
  shows "\<exists>s'. finish_event ev s = ret s' \<and> closed_evq s' xs \<and> frame {ev} s s'"
proof (cases "fl_isSet (e_flags e) AutoDelete")
  case True
  have "ev \<notin> fst ` set xs" using agenda_not_scheduled [OF _ e off] c by (simp add: closed_evq_def)
  then have "closed_evq (s\<lparr>heap := (heap s)(ev := None)\<rparr>) xs" using c by (intro closed_heap_off) auto
  with True e off show ?thesis by (simp add: finish_event_def delete_event_def)
qed (use c e in \<open>simp add: finish_event_def\<close>)

lemma serviceOne_quiet:
  assumes c: "closed_evq s ((ev, k) # xs)" and e: "heap s ev = Some e"
    and q: "quiet env" and ad: "isExitEvent e \<Longrightarrow> \<not> fl_isSet (e_flags e) AutoDelete"
  shows "\<exists>s'. serviceOne env (s, w) = ret ((s', w), if \<not> squashed e \<and> isExitEvent e then Some ev else None) \<and>
    closed_evq s' xs \<and> frame {ev} s s'"
proof -
  obtain s1 e1 where p: "pop_head s = ret (s1, ev)" "heap s1 ev = Some e1"
    "ev_data e1 = (e_when e, e_priority e, fl_clear (e_flags e) Scheduled)" "closed_evq s1 xs" "frame {ev} s s1"
    using closed_pop [OF c] e by auto
  have fl: "squashed e1 = squashed e" "isExitEvent e1 = isExitEvent e" "\<not> scheduled e1"
    "fl_isSet (e_flags e1) AutoDelete = fl_isSet (e_flags e) AutoDelete"
    using p(3) by (simp_all add: ev_data_def flag_tests)
  have pr: "process env ev s1 w = ([], w)" using q by (simp add: quiet_def)
  have fr: "frame {ev} s s'" if "frame {ev} s1 s'" for s' using frame_trans [OF p(5) that] by simp
  show ?thesis
  proof (cases "squashed e")
    case True
    let ?s2 = "upd ev (\<lambda>e. e\<lparr>e_flags := fl_clear (e_flags e) Squashed\<rparr>) s1"
    let ?e2 = "e1\<lparr>e_flags := fl_clear (e_flags e1) Squashed\<rparr>"
    have c2: "closed_evq ?s2 xs" using closed_unsquash [OF p(4,2)] .
    have "heap ?s2 ev = Some ?e2" "\<not> scheduled ?e2" using p(2) fl(3) by (simp_all add: flag_tests)
    then obtain s3 where s3: "finish_event ev ?s2 = ret s3" "closed_evq s3 xs" "frame {ev} ?s2 s3"
      using finish_event_off [OF c2] by blast
    have "frame {ev} s s3" using fr frame_trans [OF frame_upd s3(3)] by auto
    with s3 True p fl show ?thesis by (simp add: serviceOne_def)
  next
    case False
    obtain s3 where "finish_event ev s1 = ret s3" "closed_evq s3 xs" "frame {ev} s1 s3"
      using finish_event_off [OF p(4,2) fl(3)] by blast
    with False p fl pr ad fr show ?thesis by (auto simp: serviceOne_def)
  qed
qed

lemma handle_async_none:
  "\<not> async_event (fst (sample env w)) \<Longrightarrow> \<exists>w'. handle_async env (s, w) = ret ((s, w'), False)"
  by (cases "sample env w") (auto simp: handle_async_def)

lemma sim_loop_quiet:
  assumes "quiet env"
  shows "closed_evq s ys \<Longrightarrow> limit_event L t s \<Longrightarrow> \<forall>x \<in> set ys. sint (curTick s) \<le> fst (snd x) \<Longrightarrow>
    \<forall>x \<in> set ys. \<forall>e. heap s (fst x) = Some e \<longrightarrow> isExitEvent e \<longrightarrow> \<not> fl_isSet (e_flags e) AutoDelete \<Longrightarrow>
    \<exists>sw' ev. sim_loop env L (s, w) = ret (sw', Some ev)"
proof (induction ys arbitrary: s w)
  case Nil
  then show ?case by (auto simp: closed_evq_def limit_event_def)
next
  case (Cons y xs)
  obtain ev k where y: "y = (ev, k)" by (rule prod.exhaust)
  have c: "closed_evq s ((ev, k) # xs)" using Cons.prems(1) y by simp
  obtain e where e: "heap s ev = Some e" "nextTick s = ret (e_when e)" "fst k = sint (e_when e)"
    using closed_head_time [OF c] by blast
  let ?s = "s\<lparr>curTick := e_when e\<rparr>"
  have c': "closed_evq ?s ((ev, k) # xs)" using c by (simp add: closed_curTick)
  have now: "curTick s \<le>s e_when e" using Cons.prems(3) y e(3) by (simp add: word_sle_eq)
  obtain s' where s': "serviceOne env (?s, w) = ret ((s', w), if \<not> squashed e \<and> isExitEvent e then Some ev else None)"
    "closed_evq s' xs" "frame {ev} ?s s'"
    using serviceOne_quiet [OF c' _ assms, of e w] e(1) Cons.prems(4) y by auto
  have sh: "service_head env (s, w) = ret ((s', w), if \<not> squashed e \<and> isExitEvent e then Some ev else None)"
    using closed_head_time(1) [OF c] e(2) now s'(1) by (simp add: service_head_def)
  have lim': "limit_event L t s'" if "ev \<noteq> L"
    using limit_event_keeps [OF _ keeps_frame [OF s'(3)]] that Cons.prems(2) by (simp add: limit_event_def)
  show ?case
  proof (cases "\<not> squashed e \<and> isExitEvent e")
    case True
    have "\<exists>sw'. sim_exit env L ev (s', w) = ret (sw', Some ev)"
      using lim' assms by (auto simp: sim_exit_def quiet_def limit_event_def)
    then obtain sw' where "sim_exit env L ev (s', w) = ret (sw', Some ev)" by blast
    with sh True show ?thesis by (subst sim_loop.simps) auto
  next
    case False
    then have "ev \<noteq> L" using Cons.prems(2) e(1) by (auto simp: limit_event_def)
    obtain w' where w': "handle_async env (s', w) = ret ((s', w'), False)"
      using handle_async_none [of env w s'] assms by (auto simp: quiet_def)
    have "\<forall>x \<in> set xs. sint (curTick s') \<le> fst (snd x)"
    proof -
      have "sorted (map snd ((ev, k) # xs))" using c agenda_sorted unfolding closed_evq_def by blast
      then show ?thesis using s'(3) e(3) by (force simp: frame_def less_eq_prod_def)
    qed
    moreover have "\<not> fl_isSet (e_flags a) AutoDelete"
      if x: "x \<in> set xs" and a: "heap s' (fst x) = Some a" "isExitEvent a" for x a
    proof -
      have "fst x \<noteq> ev"
        using c x agenda_distinct [of s "(ev, k) # xs"] by (auto simp: closed_evq_def)
      then have "map_option ev_data (heap s (fst x)) = Some (ev_data a)"
        using s'(3) a(1) by (metis (no_types, lifting) evq.select_convs(1) evq.surjective evq.update_convs(4)
            frame_def option.map(2) singletonD)
      then obtain b where b: "heap s (fst x) = Some b" "ev_data b = ev_data a" by auto
      then have "\<not> fl_isSet (e_flags b) AutoDelete"
        using Cons.prems(4) x a(2) ev_data_flags [OF b(2)] by (metis list.set_intros(2))
      then show ?thesis using ev_data_flags [OF b(2)] by simp
    qed
    then have "\<forall>x \<in> set xs. \<forall>e. heap s' (fst x) = Some e \<longrightarrow> isExitEvent e \<longrightarrow> \<not> fl_isSet (e_flags e) AutoDelete"
      by blast
    ultimately have "\<exists>sw' ev. sim_loop env L (s', w') = ret (sw', Some ev)"
      using Cons.IH s'(2) lim' [OF \<open>ev \<noteq> L\<close>] by blast
    with sh False w' show ?thesis by (subst sim_loop.simps) simp
  qed
qed

subsection \<open>Termination with handlers that schedule in the future\<close>

text \<open>
  An event is due when it is scheduled at or before the current tick. Handlers whose
  operations schedule only after the current tick make no event due, so at any tick
  the number of due events goes down with every event serviced.
\<close>

definition due :: "evq \<Rightarrow> nat set" where
  "due s = {p. \<exists>e. heap s p = Some e \<and> scheduled e \<and> e_when e \<le>s curTick s}"

fun later :: "tick \<Rightarrow> qop \<Rightarrow> bool" where
  "later now (QSchedule p t) = (now <s t)"
| "later now (QReschedule p t always) = (now <s t)"
| "later now op = True"

definition progressive :: "'w env \<Rightarrow> bool" where
  "progressive env \<longleftrightarrow> (\<forall>ev s w. \<forall>op \<in> set (fst (process env ev s w)). later (curTick s) op) \<and>
     (\<forall>w. \<not> async_event (fst (sample env w)))"

lemma due_finite: "finite (dom (heap s)) \<Longrightarrow> finite (due s)"
  by (erule finite_subset [rotated]) (auto simp: due_def)

lemma frame_event:
  assumes "frame A s s'" "p \<notin> A" "heap s' p = Some e"
  shows "\<exists>e0. heap s p = Some e0 \<and> ev_data e0 = ev_data e"
proof -
  have "map_option ev_data (heap s p) = map_option ev_data (heap s' p)" using assms(1,2) by (simp add: frame_def)
  with assms(3) show ?thesis by auto
qed

lemma due_frame:
  assumes f: "frame {p} s s'" and p: "p \<in> due s' \<Longrightarrow> p \<in> due s"
  shows "due s' \<subseteq> due s"
proof
  fix q assume q: "q \<in> due s'"
  then obtain e where e: "heap s' q = Some e" "scheduled e" "e_when e \<le>s curTick s'" by (auto simp: due_def)
  show "q \<in> due s"
  proof (cases "q = p")
    case False
    then obtain e0 where e0: "heap s q = Some e0" "ev_data e0 = ev_data e" using frame_event [OF f _ e(1)] by auto
    with e ev_data_flags [OF e0(2)] f show ?thesis by (auto simp: due_def frame_def ev_data_def)
  qed (use q p in simp)
qed

lemma update_live_due:
  assumes f: "\<And>e e'. f e = Inr e' \<Longrightarrow> scheduled e' = scheduled e \<and> e_when e' = e_when e"
    and r: "update_live p f s = ret s'" and q: "p \<in> due s'"
  shows "p \<in> due s"
proof (cases "heap s p")
  case (Some e)
  show ?thesis
  proof (cases "f e")
    case (Inr e')
    then have "s' = upd p (\<lambda>_. e') s" using r Some by (simp add: update_live_def liftC_def flip: ret_def)
    with q f [OF Inr] Some show ?thesis by (auto simp: due_def)
  qed (use r Some in \<open>simp add: update_live_def liftC_def ret_def\<close>)
qed (use r in \<open>simp add: update_live_def ret_def fail_def\<close>)

lemma run_op_own_due:
  assumes wf: "wf_sim s" and op: "later (curTick s) x" and r: "run_op x s = ret s'" and q: "op_ptr x \<in> due s'"
  shows "op_ptr x \<in> due s"
proof -
  obtain xs where c: "closed_evq s xs" using wf by (auto simp: wf_sim_def)
  then have ag: "agenda s xs" by (simp add: closed_evq_def)
  have now: "curTick s' = curTick s" using sane_run_op [OF wf, of x] r by (simp add: frame_def)
  obtain e' where e': "heap s' (op_ptr x) = Some e'" "scheduled e'" "e_when e' \<le>s curTick s"
    using q now by (auto simp: due_def)
  show ?thesis
  proof (cases x)
    case (QNew p pri)
    then show ?thesis using r e' by (auto simp: new_at_def split: if_splits)
  next
    case (QDelete p)
    then show ?thesis using r e' by (cases "heap s p") (auto simp: delete_event_def split: if_splits)
  next
    case (QSetFlags p fl)
    then show ?thesis using r q public_write_bits [of fl]
      by (auto simp: setFlags_def assertR_def flag_tests split: if_splits elim!: update_live_due [rotated])
  next
    case (QClearFlags p fl)
    then show ?thesis using r q public_write_bits [of fl]
      by (auto simp: clearFlags_def assertR_def flag_tests split: if_splits elim!: update_live_due [rotated])
  next
    case (QSquash p)
    then show ?thesis using r q by (auto simp: squash_def flag_tests elim!: update_live_due [rotated])
  next
    case (QSchedule p t)
    obtain e where e: "heap s p = Some e" "curTick s \<le> t" "\<not> scheduled e" "initialized e"
      using r QSchedule by (cases "heap s p") (auto simp: schedule_def split: if_splits)
    then show ?thesis using schedule_agenda [OF ag e(1,3,4,2)] r e' QSchedule op
      by (auto simp: ev_data_def word_sle_eq word_sless_alt)
  next
    case (QDeschedule p)
    obtain e where e: "heap s p = Some e" "scheduled e"
      using r QDeschedule by (cases "heap s p") (auto simp: deschedule_def split: if_splits)
    then have p: "p \<in> fst ` set xs" using c by (auto simp: closed_evq_def)
    then show ?thesis using deschedule_agenda [OF ag p] r e' QDeschedule
      by (auto simp: ev_data_def flag_tests desched_flags_def split: if_splits)
  next
    case (QReschedule p t always)
    obtain e where e: "heap s p = Some e" "curTick s \<le>s t" "always \<or> scheduled e" "initialized e"
      using r QReschedule by (cases "heap s p") (auto simp: reschedule_def split: if_splits)
    have on: "scheduled e \<longleftrightarrow> p \<in> fst ` set xs"
      using c e(1) agenda_event [OF ag, of p] by (auto simp: closed_evq_def)
    then show ?thesis using reschedule_agenda [OF ag e(1,4) on e(3,2)] r e' QReschedule op
      by (auto simp: ev_data_def word_sle_eq word_sless_alt)
  qed
qed

lemma run_op_due:
  assumes "wf_sim s" "later (curTick s) x" "run_op x s = ret s'"
  shows "due s' \<subseteq> due s"
proof (rule due_frame)
  show "frame {op_ptr x} s s'" using sane_run_op [OF assms(1), of x] assms(3) by simp
qed (rule run_op_own_due [OF assms])

lemma run_ops_due:
  assumes "wf_sim s" "\<forall>x \<in> set ops. later (curTick s) x" "run_ops ops s = ret s'"
  shows "due s' \<subseteq> due s"
  using assms
proof (induction ops arbitrary: s)
  case (Cons x ops)
  obtain s1 where s1: "run_op x s = ret s1" "run_ops ops s1 = ret s'"
    using Cons.prems(3) by (auto simp: bindC_def ret_def split: option.splits sum.splits)
  have "wf_sim s1" "curTick s1 = curTick s"
    using sane_run_op [OF Cons.prems(1), of x] s1(1) by (auto simp: frame_def)
  then have "due s' \<subseteq> due s1" using Cons.IH [OF _ _ s1(2)] Cons.prems(2) by simp
  also have "\<dots> \<subseteq> due s" using run_op_due [OF Cons.prems(1) _ s1(1)] Cons.prems(2) by simp
  finally show ?case .
qed simp

lemma finish_event_due: "finish_event ev s = ret s' \<Longrightarrow> due s' \<subseteq> due s"
  by (cases "heap s ev") (auto simp: finish_event_def delete_event_def due_def split: if_splits)

lemma serviceOne_due:
  assumes c: "closed_evq s ((ev, k) # xs)" and pg: "progressive env"
    and r: "serviceOne env (s, w) = ret ((s', w'), ex)"
  shows "due s' \<subseteq> due s - {ev}"
proof -
  obtain s1 e e1 where p: "pop_head s = ret (s1, ev)" "heap s1 ev = Some e1" "closed_evq s1 xs" "frame {ev} s s1"
    and e: "heap s ev = Some e" "ev_data e1 = (e_when e, e_priority e, fl_clear (e_flags e) Scheduled)"
    using closed_pop [OF c] by blast
  then have off: "ev \<notin> due s1" by (auto simp: due_def ev_data_def flag_tests)
  with due_frame [OF p(4)] have d1: "due s1 \<subseteq> due s - {ev}" by blast
  have wf1: "wf_sim s1" using closed_evq_wf [OF p(3)] .
  obtain ops w1 where ops: "process env ev s1 w = (ops, w1)" by fastforce
  have lt: "\<forall>x \<in> set ops. later (curTick s1) x" using pg ops unfolding progressive_def by (metis fst_conv)
  have "due s' \<subseteq> due s1"
  proof (cases "squashed e1")
    case True
    let ?s2 = "upd ev (\<lambda>e. e\<lparr>e_flags := fl_clear (e_flags e) Squashed\<rparr>) s1"
    have "due ?s2 \<subseteq> due s1" by (auto simp: due_def flag_tests split: if_splits)
    moreover obtain s3 where "finish_event ev ?s2 = ret s3" "s' = s3"
      using r p(1,2) True by (auto simp: serviceOne_def elim!: bindC_ret_elim)
    ultimately show ?thesis using finish_event_due by blast
  next
    case False
    obtain s2 e2 where s2: "run_ops ops s1 = ret s2" "heap s2 ev = Some e2" "s' = s2 \<or> finish_event ev s2 = ret s'"
      using r p(1,2) False ops by (auto simp: serviceOne_def deref_def elim!: bindC_ret_elim split: if_splits option.splits)
    then have "due s2 \<subseteq> due s1" using run_ops_due [OF wf1 lt] by blast
    with s2(3) finish_event_due show ?thesis by blast
  qed
  with d1 show ?thesis by blast
qed

lemma service_head_due:
  assumes wf: "wf_sim s" and pg: "progressive env" and r: "service_head env (s, w) = ret ((s', w'), ex)"
    and now: "curTick s' = curTick s"
  shows "due s' \<subset> due s"
proof -
  have ne: "\<not> empty_evq s" using r by (auto simp: service_head_def)
  obtain ev k xs where c: "closed_evq s ((ev, k) # xs)" using closed_nonempty [OF wf ne] by blast
  obtain e where e: "heap s ev = Some e" "nextTick s = ret (e_when e)" using closed_head_time [OF c] by blast
  let ?s = "s\<lparr>curTick := e_when e\<rparr>"
  have c': "closed_evq ?s ((ev, k) # xs)" using c by (simp add: closed_curTick)
  have r': "serviceOne env (?s, w) = ret ((s', w'), ex)"
    using r ne e(2) by (auto simp: service_head_def split: if_splits)
  have "outcome (\<lambda>(sw', ex). curTick (fst sw') = e_when e) (serviceOne env (?s, w))"
    using serviceOne_outcome [OF c', of env w] by (auto simp: frame_def elim!: outcome_mono)
  then have "e_when e = curTick s" using r' now by simp
  then have "?s = s" by simp
  then have "due s' \<subseteq> due s - {ev}" using serviceOne_due [OF c' pg r'] by simp
  moreover have "scheduled e" using agenda_event [of s "(ev, k) # xs" ev k] c e(1) by (auto simp: closed_evq_def)
  then have "ev \<in> due s" using e(1) \<open>e_when e = curTick s\<close> by (simp add: due_def word_sle_eq)
  ultimately show ?thesis by blast
qed

lemma sim_exit_total: "sim_exit env L ev sw \<noteq> None"
  by (cases "heap (fst sw) L") (auto simp: sim_exit_def deref_def ret_def fail_def)

lemma sim_loop_total:
  assumes pg: "progressive env" and av: "avoids L env"
  shows "wf_sim (fst sw) \<Longrightarrow> limit_event L t (fst sw) \<Longrightarrow> sim_loop env L sw \<noteq> None"
proof (induction sw rule: wf_induct_rule [OF wf_measures
      [of "[\<lambda>sw. nat (sint t - sint (curTick (fst sw))), \<lambda>sw. card (due (fst sw))]"]])
  case (1 sw)
  let ?f = "\<lambda>sw. nat (sint t - sint (curTick (fst sw)))" and ?g = "\<lambda>sw. card (due (fst sw))"
  have oc: "outcome (\<lambda>(sw', ex). wf_sim (fst sw') \<and> curTick (fst sw) \<le>s curTick (fst sw') \<and>
      curTick (fst sw') \<le>s t \<and> (ex = Some L \<or> limit_event L t (fst sw'))) (service_head env sw)"
    using service_head_outcome [OF av "1.prems", of "snd sw"] by simp
  show ?case
  proof (cases "\<exists>s1 w1. service_head env sw = ret ((s1, w1), None)")
    case True
    then obtain s1 w1 where h: "service_head env sw = ret ((s1, w1), None)" by blast
    then have s1: "wf_sim s1" "curTick (fst sw) \<le>s curTick s1" "curTick s1 \<le>s t" "limit_event L t s1"
      using oc by auto
    obtain w2 where a: "handle_async env (s1, w1) = ret ((s1, w2), False)"
      using handle_async_none [of env w1 s1] pg by (auto simp: progressive_def)
    have "?g (s1, w2) < ?g sw" if "curTick s1 = curTick (fst sw)"
      using service_head_due [OF "1.prems"(1) pg, of "snd sw"] h that
        psubset_card_mono [OF due_finite [OF wf_sim_finite [OF "1.prems"(1)]]] by simp
    moreover have "?f (s1, w2) < ?f sw" if "curTick s1 \<noteq> curTick (fst sw)"
    proof -
      have "sint (curTick s1) \<noteq> sint (curTick (fst sw))" using that signed_word_eqI by blast
      then show ?thesis using s1(2,3) by (simp add: word_sle_eq)
    qed
    ultimately have "((s1, w2), sw) \<in> measures [?f, ?g]" by (cases "curTick s1 = curTick (fst sw)") auto
    then have "sim_loop env L (s1, w2) \<noteq> None" using "1.IH" s1(1,4) by simp
    then show ?thesis by (subst sim_loop.simps) (simp add: h a)
  next
    case False
    then show ?thesis using oc sim_exit_total
      by (subst sim_loop.simps) (auto simp: outcome_def split: option.splits)
  qed
qed

lemma uint_nonneg_signed: "0 \<le>s (x :: tick) \<Longrightarrow> uint x = sint x \<and> 0 \<le> sint x \<and> sint x < 2 ^ 63"
proof -
  assume "0 \<le>s x"
  then have b: "0 \<le> sint x" "sint x < 2 ^ 63" using sint_lt [of x] by (simp_all add: word_sle_eq)
  then have "uint x = sint x" unfolding uint_sint by (intro take_bit_int_eq_self) simp_all
  with b show ?thesis by simp
qed

lemma sim_limit_later:
  assumes now: "0 \<le>s now" and n: "\<not> n <s 0"
  shows "now \<le> sim_limit now n" "now \<le>s sim_limit now n"
proof -
  have nn: "0 \<le>s n" using n by (simp add: word_sle_eq word_sless_alt)
  note u = uint_nonneg_signed [OF now] uint_nonneg_signed [OF nn]
  have "sint now \<le> sint (sim_limit now n) \<and> 0 \<le>s sim_limit now n"
  proof (cases "now + n <s 0")
    case True
    then show ?thesis using u by (simp add: sim_limit_def MaxTick_def word_sle_eq)
  next
    case False
    then have s: "0 \<le>s now + n" by (simp add: word_sle_eq word_sless_alt)
    have "uint (now + n) = uint now + uint n"
      unfolding uint_word_ariths using u by (intro mod_pos_pos_trivial) simp_all
    then show ?thesis using uint_nonneg_signed [OF s] u s False by (simp add: sim_limit_def)
  qed
  then show "now \<le> sim_limit now n" "now \<le>s sim_limit now n"
    using uint_nonneg_signed [of "sim_limit now n"] u by (simp_all add: word_le_def word_sle_eq)
qed

lemma new_limit_runs:
  assumes wf: "wf_sim s" and new: "heap s L = None" and now: "0 \<le>s curTick s" and n: "\<not> n <s 0"
  shows "\<exists>s1 s2. newSimLoopExitEvent L s = ret s1 \<and> curTick s1 = curTick s \<and>
    schedule L (sim_limit (curTick s) n) s1 = ret s2 \<and> frame {L} s s2"
proof -
  let ?t = "sim_limit (curTick s) n"
  let ?e = "(new_event Sim_Exit_Pri)\<lparr>e_flags := fl_set (e_flags (new_event Sim_Exit_Pri)) IsExitEvent\<rparr>"
  define s1 where "s1 = s\<lparr>heap := (heap s)(L \<mapsto> ?e)\<rparr>"
  have ns: "newSimLoopExitEvent L s = ret s1"
    using new by (simp add: newSimLoopExitEvent_def new_at_def update_live_def liftC_def upd_def s1_def
        flip: ret_def)
  have sn: "sane ({L} \<union> {L}) s (newSimLoopExitEvent L s)"
    unfolding newSimLoopExitEvent_def using wf by (intro sane_bind sane_new sane_setFlags) simp_all
  obtain xs where ag: "agenda s1 xs" using sn by (auto simp: ns wf_sim_def closed_evq_def)
  have "\<not> scheduled ?e" "initialized ?e"
    by (simp_all add: scheduled_def initialized_def fl_isSet_def fl_set_def new_event_def Initialized_def
        Scheduled_def IsExitEvent_def InitMask_def)
  moreover have "curTick s1 \<le> ?t" using sim_limit_later [OF now n] by (simp add: s1_def)
  ultimately obtain s2 where "schedule L ?t s1 = ret s2" "others L s1 s2"
    using schedule_agenda [OF ag, of L ?e ?t] by (auto simp: s1_def)
  moreover have "frame ({L} \<union> {L}) s s2" using frame_trans [of "{L}" s s1 "{L}" s2] frame_others [OF calculation(2)] sn by (simp add: ns)
  ultimately show ?thesis using ns by (auto simp: s1_def)
qed

lemma simulate_unfold:
  assumes "\<not> n <s 0" "newSimLoopExitEvent (alloc env (heap s)) s = ret s1" "curTick s1 = curTick s"
  shows "simulate env n (s, w) = bindC (schedule (alloc env (heap s)) (sim_limit (curTick s) n) s1)
    (\<lambda>s2. sim_loop env (alloc env (heap s)) (s2, w))"
  using assms by (simp add: simulate_def Let_def)

lemma simulate_total:
  assumes wf: "wf_sim s" and av: "avoids (alloc env (heap s)) env" and pg: "progressive env"
  shows "simulate env n (s, w) \<noteq> None"
proof (cases "n <s 0")
  case False
  let ?L = "alloc env (heap s)" and ?t = "sim_limit (curTick s) n"
  have new: "heap s ?L = None" using av wf_sim_finite [OF wf] by (simp add: avoids_def)
  have sn: "sane ({?L} \<union> {?L}) s (newSimLoopExitEvent ?L s)"
    unfolding newSimLoopExitEvent_def using wf by (intro sane_bind sane_new sane_setFlags) simp_all
  obtain s1 where s1: "newSimLoopExitEvent ?L s = ret s1" "curTick s1 = curTick s"
    using new by (simp add: newSimLoopExitEvent_def new_at_def update_live_def liftC_def flip: ret_def)
  then have oc: "sane {?L} s1 (schedule ?L ?t s1)" using sn by (auto intro: sane_schedule)
  show ?thesis
  proof (cases "\<exists>s2. schedule ?L ?t s1 = ret s2")
    case True
    then obtain s2 where s2: "schedule ?L ?t s1 = ret s2" by blast
    then have "wf_sim s2" "limit_event ?L ?t s2" using new_limit [OF wf new, of ?t s2] s1 by auto
    then have "sim_loop env ?L (s2, w) \<noteq> None" using sim_loop_total [OF pg av, of "(s2, w)" ?t] by simp
    then show ?thesis by (simp add: simulate_unfold [OF False s1] s2)
  next
    case False': False
    then show ?thesis using oc by (auto simp: simulate_unfold [OF False s1] outcome_def)
  qed
qed (simp add: simulate_def fail_def)

lemma limit_agenda:
  assumes f: "frame {L} s s2" and c: "closed_evq s xs" and c2: "closed_evq s2 ys"
    and lim: "limit_event L t s2" and x: "x \<in> set ys"
  shows "fst x = L \<and> fst (snd x) = sint t \<or> x \<in> set xs"
proof -
  obtain e where e: "heap s2 (fst x) = Some e" "scheduled e" "snd x = ev_key e"
    using agenda_event [of s2 ys "fst x" "snd x"] c2 x by (auto simp: closed_evq_def)
  show ?thesis
  proof (cases "fst x = L")
    case True
    then show ?thesis using e lim by (auto simp: limit_event_def ev_key_def)
  next
    case False
    then obtain e0 where e0: "heap s (fst x) = Some e0" "ev_data e0 = ev_data e"
      using frame_event [OF f _ e(1)] by auto
    then have "fst x \<in> fst ` set xs" using c e(2) ev_data_flags [OF e0(2)] by (auto simp: closed_evq_def)
    then obtain k where k: "(fst x, k) \<in> set xs" by force
    then have "k = ev_key e0" using agenda_event [of s xs "fst x" k] c e0(1) by (auto simp: closed_evq_def)
    then have "k = snd x" using e(3) e0(2) by (simp add: ev_key_def ev_data_def)
    with k show ?thesis by simp
  qed
qed

subsection \<open>Properties\<close>

text \<open>
  A sample environment: passive handlers, no signals, and an allocator that returns an
  address above all addresses in use.
\<close>

definition passive_env :: "unit env" where
  "passive_env = \<lparr>process = \<lambda>ev s w. ([], w), alloc = \<lambda>h. Suc (Max (Set.insert 0 (dom h))),
     sample = \<lambda>w. (\<lparr>async_event = False, async_statdump = False, async_statreset = False, async_exit = False,
       async_io = False, async_alarm = False, async_exception = False\<rparr>, w),
     poll = \<lambda>s w. ([], w), simLoopExitClass = \<lambda>_. True\<rparr>"

lemma passive_alloc: "finite (dom h) \<Longrightarrow> h (alloc passive_env h) = None"
proof (rule ccontr)
  assume fin: "finite (dom h)" and "h (alloc passive_env h) \<noteq> None"
  then have "Suc (Max (Set.insert 0 (dom h))) \<in> Set.insert 0 (dom h)" by (auto simp: passive_env_def)
  then have "Suc (Max (Set.insert 0 (dom h))) \<le> Max (Set.insert 0 (dom h))" using fin by (intro Max_ge) simp_all
  then show False by simp
qed

lemma passive_ok: "quiet passive_env" "progressive passive_env" "avoids L passive_env"
proof -
  show "quiet passive_env" "progressive passive_env"
    by (simp_all add: quiet_def progressive_def passive_env_def)
  have "process passive_env ev s w = ([], w)" "poll passive_env s w = ([], w)" for ev s w
    by (simp_all add: passive_env_def)
  then show "avoids L passive_env" using passive_alloc by (simp add: avoids_def)
qed

lemma sample_ticks: "curTick (busy_queue auto tr) = 5" "0 \<le>s (5 :: tick)" "\<not> (100 :: tick) <s 0" "\<not> (105 :: tick) <s 0"
  by (simp_all add: busy_queue_def word_sle_eq word_sless_alt)

lemma closed_busy: "closed_evq (busy_queue auto tr) [(0, 7, 50)]"
  using agenda_busy [of auto tr] by (simp add: closed_evq_def) (simp add: busy_queue_def)

lemma wf_busy: "wf_sim (busy_queue auto tr)"
  using closed_busy by (auto simp: wf_sim_def)

text \<open>
  C4: Whatever sequence of operations of the public interface a handler performs on a
  well-formed queue, the sequence ends. Either all operations return and the queue is
  well formed again at the same tick, or one of them stops at a failed assertion or at
  a freed event; the panics inside the queue are never reached.
\<close>

theorem handler_keeps_queue:
  assumes "wf_sim s"
  shows "(\<exists>s'. run_ops ops s = ret s' \<and> wf_sim s' \<and> curTick s' = curTick s) \<or>
    (\<exists>msg. run_ops ops s = fail (Assert msg)) \<or> run_ops ops s = fail BadPtr"
  using sane_run_ops [OF assms, of ops] by (auto simp: outcome_def frame_def)

lemma sample_ops: "case run_ops [QSquash 0, QReschedule 0 9 False] (busy_queue False False) of Some (Inr _) \<Rightarrow> True | _ \<Rightarrow> False"
  by code_simp

theorem handler_keeps_queue_witness:
  "\<exists>s'. run_ops [QSquash 0, QReschedule 0 9 False] (busy_queue False False) = ret s' \<and> wf_sim s' \<and> curTick s' = 5"
  using handler_keeps_queue [OF wf_busy [of False False], of "[QSquash 0, QReschedule 0 9 False]"] sample_ops
  by (auto simp: sample_ticks ret_def fail_def)

text \<open>
  C5: Whatever the handlers do short of touching the limit event, a run of \<open>simulate\<close> that
  returns leaves a well-formed queue, and the time has not moved backwards nor past the
  limit; a run that stops with an error stops at an assertion, at a freed event or at an
  exit event of an unknown class.
\<close>

theorem simulate_bounds:
  assumes "wf_sim s" "avoids (alloc env (heap s)) env" "\<not> n <s 0"
  shows "safe (\<lambda>((s', w'), ex). wf_sim s' \<and> curTick s \<le>s curTick s' \<and> curTick s' \<le>s sim_limit (curTick s) n)
    (simulate env n (s, w))"
  using simulate_safe [OF assms, of w] by (rule safe_mono) (auto simp: run_ok_def)

theorem simulate_bounds_witness:
  "safe (\<lambda>((s', w'), ex). wf_sim s' \<and> 5 \<le>s curTick s' \<and> curTick s' \<le>s 105)
    (simulate passive_env 100 (busy_queue False False, ()))"
  using simulate_bounds [OF wf_busy passive_ok(3), of 100 False False "()"]
  by (simp add: sample_ticks sim_limit_def)

text \<open>
  C6: A run of \<open>simulate\<close> ends when every handler schedules strictly later than the current
  tick and leaves the limit event alone, and no signal arrives, although handlers may keep scheduling events forever: the
  limit event stops the loop.
\<close>

theorem simulate_terminates:
  assumes "wf_sim s" "avoids (alloc env (heap s)) env" "progressive env"
  shows "\<exists>y. simulate env n (s, w) = Some y"
  using simulate_total [OF assms] by simp

theorem simulate_terminates_witness: "\<exists>y. simulate passive_env 100 (busy_queue True False, ()) = Some y"
  using simulate_terminates [OF wf_busy passive_ok(3) passive_ok(2)] .

text \<open>
  C8: With passive handlers, no signal, no event in the past and no exit event that is deleted
  automatically, \<open>simulate\<close> called with a number of cycles that is not negative returns an exit
  event; it does not stop with an error.
\<close>

theorem simulate_returns:
  assumes c: "closed_evq s xs" and q: "quiet env" and al: "\<forall>h. finite (dom h) \<longrightarrow> h (alloc env h) = None"
    and now: "0 \<le>s curTick s" "\<forall>x \<in> set xs. sint (curTick s) \<le> fst (snd x)" and n: "\<not> n <s 0"
    and ad: "\<forall>x \<in> set xs. \<forall>e. heap s (fst x) = Some e \<longrightarrow> isExitEvent e \<longrightarrow> \<not> fl_isSet (e_flags e) AutoDelete"
  shows "\<exists>sw' ev. simulate env n (s, w) = ret (sw', Some ev)"
proof -
  let ?L = "alloc env (heap s)" and ?t = "sim_limit (curTick s) n"
  have wf: "wf_sim s" using closed_evq_wf [OF c] .
  have new: "heap s ?L = None" using al wf_sim_finite [OF wf] by simp
  obtain s1 s2 where s1: "newSimLoopExitEvent ?L s = ret s1" "curTick s1 = curTick s"
      and s2: "schedule ?L ?t s1 = ret s2" and f: "frame {?L} s s2"
    using new_limit_runs [OF wf new now(1) n] by blast
  have "wf_sim s2" and lim: "limit_event ?L ?t s2" using new_limit [OF wf new, of ?t s2] s1 s2 by auto
  then obtain ys where ys: "closed_evq s2 ys" by (auto simp: wf_sim_def)
  have now2: "curTick s2 = curTick s" using f by (simp add: frame_def)
  note cases = limit_agenda [OF f c ys lim]
  have "sint (curTick s2) \<le> fst (snd x)" if "x \<in> set ys" for x
    using cases [OF that] now(2) sim_limit_later(2) [OF now(1) n] now2 by (auto simp: word_sle_eq)
  moreover have "\<not> fl_isSet (e_flags e) AutoDelete"
    if x: "x \<in> set ys" and e: "heap s2 (fst x) = Some e" "isExitEvent e" for x e
  proof (cases "fst x = ?L")
    case True
    then show ?thesis using lim e(1) by (auto simp: limit_event_def)
  next
    case False
    then obtain e0 where e0: "heap s (fst x) = Some e0" "ev_data e0 = ev_data e"
      using frame_event [OF f _ e(1)] by auto
    then show ?thesis using ad cases [OF x] False e(2) ev_data_flags [OF e0(2)] by metis
  qed
  ultimately have "\<exists>sw' ev. sim_loop env ?L (s2, w) = ret (sw', Some ev)"
    using sim_loop_quiet [OF q ys lim, of w] by blast
  then show ?thesis by (simp add: simulate_unfold [OF n s1] s2)
qed

theorem simulate_returns_witness: "\<exists>sw' ev. simulate passive_env 100 (busy_queue False False, ()) = ret (sw', Some ev)"
proof -
  have "\<not> fl_isSet (e_flags e) AutoDelete" if "heap (busy_queue False False) 0 = Some e" for e
    using busy_event [of False False] that by auto
  then show ?thesis
    using simulate_returns [OF closed_busy [of False False] passive_ok(1), of 100 "()"] passive_alloc
    by (simp add: sample_ticks)
qed

end
