(* ===== verification/Byte_Memory.thy ===== *)
theory Byte_Memory
  imports M5_Prelude
begin

unbundle bit_operations_syntax

section \<open>Byte buffers\<close>

text \<open>
  The heap of byte buffers behind the \<^verbatim>\<open>uint8_t *\<close> pointers of the memory system:
  packet payloads, cache block data and the host copy of physical memory. A
  pointer is a block together with an offset, as pointer arithmetic never leaves
  the block it started in; a deleted block is unmapped, and an access outside the
  block is the error \<^const>\<open>BadPtr\<close>. The contents of a fresh array are arbitrary: they
  come from the field \<open>junk\<close>, which nothing constrains.
\<close>

type_synonym ptr = "nat \<times> int"

datatype akind = NewObject | NewArray

record bmem =
  blocks :: "nat \<Rightarrow> (akind \<times> uint8 list) option"
  brk :: nat
  junk :: "nat \<Rightarrow> nat \<Rightarrow> uint8"

definition bmem_ok :: "bmem \<Rightarrow> bool" where
  "bmem_ok m \<longleftrightarrow> (\<forall>b\<ge>brk m. blocks m b = None)"

definition ptr_add :: "ptr \<Rightarrow> int \<Rightarrow> ptr" where
  "ptr_add p i = (fst p, snd p + i)"

definition read_bytes :: "bmem \<Rightarrow> ptr \<Rightarrow> nat \<Rightarrow> uint8 list res" where
  "read_bytes m p n = (case blocks m (fst p) of None \<Rightarrow> Inl BadPtr
     | Some (k, bs) \<Rightarrow> if 0 \<le> snd p \<and> snd p + int n \<le> int (length bs)
         then Inr (take n (drop (nat (snd p)) bs)) else Inl BadPtr)"

definition overwrite :: "nat \<Rightarrow> 'a list \<Rightarrow> 'a list \<Rightarrow> 'a list" where
  "overwrite i xs bs = take i bs @ xs @ drop (i + length xs) bs"

definition write_bytes :: "bmem \<Rightarrow> ptr \<Rightarrow> uint8 list \<Rightarrow> bmem res" where
  "write_bytes m p xs = (case blocks m (fst p) of None \<Rightarrow> Inl BadPtr
     | Some (k, bs) \<Rightarrow> if 0 \<le> snd p \<and> snd p + int (length xs) \<le> int (length bs)
         then Inr (m\<lparr>blocks := (blocks m)(fst p \<mapsto> (k, overwrite (nat (snd p)) xs bs))\<rparr>)
         else Inl BadPtr)"

definition memcpy :: "bmem \<Rightarrow> ptr \<Rightarrow> ptr \<Rightarrow> nat \<Rightarrow> bmem res" where
  "memcpy m dst src n = bindR (read_bytes m src n) (write_bytes m dst)"

definition new_array :: "bmem \<Rightarrow> nat \<Rightarrow> bmem \<times> ptr" where
  "new_array m n = (m\<lparr>blocks := (blocks m)(brk m \<mapsto> (NewArray, map (junk m (brk m)) [0..<n])),
     brk := Suc (brk m)\<rparr>, (brk m, 0))"

definition delete_bytes :: "akind \<Rightarrow> bmem \<Rightarrow> ptr option \<Rightarrow> bmem res" where
  "delete_bytes kind m p = (case p of None \<Rightarrow> Inr m
     | Some (b, i) \<Rightarrow> (case blocks m b of None \<Rightarrow> Inl BadPtr
         | Some (k, bs) \<Rightarrow> if i = 0 \<and> k = kind then Inr (m\<lparr>blocks := (blocks m)(b := None)\<rparr>)
             else Inl BadPtr))"

text \<open>
  \<open>holds m p xs\<close>: the bytes at \<open>p\<close> are \<open>xs\<close>; the payloads of the memory system are
  described by it.
\<close>

definition holds :: "bmem \<Rightarrow> ptr \<Rightarrow> uint8 list \<Rightarrow> bool" where
  "holds m p xs \<longleftrightarrow> read_bytes m p (length xs) = Inr xs"

lemma length_overwrite [simp]:
  "i + length xs \<le> length bs \<Longrightarrow> length (overwrite i xs bs) = length bs"
  by (simp add: overwrite_def)

lemma nth_overwrite:
  "i + length xs \<le> length bs \<Longrightarrow> j < length bs \<Longrightarrow>
    overwrite i xs bs ! j = (if i \<le> j \<and> j < i + length xs then xs ! (j - i) else bs ! j)"
  by (auto simp: overwrite_def nth_append)

lemma take_drop_overwrite [simp]:
  "i + length xs \<le> length bs \<Longrightarrow> take (length xs) (drop i (overwrite i xs bs)) = xs"
  by (simp add: overwrite_def)

lemma overwrite_all: "length xs = length bs \<Longrightarrow> overwrite 0 xs bs = xs"
  by (simp add: overwrite_def)

lemma read_bytes_length: "read_bytes m p n = Inr xs \<Longrightarrow> length xs = n"
  by (auto simp: read_bytes_def split: option.splits if_splits)

lemma read_bytes_other:
  "write_bytes m p xs = Inr m' \<Longrightarrow> fst q \<noteq> fst p \<Longrightarrow> read_bytes m' q n = read_bytes m q n"
  by (auto simp: read_bytes_def write_bytes_def split: option.splits if_splits)

lemma read_bytes_same: "write_bytes m p xs = Inr m' \<Longrightarrow> holds m' p xs"
  by (auto simp: holds_def read_bytes_def write_bytes_def split: option.splits if_splits)

lemma holds_other: "write_bytes m p xs = Inr m' \<Longrightarrow> fst q \<noteq> fst p \<Longrightarrow> holds m' q ys = holds m q ys"
  by (simp add: holds_def read_bytes_other)

lemma holds_nth:
  assumes "holds m p xs"
  obtains k bs where "blocks m (fst p) = Some (k, bs)" "0 \<le> snd p"
    "nat (snd p) + length xs \<le> length bs" "\<And>i. i < length xs \<Longrightarrow> bs ! (nat (snd p) + i) = xs ! i"
proof -
  obtain k bs where b: "blocks m (fst p) = Some (k, bs)" "0 \<le> snd p"
      "snd p + int (length xs) \<le> int (length bs)"
      "take (length xs) (drop (nat (snd p)) bs) = xs"
    using assms by (auto simp: holds_def read_bytes_def split: option.splits if_splits)
  have len: "nat (snd p) + length xs \<le> length bs" using b by linarith
  have "bs ! (nat (snd p) + i) = xs ! i" if "i < length xs" for i
  proof -
    have "xs ! i = take (length xs) (drop (nat (snd p)) bs) ! i" using b(4) by simp
    also have "\<dots> = bs ! (nat (snd p) + i)" using that len by simp
    finally show ?thesis by simp
  qed
  then show ?thesis using that b len by blast
qed

lemma holds_slice:
  assumes "holds m p xs" "i + n \<le> length xs" "q = ptr_add p (int i)"
  shows "read_bytes m q n = Inr (take n (drop i xs))"
proof -
  obtain k bs where b: "blocks m (fst p) = Some (k, bs)" "0 \<le> snd p"
      "snd p + int (length xs) \<le> int (length bs)"
      "take (length xs) (drop (nat (snd p)) bs) = xs"
    using assms(1) by (auto simp: holds_def read_bytes_def split: option.splits if_splits)
  have "take n (drop i xs) = take n (drop i (take (length xs) (drop (nat (snd p)) bs)))"
    using b(4) by simp
  also have "\<dots> = take n (drop (nat (snd p) + i) bs)"
    using assms(2) by (simp add: take_drop add.commute min_def)
  finally have "take n (drop (nat (snd p) + i) bs) = take n (drop i xs)" by simp
  then show ?thesis
    using b assms(2,3) by (simp add: read_bytes_def ptr_add_def nat_add_distrib)
qed

lemma write_bytes_holds:
  assumes "holds m p bs" "i + length xs \<le> length bs" "q = ptr_add p (int i)"
  obtains m' where "write_bytes m q xs = Inr m'" "holds m' p (overwrite i xs bs)"
    "brk m' = brk m" "junk m' = junk m"
proof -
  obtain k cs where b: "blocks m (fst p) = Some (k, cs)" "0 \<le> snd p"
      "nat (snd p) + length bs \<le> length cs"
      "\<And>i. i < length bs \<Longrightarrow> cs ! (nat (snd p) + i) = bs ! i"
    using holds_nth [OF assms(1)] by metis
  define j where "j = nat (snd p)"
  define m' where "m' = m\<lparr>blocks := (blocks m)(fst p \<mapsto> (k, overwrite (j + i) xs cs))\<rparr>"
  have w: "write_bytes m q xs = Inr m'"
    using b assms(2,3) by (simp add: write_bytes_def ptr_add_def m'_def j_def nat_add_distrib)
  have "take (length bs) (drop j (overwrite (j + i) xs cs)) = overwrite i xs bs"
    using assms(2) b(3,4) by (intro nth_equalityI) (auto simp: nth_overwrite j_def)
  then have "holds m' p (overwrite i xs bs)"
    using assms(2) b by (simp add: holds_def read_bytes_def m'_def j_def [symmetric])
      (simp add: j_def)
  with w show ?thesis using that by (simp add: m'_def)
qed

lemma write_bytes_frame:
  "write_bytes m p xs = Inr m' \<Longrightarrow> b \<noteq> fst p \<Longrightarrow> blocks m' b = blocks m b"
  "write_bytes m p xs = Inr m' \<Longrightarrow> brk m' = brk m"
  by (auto simp: write_bytes_def split: option.splits if_splits)

text \<open>
  \<open>same_outside p n m m'\<close>: the two heaps differ at most in the \<open>n\<close> bytes at \<open>p\<close>; every other
  buffer and the rest of the buffer of \<open>p\<close> are the same.
\<close>

definition same_outside :: "ptr \<Rightarrow> nat \<Rightarrow> bmem \<Rightarrow> bmem \<Rightarrow> bool" where
  "same_outside p n m m' \<longleftrightarrow> brk m' = brk m \<and> junk m' = junk m \<and> (\<forall>b. b \<noteq> fst p \<longrightarrow> blocks m' b = blocks m b) \<and>
     (\<forall>k cs. blocks m (fst p) = Some (k, cs) \<longrightarrow> (\<exists>cs'. blocks m' (fst p) = Some (k, cs') \<and> length cs' = length cs \<and>
        (\<forall>i < length cs. int i < snd p \<or> snd p + int n \<le> int i \<longrightarrow> cs' ! i = cs ! i)))"

lemma write_outside:
  assumes "write_bytes m (ptr_add p (int i)) xs = Inr m'" "i + length xs \<le> n" "0 \<le> snd p"
  shows "same_outside p n m m'"
proof -
  obtain b j where p: "p = (b, int j)" using assms(3) by (metis eq_nat_nat_iff nat_0_le prod.collapse)
  obtain k cs where c: "blocks m b = Some (k, cs)" "j + i + length xs \<le> length cs"
      "m' = m\<lparr>blocks := (blocks m)(b \<mapsto> (k, overwrite (j + i) xs cs))\<rparr>"
    using assms(1) unfolding p by (auto simp: write_bytes_def ptr_add_def nat_int_add split: option.splits if_splits)
  have "overwrite (j + i) xs cs ! x = cs ! x" if "x < length cs" "x < j \<or> j + n \<le> x" for x
    using that assms(2) c(2) by (auto simp: nth_overwrite)
  then show ?thesis using c by (auto simp: same_outside_def p)
qed

lemma write_bytes_ok:
  assumes "write_bytes m p xs = Inr m'"
  shows "bmem_ok m' \<longleftrightarrow> bmem_ok m"
proof -
  have "blocks m' b = None \<longleftrightarrow> blocks m b = None" for b
    using assms by (auto simp: write_bytes_def split: option.splits if_splits)
  then show ?thesis using write_bytes_frame(2) [OF assms] by (simp add: bmem_ok_def)
qed

lemma new_array_holds:
  assumes "new_array m n = (m', p)"
  shows "p = (brk m, 0)" "holds m' p (map (junk m (brk m)) [0..<n])"
    and "fst q \<noteq> brk m \<Longrightarrow> holds m' q xs = holds m q xs"
  using assms by (auto simp: new_array_def holds_def read_bytes_def)

lemma holds_old:
  assumes "bmem_ok m" "holds m p xs" "new_array m n = (m', q)"
  shows "fst p \<noteq> fst q" "holds m' p xs"
proof -
  have "blocks m (fst p) \<noteq> None" using assms(2) by (auto simp: holds_def read_bytes_def split: option.splits)
  then show f: "fst p \<noteq> fst q"
    using assms(1) new_array_holds(1) [OF assms(3)] by (force simp: bmem_ok_def)
  then show "holds m' p xs" using assms new_array_holds [OF assms(3)] by simp
qed

end
