(* ===== verification/Request.thy ===== *)
theory Request
  imports M5_Prelude
begin

unbundle bit_operations_syntax

section \<open>Memory requests\<close>

text \<open>
  Model of \<^verbatim>\<open>src/src/mem/request.hh\<close>. A request is the object that travels from the
  requester to the final destination; its fields are valid only when the matching
  private flag is set, and the accessors assert that. The minimal constructor
  initialises the two flag words only, so it takes the previous contents of the
  object as an argument.

  The lemmas describe what a reused request keeps, when the accessors succeed, and
  that splitting a request covers exactly the bytes of the original.
\<close>

record request =
  r_paddr :: addr
  r_size :: "32 word"
  r_flags :: uint32
  privateFlags :: uint8
  r_time :: tick
  r_asid :: "32 word"
  r_vaddr :: addr
  r_extraData :: "64 word"
  r_contextId :: "32 word"
  r_threadId :: "32 word"
  r_pc :: addr

definition ASI_BITS :: uint32 where "ASI_BITS = 0x000000FF"
definition INST_FETCH :: uint32 where "INST_FETCH = 0x00000100"
definition UNCACHEABLE :: uint32 where "UNCACHEABLE = 0x00001000"
definition MMAPED_IPR :: uint32 where "MMAPED_IPR = 0x00002000"
definition NO_ALIGN_FAULT :: uint32 where "NO_ALIGN_FAULT = 0x00020000"
definition NO_HALF_WORD_ALIGN_FAULT :: uint32 where "NO_HALF_WORD_ALIGN_FAULT = 0x00040000"
definition LOCKED :: uint32 where "LOCKED = 0x00100000"
definition LLSC :: uint32 where "LLSC = 0x00200000"
definition MEM_SWAP :: uint32 where "MEM_SWAP = 0x00400000"
definition MEM_SWAP_COND :: uint32 where "MEM_SWAP_COND = 0x00800000"
definition PREFETCH :: uint32 where "PREFETCH = 0x01000000"
definition STICKY_FLAGS :: uint32 where "STICKY_FLAGS = INST_FETCH"

definition RQ_VALID_SIZE :: uint8 where "RQ_VALID_SIZE = 0x01"
definition RQ_VALID_PADDR :: uint8 where "RQ_VALID_PADDR = 0x02"
definition RQ_VALID_VADDR :: uint8 where "RQ_VALID_VADDR = 0x04"
definition RQ_VALID_PC :: uint8 where "RQ_VALID_PC = 0x10"
definition RQ_VALID_CONTEXT_ID :: uint8 where "RQ_VALID_CONTEXT_ID = 0x20"
definition RQ_VALID_THREAD_ID :: uint8 where "RQ_VALID_THREAD_ID = 0x40"
definition RQ_VALID_EXTRA_DATA :: uint8 where "RQ_VALID_EXTRA_DATA = 0x80"
definition STICKY_PRIVATE_FLAGS :: uint8 where
  "STICKY_PRIVATE_FLAGS = RQ_VALID_CONTEXT_ID OR RQ_VALID_THREAD_ID"

subsection \<open>Operations\<close>

definition Request_raw :: "request \<Rightarrow> request" where
  "Request_raw raw = raw\<lparr>r_flags := 0, privateFlags := 0\<rparr>"

definition setThreadContext :: "32 word \<Rightarrow> 32 word \<Rightarrow> request \<Rightarrow> request" where
  "setThreadContext cid tid r = r\<lparr>r_contextId := cid, r_threadId := tid,
     privateFlags := fl_set (privateFlags r) (RQ_VALID_CONTEXT_ID OR RQ_VALID_THREAD_ID)\<rparr>"

definition setPhys :: "addr \<Rightarrow> 32 word \<Rightarrow> uint32 \<Rightarrow> tick \<Rightarrow> request \<Rightarrow> request res" where
  "setPhys paddr sz fl tm r = bindR (assertR (0 \<le>s sz) ''size >= 0'') (\<lambda>_.
     Inr (r\<lparr>r_paddr := paddr, r_size := sz, r_time := tm,
       r_flags := fl_set (fl_clear (r_flags r) (NOT STICKY_FLAGS)) fl,
       privateFlags := fl_set (fl_clear (privateFlags r) (NOT STICKY_PRIVATE_FLAGS))
         (RQ_VALID_PADDR OR RQ_VALID_SIZE)\<rparr>))"

definition setVirt :: "32 word \<Rightarrow> addr \<Rightarrow> 32 word \<Rightarrow> uint32 \<Rightarrow> addr \<Rightarrow> tick \<Rightarrow> request \<Rightarrow> request res" where
  "setVirt asid vaddr sz fl pc now r = bindR (assertR (0 \<le>s sz) ''size >= 0'') (\<lambda>_.
     Inr (r\<lparr>r_asid := asid, r_vaddr := vaddr, r_size := sz, r_pc := pc, r_time := now,
       r_flags := fl_set (fl_clear (r_flags r) (NOT STICKY_FLAGS)) fl,
       privateFlags := fl_set (fl_clear (privateFlags r) (NOT STICKY_PRIVATE_FLAGS))
         (RQ_VALID_VADDR OR RQ_VALID_SIZE OR RQ_VALID_PC)\<rparr>))"

definition Request_phys :: "request \<Rightarrow> addr \<Rightarrow> 32 word \<Rightarrow> uint32 \<Rightarrow> tick \<Rightarrow> request res" where
  "Request_phys raw paddr sz fl tm = setPhys paddr sz fl tm (Request_raw raw)"

definition Request_phys_pc :: "request \<Rightarrow> addr \<Rightarrow> 32 word \<Rightarrow> uint32 \<Rightarrow> tick \<Rightarrow> addr \<Rightarrow> request res" where
  "Request_phys_pc raw paddr sz fl tm pc = bindR (setPhys paddr sz fl tm (Request_raw raw)) (\<lambda>r.
     Inr (r\<lparr>privateFlags := fl_set (privateFlags r) RQ_VALID_PC, r_pc := pc\<rparr>))"

definition Request_virt :: "request \<Rightarrow> 32 word \<Rightarrow> addr \<Rightarrow> 32 word \<Rightarrow> uint32 \<Rightarrow> addr \<Rightarrow> 32 word \<Rightarrow>
    32 word \<Rightarrow> tick \<Rightarrow> request res" where
  "Request_virt raw asid vaddr sz fl pc cid tid now =
     bindR (setVirt asid vaddr sz fl pc now (Request_raw raw)) (\<lambda>r. Inr (setThreadContext cid tid r))"

definition setPaddr :: "addr \<Rightarrow> request \<Rightarrow> request res" where
  "setPaddr paddr r = bindR (assertR (fl_isSet (privateFlags r) RQ_VALID_VADDR) ''VALID_VADDR'')
     (\<lambda>_. Inr (r\<lparr>r_paddr := paddr, privateFlags := fl_set (privateFlags r) RQ_VALID_PADDR\<rparr>))"

definition splitOnVaddr :: "addr \<Rightarrow> request \<Rightarrow> (request \<times> request) res" where
  "splitOnVaddr split r =
     bindR (assertR (fl_isSet (privateFlags r) RQ_VALID_VADDR) ''VALID_VADDR'') (\<lambda>_.
     bindR (assertR (fl_noneSet (privateFlags r) RQ_VALID_PADDR) ''VALID_PADDR'') (\<lambda>_.
     bindR (assertR (split > r_vaddr r \<and> split < r_vaddr r + scast (r_size r)) ''split_addr'') (\<lambda>_.
     let sz1 = ucast (split - r_vaddr r) in
     Inr (r\<lparr>r_size := sz1\<rparr>, r\<lparr>r_vaddr := split, r_size := r_size r - sz1\<rparr>))))"

definition hasPaddr :: "request \<Rightarrow> bool" where
  "hasPaddr r \<longleftrightarrow> fl_isSet (privateFlags r) RQ_VALID_PADDR"

definition getPaddr :: "request \<Rightarrow> addr res" where
  "getPaddr r = bindR (assertR (hasPaddr r) ''VALID_PADDR'') (\<lambda>_. Inr (r_paddr r))"

definition hasSize :: "request \<Rightarrow> bool" where
  "hasSize r \<longleftrightarrow> fl_isSet (privateFlags r) RQ_VALID_SIZE"

definition rq_getSize :: "request \<Rightarrow> 32 word res" where
  "rq_getSize r = bindR (assertR (hasSize r) ''VALID_SIZE'') (\<lambda>_. Inr (r_size r))"

definition has_address :: "request \<Rightarrow> bool" where
  "has_address r \<longleftrightarrow> fl_isSet (privateFlags r) (RQ_VALID_PADDR OR RQ_VALID_VADDR)"

definition rq_time :: "request \<Rightarrow> tick res" where
  "rq_time r = bindR (assertR (has_address r) ''VALID_PADDR|VALID_VADDR'') (\<lambda>_. Inr (r_time r))"

definition rq_set_time :: "tick \<Rightarrow> request \<Rightarrow> request res" where
  "rq_set_time t r = bindR (assertR (has_address r) ''VALID_PADDR|VALID_VADDR'')
     (\<lambda>_. Inr (r\<lparr>r_time := t\<rparr>))"

definition getFlags :: "request \<Rightarrow> uint32 res" where
  "getFlags r = bindR (assertR (has_address r) ''VALID_PADDR|VALID_VADDR'') (\<lambda>_. Inr (r_flags r))"

definition rq_setFlags :: "uint32 \<Rightarrow> request \<Rightarrow> request res" where
  "rq_setFlags fl r = bindR (assertR (has_address r) ''VALID_PADDR|VALID_VADDR'')
     (\<lambda>_. Inr (r\<lparr>r_flags := fl_set (r_flags r) fl\<rparr>))"

definition getVaddr :: "request \<Rightarrow> addr res" where
  "getVaddr r = bindR (assertR (fl_isSet (privateFlags r) RQ_VALID_VADDR) ''VALID_VADDR'')
     (\<lambda>_. Inr (r_vaddr r))"

definition getAsid :: "request \<Rightarrow> 32 word res" where
  "getAsid r = bindR (assertR (fl_isSet (privateFlags r) RQ_VALID_VADDR) ''VALID_VADDR'')
     (\<lambda>_. Inr (r_asid r))"

definition getAsi :: "request \<Rightarrow> uint8 res" where
  "getAsi r = bindR (assertR (fl_isSet (privateFlags r) RQ_VALID_VADDR) ''VALID_VADDR'')
     (\<lambda>_. Inr (ucast (r_flags r AND ASI_BITS)))"

definition extraDataValid :: "request \<Rightarrow> bool" where
  "extraDataValid r \<longleftrightarrow> fl_isSet (privateFlags r) RQ_VALID_EXTRA_DATA"

definition getExtraData :: "request \<Rightarrow> 64 word res" where
  "getExtraData r = bindR (assertR (extraDataValid r) ''VALID_EXTRA_DATA'') (\<lambda>_. Inr (r_extraData r))"

definition setExtraData :: "64 word \<Rightarrow> request \<Rightarrow> request" where
  "setExtraData d r = r\<lparr>r_extraData := d,
     privateFlags := fl_set (privateFlags r) RQ_VALID_EXTRA_DATA\<rparr>"

definition hasContextId :: "request \<Rightarrow> bool" where
  "hasContextId r \<longleftrightarrow> fl_isSet (privateFlags r) RQ_VALID_CONTEXT_ID"

definition contextId :: "request \<Rightarrow> 32 word res" where
  "contextId r = bindR (assertR (hasContextId r) ''VALID_CONTEXT_ID'') (\<lambda>_. Inr (r_contextId r))"

definition threadId :: "request \<Rightarrow> 32 word res" where
  "threadId r = bindR (assertR (fl_isSet (privateFlags r) RQ_VALID_THREAD_ID) ''VALID_THREAD_ID'')
     (\<lambda>_. Inr (r_threadId r))"

definition hasPC :: "request \<Rightarrow> bool" where
  "hasPC r \<longleftrightarrow> fl_isSet (privateFlags r) RQ_VALID_PC"

definition getPC :: "request \<Rightarrow> addr res" where
  "getPC r = bindR (assertR (hasPC r) ''VALID_PC'') (\<lambda>_. Inr (r_pc r))"

definition isUncacheable :: "request \<Rightarrow> bool" where
  "isUncacheable r \<longleftrightarrow> fl_isSet (r_flags r) UNCACHEABLE"

definition isInstFetch :: "request \<Rightarrow> bool" where
  "isInstFetch r \<longleftrightarrow> fl_isSet (r_flags r) INST_FETCH"

definition isPrefetch :: "request \<Rightarrow> bool" where
  "isPrefetch r \<longleftrightarrow> fl_isSet (r_flags r) PREFETCH"

definition rq_isLLSC :: "request \<Rightarrow> bool" where
  "rq_isLLSC r \<longleftrightarrow> fl_isSet (r_flags r) LLSC"

definition isLocked :: "request \<Rightarrow> bool" where
  "isLocked r \<longleftrightarrow> fl_isSet (r_flags r) LOCKED"

definition isSwap :: "request \<Rightarrow> bool" where
  "isSwap r \<longleftrightarrow> fl_isSet (r_flags r) (MEM_SWAP OR MEM_SWAP_COND)"

definition isCondSwap :: "request \<Rightarrow> bool" where
  "isCondSwap r \<longleftrightarrow> fl_isSet (r_flags r) MEM_SWAP_COND"

definition isMmapedIpr :: "request \<Rightarrow> bool" where
  "isMmapedIpr r \<longleftrightarrow> fl_isSet (r_flags r) MMAPED_IPR"

definition isMisaligned :: "request \<Rightarrow> bool" where
  "isMisaligned r \<longleftrightarrow>
     (if fl_isSet (r_flags r) NO_ALIGN_FAULT then False
      else if r_vaddr r AND 0x1 \<noteq> 0 then True
      else if fl_isSet (r_flags r) NO_HALF_WORD_ALIGN_FAULT then False
      else r_vaddr r AND 0x2 \<noteq> 0)"

unbundle bit_operations_syntax

subsection \<open>Reused requests and accessors\<close>

lemma rq_tests:
  "fl_isSet f RQ_VALID_SIZE \<longleftrightarrow> bit f 0" "fl_isSet f RQ_VALID_PADDR \<longleftrightarrow> bit f 1"
  "fl_isSet f RQ_VALID_VADDR \<longleftrightarrow> bit f 2" "fl_isSet f RQ_VALID_PC \<longleftrightarrow> bit f 4"
  "fl_isSet f RQ_VALID_CONTEXT_ID \<longleftrightarrow> bit f 5" "fl_isSet f RQ_VALID_THREAD_ID \<longleftrightarrow> bit f 6"
  "fl_isSet f RQ_VALID_EXTRA_DATA \<longleftrightarrow> bit f 7" "fl_isSet g INST_FETCH \<longleftrightarrow> bit g 8"
  "fl_isSet g UNCACHEABLE \<longleftrightarrow> bit g 12"
  by (rule flag_mask(1); simp add: RQ_VALID_SIZE_def RQ_VALID_PADDR_def RQ_VALID_VADDR_def
    RQ_VALID_PC_def RQ_VALID_CONTEXT_ID_def RQ_VALID_THREAD_ID_def RQ_VALID_EXTRA_DATA_def
    INST_FETCH_def UNCACHEABLE_def)+

lemma rq_mask_bits:
  "bit RQ_VALID_SIZE n \<longleftrightarrow> n = 0" "bit RQ_VALID_PADDR n \<longleftrightarrow> n = 1" "bit RQ_VALID_VADDR n \<longleftrightarrow> n = 2"
  "bit RQ_VALID_PC n \<longleftrightarrow> n = 4" "bit RQ_VALID_CONTEXT_ID n \<longleftrightarrow> n = 5" 
  "bit RQ_VALID_THREAD_ID n \<longleftrightarrow> n = 6" "bit RQ_VALID_EXTRA_DATA n \<longleftrightarrow> n = 7"
  "bit INST_FETCH n \<longleftrightarrow> n = 8"
  by (rule flag_mask(2); simp add: RQ_VALID_SIZE_def RQ_VALID_PADDR_def RQ_VALID_VADDR_def
    RQ_VALID_PC_def RQ_VALID_CONTEXT_ID_def RQ_VALID_THREAD_ID_def RQ_VALID_EXTRA_DATA_def
    INST_FETCH_def)+

lemmas rq_bits = hasPaddr_def hasSize_def has_address_def extraDataValid_def hasContextId_def
  hasPC_def isInstFetch_def isUncacheable_def STICKY_FLAGS_def STICKY_PRIVATE_FLAGS_def
  fl_isSet_or rq_tests rq_mask_bits fl_noneSet_iff bit_or_iff bit_and_iff bit_not_iff

lemma setPhys_spec:
  assumes "setPhys paddr sz fl tm r = Inr r'"
  shows "getPaddr r' = Inr paddr" "rq_getSize r' = Inr sz" "rq_time r' = Inr tm"
    and "\<not> extraDataValid r'" "\<not> hasPC r'" "hasContextId r' = hasContextId r"
    and "contextId r' = contextId r"
    and "isInstFetch r' \<longleftrightarrow> isInstFetch r \<or> bit fl 8"
  using assms by (auto simp: setPhys_def getPaddr_def rq_getSize_def rq_time_def contextId_def rq_bits)

lemma setVirt_spec:
  assumes "setVirt asid vaddr sz fl pc now r = Inr r'"
  shows "getVaddr r' = Inr vaddr" "rq_getSize r' = Inr sz" "getPC r' = Inr pc"
    "rq_time r' = Inr now" "\<not> hasPaddr r'" "contextId r' = contextId r"
    "setPaddr paddr r' = Inr (r'\<lparr>r_paddr := paddr, privateFlags := fl_set (privateFlags r') RQ_VALID_PADDR\<rparr>)"
  using assms
  by (auto simp: setVirt_def getVaddr_def rq_getSize_def rq_time_def contextId_def getPC_def setPaddr_def rq_bits)

lemma setExtraData_get [simp]: "getExtraData (setExtraData d r) = Inr d"
  by (simp add: getExtraData_def setExtraData_def rq_bits)

lemma setExtraData_keeps [simp]:
  "getPaddr (setExtraData d r) = getPaddr r" "contextId (setExtraData d r) = contextId r"
  "isInstFetch (setExtraData d r) = isInstFetch r"
  by (simp_all add: getPaddr_def contextId_def setExtraData_def rq_bits)

subsection \<open>Splitting\<close>

lemma splitOnVaddr_bytes:
  assumes "splitOnVaddr a r = Inr (r1, r2)" "0 \<le>s r_size r"
  shows "r_vaddr r1 = r_vaddr r" "r_vaddr r2 = a"
    and "unat (r_vaddr r1) + unat (r_size r1) = unat (r_vaddr r2)"
    and "unat (r_vaddr r2) + unat (r_size r2) = unat (r_vaddr r) + unat (r_size r)"
    and "0 < unat (r_size r1)" "0 < unat (r_size r2)"
proof -
  define v sz where "v = r_vaddr r" and "sz = r_size r"
  have lo: "v < a" and hi: "a < v + ucast sz"
    and r1: "r1 = r\<lparr>r_size := ucast (a - v)\<rparr>"
    and r2: "r2 = r\<lparr>r_vaddr := a, r_size := sz - ucast (a - v)\<rparr>"
    using assms scast_nonneg(1) [OF assms(2)]
    by (auto simp: splitOnVaddr_def Let_def v_def sz_def)
  have s31: "unat sz < 2 ^ 31" using scast_nonneg(2) [OF assms(2)] by (simp add: sz_def)
  have u: "unat (ucast sz :: 64 word) = unat sz" using s31 by (intro unat_ucast_small) simp
  have nw: "unat (v + ucast sz) = unat v + unat sz"
    using less_imp_le [OF less_trans [OF lo hi]] u unat_plus_simple [of v "ucast sz"] by simp
  have d: "unat (a - v) = unat a - unat v" using lo by (intro unat_sub) simp
  have va: "unat v < unat a" "unat a < unat v + unat sz"
    using lo hi nw by (simp_all add: word_less_nat_alt)
  have s1: "unat (ucast (a - v) :: 32 word) = unat a - unat v"
    using d va s31 by (subst unat_ucast_small) simp_all
  then have s2: "unat (sz - ucast (a - v)) = unat sz - (unat a - unat v)"
    using va by (subst unat_sub) (simp_all add: word_le_nat_alt)
  show "r_vaddr r1 = r_vaddr r" "r_vaddr r2 = a" by (simp_all add: r1 r2)
  show "unat (r_vaddr r1) + unat (r_size r1) = unat (r_vaddr r2)"
    "unat (r_vaddr r2) + unat (r_size r2) = unat (r_vaddr r) + unat (r_size r)"
    "0 < unat (r_size r1)" "0 < unat (r_size r2)"
    using s1 s2 va by (simp_all add: r1 r2 v_def sz_def)
qed

subsection \<open>Properties\<close>

definition sample_virt :: request where
  "sample_virt = \<lparr>r_paddr = 0, r_size = 8, r_flags = 0, privateFlags = 0x05, r_time = 0, r_asid = 0, r_vaddr = 0x1ffc,
     r_extraData = 0, r_contextId = 0, r_threadId = 0, r_pc = 0\<rparr>"

text \<open>
  C33: Splitting a request at an address gives two requests that together cover exactly the
  bytes of the original: the first ends where the second begins, neither is empty, and no
  64-bit or 32-bit wrap-around occurs on the way.
\<close>

theorem split_covers_request:
  assumes "splitOnVaddr a r = Inr (r1, r2)" "0 \<le>s r_size r"
  shows "r_vaddr r1 = r_vaddr r \<and> r_vaddr r2 = a \<and>
    {unat (r_vaddr r1)..<unat (r_vaddr r1) + unat (r_size r1)} \<union> {unat (r_vaddr r2)..<unat (r_vaddr r2) + unat (r_size r2)} =
      {unat (r_vaddr r)..<unat (r_vaddr r) + unat (r_size r)} \<and>
    unat (r_vaddr r1) + unat (r_size r1) = unat (r_vaddr r2) \<and> r_size r1 \<noteq> 0 \<and> r_size r2 \<noteq> 0"
  using splitOnVaddr_bytes [OF assms] by (auto simp: unat_gt_0)

theorem split_covers_request_witness:
  "\<exists>r1 r2. splitOnVaddr 0x2000 sample_virt = Inr (r1, r2) \<and> r_vaddr r2 = 0x2000 \<and>
    unat (r_vaddr r1) + unat (r_size r1) = 0x2000 \<and> r_size r2 \<noteq> 0"
proof -
  have "\<exists>r. splitOnVaddr 0x2000 sample_virt = Inr r"
    by (simp add: splitOnVaddr_def sample_virt_def rq_bits Let_def)
  then obtain r1 r2 where r: "splitOnVaddr 0x2000 sample_virt = Inr (r1, r2)" by auto
  have "0 \<le>s r_size sample_virt" by (simp add: sample_virt_def word_sle_eq)
  from split_covers_request [OF r this] r show ?thesis by auto
qed

end
