(* ===== verification/Packet.thy ===== *)
theory Packet
  imports Byte_Memory Request
begin

unbundle bit_operations_syntax

section \<open>Packets\<close>

text \<open>
  Model of \<^verbatim>\<open>src/src/mem/packet.hh\<close> and \<^verbatim>\<open>src/src/mem/packet.cc\<close>: the table of memory
  commands and their attributes, the packet with its validity and ownership flags,
  the conversion of a request into a response, the functional access that checks a
  packet against a value in transit, and the label stack of a print request.

  A packet holds pointers to its request and to its data. Requests live in a map
  from addresses to objects and the data in the byte heap of \<open>Byte_Memory\<close>; a
  constructor that leaves fields uninitialised takes the previous contents of the
  object as its argument \<open>raw\<close>.
\<close>

subsection \<open>Commands\<close>

datatype mem_cmd =
    InvalidCmd
  | ReadReq
  | ReadResp
  | ReadRespWithInvalidate
  | WriteReq
  | WriteResp
  | Writeback
  | SoftPFReq
  | HardPFReq
  | SoftPFResp
  | HardPFResp
  | WriteInvalidateReq
  | WriteInvalidateResp
  | UpgradeReq
  | UpgradeResp
  | ReadExReq
  | ReadExResp
  | LoadLockedReq
  | StoreCondReq
  | StoreCondResp
  | SwapReq
  | SwapResp
  | MessageReq
  | MessageResp
  | NetworkNackError
  | InvalidDestError
  | BadAddressError
  | PrintReq

datatype attribute =
    IsRead
  | IsWrite
  | IsPrefetch
  | IsInvalidate
  | NeedsExclusive
  | IsRequest
  | IsResponse
  | NeedsResponse
  | IsSWPrefetch
  | IsHWPrefetch
  | IsLlsc
  | HasData
  | IsError
  | IsPrint

record command_info =
  attributes :: "attribute list"
  response :: mem_cmd
  cmd_str :: string

definition info :: "attribute list \<Rightarrow> mem_cmd \<Rightarrow> string \<Rightarrow> command_info" where
  "info as c s = \<lparr>attributes = as, response = c, cmd_str = s\<rparr>"

fun commandInfo :: "mem_cmd \<Rightarrow> command_info" where
  "commandInfo InvalidCmd = info [] InvalidCmd ''InvalidCmd''"
| "commandInfo ReadReq = info [IsRead, IsRequest, NeedsResponse] ReadResp ''ReadReq''"
| "commandInfo ReadResp = info [IsRead, IsResponse, HasData] InvalidCmd ''ReadResp''"
| "commandInfo ReadRespWithInvalidate =
     info [IsRead, IsResponse, HasData, IsInvalidate] InvalidCmd ''ReadRespWithInvalidate''"
| "commandInfo WriteReq =
     info [IsWrite, NeedsExclusive, IsRequest, NeedsResponse, HasData] WriteResp ''WriteReq''"
| "commandInfo WriteResp = info [IsWrite, NeedsExclusive, IsResponse] InvalidCmd ''WriteResp''"
| "commandInfo Writeback =
     info [IsWrite, NeedsExclusive, IsRequest, HasData] InvalidCmd ''Writeback''"
| "commandInfo SoftPFReq =
     info [IsRead, IsRequest, IsSWPrefetch, NeedsResponse] SoftPFResp ''SoftPFReq''"
| "commandInfo HardPFReq =
     info [IsRead, IsRequest, IsHWPrefetch, NeedsResponse] HardPFResp ''HardPFReq''"
| "commandInfo SoftPFResp =
     info [IsRead, IsResponse, IsSWPrefetch, HasData] InvalidCmd ''SoftPFResp''"
| "commandInfo HardPFResp =
     info [IsRead, IsResponse, IsHWPrefetch, HasData] InvalidCmd ''HardPFResp''"
| "commandInfo WriteInvalidateReq =
     info [IsWrite, NeedsExclusive, IsInvalidate, IsRequest, HasData, NeedsResponse]
       WriteInvalidateResp ''WriteInvalidateReq''"
| "commandInfo WriteInvalidateResp =
     info [IsWrite, NeedsExclusive, IsResponse] InvalidCmd ''WriteInvalidateResp''"
| "commandInfo UpgradeReq =
     info [IsInvalidate, NeedsExclusive, IsRequest, NeedsResponse] UpgradeResp ''UpgradeReq''"
| "commandInfo UpgradeResp = info [NeedsExclusive, IsResponse] InvalidCmd ''UpgradeResp''"
| "commandInfo ReadExReq =
     info [IsRead, NeedsExclusive, IsInvalidate, IsRequest, NeedsResponse] ReadExResp ''ReadExReq''"
| "commandInfo ReadExResp =
     info [IsRead, NeedsExclusive, IsResponse, HasData] InvalidCmd ''ReadExResp''"
| "commandInfo LoadLockedReq =
     info [IsRead, IsLlsc, IsRequest, NeedsResponse] ReadResp ''LoadLockedReq''"
| "commandInfo StoreCondReq =
     info [IsWrite, NeedsExclusive, IsLlsc, IsRequest, NeedsResponse, HasData]
       StoreCondResp ''StoreCondReq''"
| "commandInfo StoreCondResp =
     info [IsWrite, NeedsExclusive, IsLlsc, IsResponse] InvalidCmd ''StoreCondResp''"
| "commandInfo SwapReq =
     info [IsRead, IsWrite, NeedsExclusive, IsRequest, HasData, NeedsResponse] SwapResp ''SwapReq''"
| "commandInfo SwapResp =
     info [IsRead, IsWrite, NeedsExclusive, IsResponse, HasData] InvalidCmd ''SwapResp''"
| "commandInfo MessageReq =
     info [IsWrite, IsRequest, NeedsResponse, HasData] MessageResp ''MessageReq''"
| "commandInfo MessageResp = info [IsWrite, IsResponse] InvalidCmd ''MessageResp''"
| "commandInfo NetworkNackError = info [IsResponse, IsError] InvalidCmd ''NetworkNackError''"
| "commandInfo InvalidDestError = info [IsResponse, IsError] InvalidCmd ''InvalidDestError''"
| "commandInfo BadAddressError = info [IsResponse, IsError] InvalidCmd ''BadAddressError''"
| "commandInfo PrintReq = info [IsRequest, IsPrint] InvalidCmd ''PrintReq''"

definition testCmdAttrib :: "mem_cmd \<Rightarrow> attribute \<Rightarrow> bool" where
  "testCmdAttrib c a \<longleftrightarrow> a \<in> set (attributes (commandInfo c))"

definition isRead :: "mem_cmd \<Rightarrow> bool" where "isRead c = testCmdAttrib c IsRead"
definition isWrite :: "mem_cmd \<Rightarrow> bool" where "isWrite c = testCmdAttrib c IsWrite"
definition isRequest :: "mem_cmd \<Rightarrow> bool" where "isRequest c = testCmdAttrib c IsRequest"
definition isResponse :: "mem_cmd \<Rightarrow> bool" where "isResponse c = testCmdAttrib c IsResponse"
definition needsExclusive :: "mem_cmd \<Rightarrow> bool" where "needsExclusive c = testCmdAttrib c NeedsExclusive"
definition needsResponse :: "mem_cmd \<Rightarrow> bool" where "needsResponse c = testCmdAttrib c NeedsResponse"
definition isInvalidate :: "mem_cmd \<Rightarrow> bool" where "isInvalidate c = testCmdAttrib c IsInvalidate"
definition hasData :: "mem_cmd \<Rightarrow> bool" where "hasData c = testCmdAttrib c HasData"
definition isReadWrite :: "mem_cmd \<Rightarrow> bool" where "isReadWrite c \<longleftrightarrow> isRead c \<and> isWrite c"
definition isLLSC :: "mem_cmd \<Rightarrow> bool" where "isLLSC c = testCmdAttrib c IsLlsc"
definition isError :: "mem_cmd \<Rightarrow> bool" where "isError c = testCmdAttrib c IsError"
definition isPrint :: "mem_cmd \<Rightarrow> bool" where "isPrint c = testCmdAttrib c IsPrint"

definition responseCommand :: "mem_cmd \<Rightarrow> mem_cmd" where
  "responseCommand c = response (commandInfo c)"

definition cmdString :: "mem_cmd \<Rightarrow> string" where
  "cmdString c = cmd_str (commandInfo c)"

subsection \<open>The packet\<close>

record packet =
  pk_flags :: uint32
  pk_cmd :: mem_cmd
  pk_req :: "nat option"
  pk_data :: "ptr option"
  pk_addr :: addr
  pk_size :: uint32
  pk_src :: int16
  pk_dest :: int16
  pk_origCmd :: mem_cmd
  pk_time :: tick
  pk_finishTime :: tick
  pk_firstWordTime :: tick
  pk_senderState :: "nat option"

definition COPY_FLAGS :: uint32 where "COPY_FLAGS = 0x0000000F"
definition SHARED :: uint32 where "SHARED = 0x00000001"
definition EXPRESS_SNOOP :: uint32 where "EXPRESS_SNOOP = 0x00000002"
definition SUPPLY_EXCLUSIVE :: uint32 where "SUPPLY_EXCLUSIVE = 0x00000004"
definition MEM_INHIBIT :: uint32 where "MEM_INHIBIT = 0x00000008"
definition VALID_ADDR :: uint32 where "VALID_ADDR = 0x00000100"
definition VALID_SIZE :: uint32 where "VALID_SIZE = 0x00000200"
definition VALID_SRC :: uint32 where "VALID_SRC = 0x00000400"
definition VALID_DST :: uint32 where "VALID_DST = 0x00000800"
definition STATIC_DATA :: uint32 where "STATIC_DATA = 0x00001000"
definition DYNAMIC_DATA :: uint32 where "DYNAMIC_DATA = 0x00002000"
definition ARRAY_DATA :: uint32 where "ARRAY_DATA = 0x00004000"
definition Broadcast :: int16 where "Broadcast = - 1"

definition pset :: "uint32 \<Rightarrow> packet \<Rightarrow> packet" where
  "pset m p = p\<lparr>pk_flags := fl_set (pk_flags p) m\<rparr>"

definition pclear :: "uint32 \<Rightarrow> packet \<Rightarrow> packet" where
  "pclear m p = p\<lparr>pk_flags := fl_clear (pk_flags p) m\<rparr>"

definition ptest :: "uint32 \<Rightarrow> packet \<Rightarrow> bool" where
  "ptest m p \<longleftrightarrow> fl_isSet (pk_flags p) m"

definition assertMemInhibit :: "packet \<Rightarrow> packet" where "assertMemInhibit = pset MEM_INHIBIT"
definition memInhibitAsserted :: "packet \<Rightarrow> bool" where "memInhibitAsserted = ptest MEM_INHIBIT"
definition assertShared :: "packet \<Rightarrow> packet" where "assertShared = pset SHARED"
definition sharedAsserted :: "packet \<Rightarrow> bool" where "sharedAsserted = ptest SHARED"
definition setExpressSnoop :: "packet \<Rightarrow> packet" where "setExpressSnoop = pset EXPRESS_SNOOP"
definition isExpressSnoop :: "packet \<Rightarrow> bool" where "isExpressSnoop = ptest EXPRESS_SNOOP"
definition setSupplyExclusive :: "packet \<Rightarrow> packet" where "setSupplyExclusive = pset SUPPLY_EXCLUSIVE"
definition isSupplyExclusive :: "packet \<Rightarrow> bool" where "isSupplyExclusive = ptest SUPPLY_EXCLUSIVE"

definition setNacked :: "packet \<Rightarrow> packet res" where
  "setNacked p = bindR (assertR (isResponse (pk_cmd p)) ''isResponse()'')
     (\<lambda>_. Inr (p\<lparr>pk_cmd := NetworkNackError\<rparr>))"

definition setBadAddress :: "packet \<Rightarrow> packet res" where
  "setBadAddress p = bindR (assertR (isResponse (pk_cmd p)) ''isResponse()'')
     (\<lambda>_. Inr (p\<lparr>pk_cmd := BadAddressError\<rparr>))"

definition wasNacked :: "packet \<Rightarrow> bool" where
  "wasNacked p \<longleftrightarrow> pk_cmd p = NetworkNackError"

definition hadBadAddress :: "packet \<Rightarrow> bool" where
  "hadBadAddress p \<longleftrightarrow> pk_cmd p = BadAddressError"

definition copyError :: "packet \<Rightarrow> packet \<Rightarrow> packet res" where
  "copyError q p = bindR (assertR (isError (pk_cmd q)) ''pkt->isError()'')
     (\<lambda>_. Inr (p\<lparr>pk_cmd := pk_cmd q\<rparr>))"

definition isSrcValid :: "packet \<Rightarrow> bool" where "isSrcValid = ptest VALID_SRC"

definition getSrc :: "packet \<Rightarrow> int16 res" where
  "getSrc p = bindR (assertR (ptest VALID_SRC p) ''VALID_SRC'') (\<lambda>_. Inr (pk_src p))"

definition setSrc :: "int16 \<Rightarrow> packet \<Rightarrow> packet" where
  "setSrc s p = pset VALID_SRC (p\<lparr>pk_src := s\<rparr>)"

definition clearSrc :: "packet \<Rightarrow> packet" where "clearSrc = pclear VALID_SRC"

definition isDestValid :: "packet \<Rightarrow> bool" where "isDestValid = ptest VALID_DST"

definition getDest :: "packet \<Rightarrow> int16 res" where
  "getDest p = bindR (assertR (ptest VALID_DST p) ''VALID_DST'') (\<lambda>_. Inr (pk_dest p))"

definition setDest :: "int16 \<Rightarrow> packet \<Rightarrow> packet" where
  "setDest d p = pset VALID_DST (p\<lparr>pk_dest := d\<rparr>)"

definition getAddr :: "packet \<Rightarrow> addr res" where
  "getAddr p = bindR (assertR (ptest VALID_ADDR p) ''VALID_ADDR'') (\<lambda>_. Inr (pk_addr p))"

definition getSize :: "packet \<Rightarrow> uint32 res" where
  "getSize p = bindR (assertR (ptest VALID_SIZE p) ''VALID_SIZE'') (\<lambda>_. Inr (pk_size p))"

definition getOffset :: "32 word \<Rightarrow> packet \<Rightarrow> addr res" where
  "getOffset blkSize p = bindR (getAddr p) (\<lambda>a. Inr (a AND scast (blkSize - 1)))"

subsection \<open>Construction and destruction\<close>

definition Packet_new :: "packet \<Rightarrow> tick \<Rightarrow> nat \<Rightarrow> request \<Rightarrow> mem_cmd \<Rightarrow> int16 \<Rightarrow> packet res" where
  "Packet_new raw now rp r c d =
     (let p0 = raw\<lparr>pk_flags := VALID_DST, pk_cmd := c, pk_req := Some rp, pk_data := None,
                pk_dest := d, pk_origCmd := InvalidCmd, pk_time := now, pk_senderState := None\<rparr> in
      bindR (if hasPaddr r then bindR (getPaddr r) (\<lambda>a. Inr (pset VALID_ADDR (p0\<lparr>pk_addr := a\<rparr>)))
             else Inr p0) (\<lambda>p1.
      if hasSize r then bindR (rq_getSize r) (\<lambda>n. Inr (pset VALID_SIZE (p1\<lparr>pk_size := n\<rparr>)))
      else Inr p1))"

definition Packet_blk :: "packet \<Rightarrow> tick \<Rightarrow> nat \<Rightarrow> request \<Rightarrow> mem_cmd \<Rightarrow> int16 \<Rightarrow> 32 word \<Rightarrow> packet res" where
  "Packet_blk raw now rp r c d blkSize =
     (let p0 = raw\<lparr>pk_flags := VALID_DST, pk_cmd := c, pk_req := Some rp, pk_data := None,
                pk_dest := d, pk_origCmd := InvalidCmd, pk_time := now, pk_senderState := None\<rparr> in
      bindR (if hasPaddr r
             then bindR (getPaddr r) (\<lambda>a.
                    Inr (pset VALID_ADDR (p0\<lparr>pk_addr := a AND scast (NOT (blkSize - 1))\<rparr>)))
             else Inr p0) (\<lambda>p1.
      Inr (pset VALID_SIZE (p1\<lparr>pk_size := blkSize\<rparr>))))"

definition Packet_copy :: "packet \<Rightarrow> tick \<Rightarrow> packet \<Rightarrow> bool \<Rightarrow> packet" where
  "Packet_copy raw now p clearFlags =
     (let p0 = raw\<lparr>pk_flags := 0, pk_cmd := pk_cmd p, pk_req := pk_req p,
            pk_data := (if ptest STATIC_DATA p then pk_data p else None), pk_addr := pk_addr p,
            pk_size := pk_size p, pk_src := pk_src p, pk_dest := pk_dest p,
            pk_origCmd := InvalidCmd, pk_time := now, pk_senderState := pk_senderState p\<rparr>;
          p1 = (if clearFlags then p0 else pset (pk_flags p AND COPY_FLAGS) p0);
          p2 = pset (pk_flags p AND (VALID_ADDR OR VALID_SIZE OR VALID_SRC OR VALID_DST)) p1
      in pset (pk_flags p AND STATIC_DATA) p2)"

definition deleteData :: "packet \<Rightarrow> bmem \<Rightarrow> (packet \<times> bmem) res" where
  "deleteData p m =
     bindR (if ptest ARRAY_DATA p then delete_bytes NewArray m (pk_data p)
            else if ptest DYNAMIC_DATA p then delete_bytes NewObject m (pk_data p)
            else Inr m) (\<lambda>m'.
     Inr ((pclear (STATIC_DATA OR DYNAMIC_DATA OR ARRAY_DATA) p)\<lparr>pk_data := None\<rparr>, m'))"

definition Packet_delete :: "packet \<Rightarrow> (nat \<Rightarrow> request option) \<Rightarrow> bmem \<Rightarrow>
    ((nat \<Rightarrow> request option) \<times> bmem) res" where
  "Packet_delete p rs m =
     bindR (case pk_req p of None \<Rightarrow> Inr rs
            | Some rp \<Rightarrow> if isRequest (pk_cmd p) \<and> \<not> needsResponse (pk_cmd p)
                then (if rs rp = None then Inl BadPtr else Inr (rs(rp := None))) else Inr rs) (\<lambda>rs'.
     bindR (deleteData p m) (\<lambda>(p', m'). Inr (rs', m')))"

definition reinitFromRequest :: "request \<Rightarrow> packet \<Rightarrow> bmem \<Rightarrow> (packet \<times> bmem) res" where
  "reinitFromRequest r p m =
     bindR (assertR (hasPaddr r) ''req->hasPaddr()'') (\<lambda>_.
     bindR (getPaddr r) (\<lambda>a. bindR (rq_getSize r) (\<lambda>n. bindR (rq_time r) (\<lambda>t.
     deleteData (pset (VALID_ADDR OR VALID_SIZE)
       (p\<lparr>pk_flags := 0, pk_addr := a, pk_size := n, pk_time := t\<rparr>)) m))))"

subsection \<open>Responses\<close>

definition makeResponse :: "packet \<Rightarrow> packet res" where
  "makeResponse p =
     bindR (assertR (needsResponse (pk_cmd p)) ''needsResponse()'') (\<lambda>_.
     bindR (assertR (isRequest (pk_cmd p)) ''isRequest()'') (\<lambda>_.
     let p1 = p\<lparr>pk_origCmd := pk_cmd p, pk_cmd := responseCommand (pk_cmd p), pk_dest := pk_src p\<rparr>;
         p2 = p1\<lparr>pk_flags := fl_set_val (pk_flags p1) VALID_DST (ptest VALID_SRC p1)\<rparr>
     in Inr (pclear VALID_SRC p2)))"

definition reinitNacked :: "packet \<Rightarrow> packet res" where
  "reinitNacked p =
     bindR (assertR (wasNacked p) ''wasNacked()'') (\<lambda>_.
     let p1 = p\<lparr>pk_cmd := pk_origCmd p\<rparr> in
     bindR (assertR (needsResponse (pk_cmd p1)) ''needsResponse()'') (\<lambda>_.
     Inr (setDest Broadcast p1)))"

definition setSize :: "uint32 \<Rightarrow> packet \<Rightarrow> packet res" where
  "setSize n p = bindR (assertR (\<not> ptest VALID_SIZE p) ''!VALID_SIZE'')
     (\<lambda>_. Inr (pset VALID_SIZE (p\<lparr>pk_size := n\<rparr>)))"

subsection \<open>Data\<close>

definition set_data :: "uint32 \<Rightarrow> ptr option \<Rightarrow> packet \<Rightarrow> packet res" where
  "set_data fl d p =
     bindR (assertR (fl_noneSet (pk_flags p) (STATIC_DATA OR DYNAMIC_DATA OR ARRAY_DATA)) ''noneSet'')
     (\<lambda>_. Inr (pset fl (p\<lparr>pk_data := d\<rparr>)))"

definition dataStatic :: "ptr option \<Rightarrow> packet \<Rightarrow> packet res" where
  "dataStatic = set_data STATIC_DATA"

definition dataDynamicArray :: "ptr option \<Rightarrow> packet \<Rightarrow> packet res" where
  "dataDynamicArray = set_data (DYNAMIC_DATA OR ARRAY_DATA)"

definition dataDynamic :: "ptr option \<Rightarrow> packet \<Rightarrow> packet res" where
  "dataDynamic = set_data DYNAMIC_DATA"

definition getPtr :: "packet \<Rightarrow> ptr res" where
  "getPtr p = bindR (assertR (ptest (STATIC_DATA OR DYNAMIC_DATA) p) ''STATIC_DATA|DYNAMIC_DATA'')
     (\<lambda>_. case pk_data p of None \<Rightarrow> Inl BadPtr | Some d \<Rightarrow> Inr d)"

definition setData :: "ptr \<Rightarrow> packet \<Rightarrow> bmem \<Rightarrow> bmem res" where
  "setData s p m = bindR (getPtr p) (\<lambda>d. bindR (getSize p) (\<lambda>n. memcpy m d s (unat n)))"

definition setDataFromBlock :: "ptr \<Rightarrow> 32 word \<Rightarrow> packet \<Rightarrow> bmem \<Rightarrow> bmem res" where
  "setDataFromBlock b blkSize p m =
     bindR (getOffset blkSize p) (\<lambda>off. setData (ptr_add b (uint off)) p m)"

definition writeData :: "ptr \<Rightarrow> packet \<Rightarrow> bmem \<Rightarrow> bmem res" where
  "writeData t p m = bindR (getPtr p) (\<lambda>d. bindR (getSize p) (\<lambda>n. memcpy m t d (unat n)))"

definition writeDataToBlock :: "ptr \<Rightarrow> 32 word \<Rightarrow> packet \<Rightarrow> bmem \<Rightarrow> bmem res" where
  "writeDataToBlock b blkSize p m =
     bindR (getOffset blkSize p) (\<lambda>off. writeData (ptr_add b (uint off)) p m)"

definition pk_allocate :: "packet \<Rightarrow> bmem \<Rightarrow> (packet \<times> bmem) res" where
  "pk_allocate p m = (case pk_data p of
       Some d \<Rightarrow> bindR (assertR (ptest (STATIC_DATA OR DYNAMIC_DATA) p) ''isSet'') (\<lambda>_. Inr (p, m))
     | None \<Rightarrow>
         bindR (assertR (fl_noneSet (pk_flags p) (STATIC_DATA OR DYNAMIC_DATA)) ''noneSet'') (\<lambda>_.
         bindR (getSize p) (\<lambda>n.
         let (m', d) = new_array m (unat n)
         in Inr ((pset (DYNAMIC_DATA OR ARRAY_DATA) p)\<lparr>pk_data := Some d\<rparr>, m'))))"

subsection \<open>Print requests\<close>

record label_entry =
  le_label :: string
  le_prefix :: string
  labelPrinted :: bool

record print_req =
  labelStack :: "label_entry list"
  curPrefix :: string
  ps_os :: string
  verbosity :: int

definition PrintReqState_new :: "string \<Rightarrow> int \<Rightarrow> print_req" where
  "PrintReqState_new out v = \<lparr>labelStack = [\<lparr>le_label = [], le_prefix = [], labelPrinted = False\<rparr>],
     curPrefix = [], ps_os = out, verbosity = v\<rparr>"

definition PrintReqState_delete :: "print_req \<Rightarrow> unit res" where
  "PrintReqState_delete s = (if labelStack s = [] then Inl BadPtr
     else assertR (butlast (labelStack s) = []) ''labelStack.empty()'')"

definition ps_pushLabel :: "string \<Rightarrow> string \<Rightarrow> print_req \<Rightarrow> print_req" where
  "ps_pushLabel lbl prefix s = s\<lparr>
     labelStack := labelStack s @ [\<lparr>le_label = lbl, le_prefix = curPrefix s, labelPrinted = False\<rparr>],
     curPrefix := curPrefix s @ prefix\<rparr>"

definition ps_popLabel :: "print_req \<Rightarrow> print_req res" where
  "ps_popLabel s = (if labelStack s = [] then Inl BadPtr
     else let s' = s\<lparr>curPrefix := le_prefix (last (labelStack s)), labelStack := butlast (labelStack s)\<rparr>
          in bindR (assertR (labelStack s' \<noteq> []) ''!labelStack.empty()'') (\<lambda>_. Inr s'))"

fun print_labels :: "label_entry list \<Rightarrow> string \<Rightarrow> label_entry list \<times> string" where
  "print_labels [] out = ([], out)"
| "print_labels (e # es) out =
     (let out' = (if labelPrinted e then out else out @ le_prefix e @ le_label e @ [CHR 0x0A]);
          (es', out'') = print_labels es out'
      in (e\<lparr>labelPrinted := True\<rparr> # es', out''))"

definition printLabels :: "print_req \<Rightarrow> print_req res" where
  "printLabels s = (if labelStack s = [] then Inl BadPtr
     else if labelPrinted (last (labelStack s)) then Inr s
     else let (es, out) = print_labels (labelStack s) (ps_os s)
          in Inr (s\<lparr>labelStack := es, ps_os := out\<rparr>))"

text \<open>A printable object is what it prints for a verbosity and a prefix.\<close>

type_synonym printable = "int \<Rightarrow> string \<Rightarrow> string"

definition printObj :: "printable \<Rightarrow> print_req \<Rightarrow> print_req res" where
  "printObj obj s = bindR (printLabels s) (\<lambda>s1.
     Inr (s1\<lparr>ps_os := ps_os s1 @ obj (verbosity s1) (curPrefix s1)\<rparr>))"

text \<open>
  The sender state of a print request is its \<^verbatim>\<open>PrintReqState\<close>; \<open>pushLabel\<close> and
  \<open>popLabel\<close> reach it through a checked cast, which fails when it is another object.
\<close>

definition pk_pushLabel :: "string \<Rightarrow> packet \<Rightarrow> print_req option \<Rightarrow> print_req option res" where
  "pk_pushLabel lbl p prs = (if isPrint (pk_cmd p)
     then (case prs of None \<Rightarrow> Inl (Assert ''safe_cast'')
           | Some s \<Rightarrow> Inr (Some (ps_pushLabel lbl ''  '' s)))
     else Inr prs)"

definition pk_popLabel :: "packet \<Rightarrow> print_req option \<Rightarrow> print_req option res" where
  "pk_popLabel p prs = (if isPrint (pk_cmd p)
     then (case prs of None \<Rightarrow> Inl (Assert ''safe_cast'')
           | Some s \<Rightarrow> bindR (ps_popLabel s) (\<lambda>s'. Inr (Some s')))
     else Inr prs)"

subsection \<open>Functional accesses\<close>

definition checkFunctional :: "printable \<Rightarrow> addr \<Rightarrow> 32 word \<Rightarrow> ptr option \<Rightarrow> packet \<Rightarrow> bmem \<Rightarrow>
    print_req option \<Rightarrow> (bool \<times> packet \<times> bmem \<times> print_req option) res" where
  "checkFunctional obj base sz data p m prs =
     bindR (getAddr p) (\<lambda>func_start. bindR (getSize p) (\<lambda>n.
     let func_end = func_start + ucast n - 1;
         val_start = base;
         val_end = val_start + scast sz - 1 in
     if func_start > val_end \<or> val_start > func_end then Inr (False, p, m, prs)
     else if isPrint (pk_cmd p)
       then (case prs of None \<Rightarrow> Inl BadPtr
             | Some s \<Rightarrow> bindR (printObj obj s) (\<lambda>s'. Inr (False, p, m, Some s')))
     else case data of None \<Rightarrow> Inr (False, p, m, prs)
     | Some d \<Rightarrow>
       let offset = sint (ucast (func_start - val_start) :: 32 word) in
       if isRead (pk_cmd p) then
         (if func_start \<ge> val_start \<and> func_end \<le> val_end
          then bindR (pk_allocate p m) (\<lambda>(p1, m1).
               bindR (getPtr p1) (\<lambda>q.
               bindR (memcpy m1 q (ptr_add d offset) (unat n)) (\<lambda>m2.
               bindR (makeResponse p1) (\<lambda>p2. Inr (True, p2, m2, prs)))))
          else Inl (Panic ''Memory value only partially satisfies the functional request''))
       else if isWrite (pk_cmd p) then
         (if offset \<ge> 0
          then bindR (getPtr p) (\<lambda>q.
               bindR (memcpy m (ptr_add d offset) q (unat ((min func_end val_end - func_start) + 1)))
               (\<lambda>m1. Inr (False, p, m1, prs)))
          else bindR (getPtr p) (\<lambda>q.
               bindR (memcpy m d (ptr_add q (- offset)) (unat ((min func_end val_end - val_start) + 1)))
               (\<lambda>m1. Inr (False, p, m1, prs))))
       else Inl (Panic ''Dont know how to handle command'')))"

definition checkFunctional_pkt :: "printable \<Rightarrow> packet \<Rightarrow> packet \<Rightarrow> bmem \<Rightarrow>
    print_req option \<Rightarrow> (bool \<times> packet \<times> bmem \<times> print_req option) res" where
  "checkFunctional_pkt obj other p m prs =
     bindR (if hasData (pk_cmd other) then bindR (getPtr other) (\<lambda>d. Inr (Some d)) else Inr None) (\<lambda>data.
     bindR (getAddr other) (\<lambda>a. bindR (getSize other) (\<lambda>n.
     checkFunctional obj a n data p m prs)))"

subsection \<open>Command table\<close>

lemmas cmd_attr = isRead_def isWrite_def isRequest_def isResponse_def needsExclusive_def
  needsResponse_def isInvalidate_def hasData_def isReadWrite_def isLLSC_def isError_def isPrint_def
  testCmdAttrib_def responseCommand_def info_def

lemma command_kinds:
  "\<not> (isRequest c \<and> isResponse c)"
  "needsResponse c \<Longrightarrow> isRequest c"
  "isError c \<Longrightarrow> isResponse c"
  "isResponse c \<Longrightarrow> \<not> needsResponse c"
  "responseCommand c = InvalidCmd \<longleftrightarrow> \<not> needsResponse c"
  by (cases c; simp add: cmd_attr)+

lemma response_kind:
  assumes "needsResponse c"
  shows "isResponse (responseCommand c)" "\<not> needsResponse (responseCommand c)"
    and "isRead (responseCommand c) = isRead c" "isWrite (responseCommand c) = isWrite c"
    and "needsExclusive (responseCommand c) = needsExclusive c"
    and "isRead c \<Longrightarrow> hasData (responseCommand c)" "\<not> isError (responseCommand c)"
  using assms by (cases c; simp add: cmd_attr)+

subsection \<open>Packet flags\<close>

lemma pk_tests:
  "fl_isSet f SHARED \<longleftrightarrow> bit f 0" "fl_isSet f EXPRESS_SNOOP \<longleftrightarrow> bit f 1"
  "fl_isSet f SUPPLY_EXCLUSIVE \<longleftrightarrow> bit f 2" "fl_isSet f MEM_INHIBIT \<longleftrightarrow> bit f 3"
  "fl_isSet f VALID_ADDR \<longleftrightarrow> bit f 8" "fl_isSet f VALID_SIZE \<longleftrightarrow> bit f 9"
  "fl_isSet f VALID_SRC \<longleftrightarrow> bit f 10" "fl_isSet f VALID_DST \<longleftrightarrow> bit f 11"
  "fl_isSet f STATIC_DATA \<longleftrightarrow> bit f 12" "fl_isSet f DYNAMIC_DATA \<longleftrightarrow> bit f 13"
  "fl_isSet f ARRAY_DATA \<longleftrightarrow> bit f 14"
  by (rule flag_mask(1); simp add: SHARED_def EXPRESS_SNOOP_def SUPPLY_EXCLUSIVE_def MEM_INHIBIT_def
    VALID_ADDR_def VALID_SIZE_def VALID_SRC_def VALID_DST_def STATIC_DATA_def DYNAMIC_DATA_def
    ARRAY_DATA_def)+

lemma pk_mask_bits [simp]:
  "bit SHARED n \<longleftrightarrow> n = 0" "bit EXPRESS_SNOOP n \<longleftrightarrow> n = 1" "bit SUPPLY_EXCLUSIVE n \<longleftrightarrow> n = 2"
  "bit MEM_INHIBIT n \<longleftrightarrow> n = 3" "bit VALID_ADDR n \<longleftrightarrow> n = 8" "bit VALID_SIZE n \<longleftrightarrow> n = 9"
  "bit VALID_SRC n \<longleftrightarrow> n = 10" "bit VALID_DST n \<longleftrightarrow> n = 11" "bit STATIC_DATA n \<longleftrightarrow> n = 12"
  "bit DYNAMIC_DATA n \<longleftrightarrow> n = 13" "bit ARRAY_DATA n \<longleftrightarrow> n = 14"
  by (rule flag_mask(2); simp add: SHARED_def EXPRESS_SNOOP_def SUPPLY_EXCLUSIVE_def MEM_INHIBIT_def
    VALID_ADDR_def VALID_SIZE_def VALID_SRC_def VALID_DST_def STATIC_DATA_def DYNAMIC_DATA_def
    ARRAY_DATA_def)+

lemmas pk_bits = ptest_def pset_def pclear_def fl_isSet_or pk_tests fl_noneSet_iff bit_or_iff
  bit_and_iff

lemma makeResponse_ok:
  assumes "needsResponse (pk_cmd p)"
  shows "makeResponse p = Inr (pclear VALID_SRC (p\<lparr>pk_origCmd := pk_cmd p,
    pk_cmd := responseCommand (pk_cmd p), pk_dest := pk_src p,
    pk_flags := fl_set_val (pk_flags p) VALID_DST (ptest VALID_SRC p)\<rparr>))"
  using assms command_kinds(2) [OF assms] by (simp add: makeResponse_def Let_def ptest_def)

lemma makeResponse_fields:
  assumes "makeResponse p = Inr p'"
  shows "needsResponse (pk_cmd p)" "pk_cmd p' = responseCommand (pk_cmd p)" "pk_origCmd p' = pk_cmd p"
    and "pk_dest p' = pk_src p" "ptest VALID_DST p' = ptest VALID_SRC p" "\<not> ptest VALID_SRC p'"
    and "pk_data p' = pk_data p" "pk_req p' = pk_req p" "pk_addr p' = pk_addr p" "pk_size p' = pk_size p"
    and "pk_senderState p' = pk_senderState p"
    and "m \<in> {SHARED, MEM_INHIBIT, EXPRESS_SNOOP, SUPPLY_EXCLUSIVE, VALID_ADDR, VALID_SIZE, STATIC_DATA,
      DYNAMIC_DATA, ARRAY_DATA} \<Longrightarrow> ptest m p' = ptest m p"
proof -
  have n: "needsResponse (pk_cmd p)" using assms by (auto simp: makeResponse_def Let_def)
  note eq = assms [unfolded makeResponse_ok [OF n] sum.inject, symmetric]
  show "needsResponse (pk_cmd p)" "pk_cmd p' = responseCommand (pk_cmd p)" "pk_origCmd p' = pk_cmd p"
    "pk_dest p' = pk_src p" "pk_data p' = pk_data p" "pk_req p' = pk_req p" "pk_addr p' = pk_addr p"
    "pk_size p' = pk_size p" "pk_senderState p' = pk_senderState p"
    using n by (simp_all add: eq pclear_def)
  have b: "bit (pk_flags p') k \<longleftrightarrow> (if k = 10 then False else if k = 11 then ptest VALID_SRC p else bit (pk_flags p) k)" for k
    by (simp add: eq pclear_def fl_set_val_alt)
  show "ptest VALID_DST p' = ptest VALID_SRC p" "\<not> ptest VALID_SRC p'"
    by (simp_all add: ptest_def [of _ p'] pk_tests b)
  show "m \<in> {SHARED, MEM_INHIBIT, EXPRESS_SNOOP, SUPPLY_EXCLUSIVE, VALID_ADDR, VALID_SIZE, STATIC_DATA,
      DYNAMIC_DATA, ARRAY_DATA} \<Longrightarrow> ptest m p' = ptest m p"
    by (elim insertE emptyE) (simp_all add: ptest_def pk_tests b)
qed

text \<open>
  A request that is answered, nacked by the network and reinitialised is the
  original request again, with a broadcast destination.
\<close>

lemma nack_round_trip:
  assumes "makeResponse p = Inr p1" "setNacked p1 = Inr p2"
  shows "\<exists>p3. reinitNacked p2 = Inr p3 \<and> pk_cmd p3 = pk_cmd p \<and> getDest p3 = Inr Broadcast \<and>
    pk_data p3 = pk_data p \<and> pk_req p3 = pk_req p \<and> pk_addr p3 = pk_addr p \<and> pk_size p3 = pk_size p"
proof -
  have "p2 = p1\<lparr>pk_cmd := NetworkNackError\<rparr>" using assms(2) by (auto simp: setNacked_def)
  then show ?thesis using makeResponse_fields [OF assms(1)]
    by (simp add: reinitNacked_def wasNacked_def Let_def setDest_def getDest_def pk_bits)
qed

subsection \<open>Ownership of the data\<close>

lemma allocate_delete:
  assumes "pk_data p = None" "pk_allocate p m = Inr (p1, m1)" "bmem_ok m"
  obtains p2 m2 where "deleteData p1 m1 = Inr (p2, m2)" "blocks m2 = blocks m" "pk_data p2 = None"
proof -
  obtain n where n: "getSize p = Inr n" "fl_noneSet (pk_flags p) (STATIC_DATA OR DYNAMIC_DATA)"
      "p1 = (pset (DYNAMIC_DATA OR ARRAY_DATA) p)\<lparr>pk_data := Some (brk m, 0)\<rparr>"
      "m1 = fst (new_array m (unat n))"
    using assms(1,2) by (auto simp: pk_allocate_def Let_def new_array_def)
  have "deleteData p1 m1 = Inr ((pclear (STATIC_DATA OR DYNAMIC_DATA OR ARRAY_DATA) p1)\<lparr>pk_data := None\<rparr>,
      m1\<lparr>blocks := (blocks m1)(brk m := None)\<rparr>)"
    by (simp add: n(3,4) deleteData_def delete_bytes_def new_array_def pk_bits)
  moreover have "(blocks m1)(brk m := None) = blocks m"
    using assms(3) by (auto simp: n(4) new_array_def bmem_ok_def)
  ultimately show ?thesis using that by simp
qed

lemma copy_not_owner:
  "\<not> ptest (DYNAMIC_DATA OR ARRAY_DATA) (Packet_copy raw now p c)"
  "deleteData (Packet_copy raw now p c) m =
     Inr ((pclear (STATIC_DATA OR DYNAMIC_DATA OR ARRAY_DATA) (Packet_copy raw now p c))\<lparr>pk_data := None\<rparr>, m)"
proof -
  have f: "pk_flags (Packet_copy raw now p c) = fl_set (fl_set (if c then 0 else pk_flags p AND COPY_FLAGS)
      (pk_flags p AND (VALID_ADDR OR VALID_SIZE OR VALID_SRC OR VALID_DST))) (pk_flags p AND STATIC_DATA)"
    by (simp add: Packet_copy_def Let_def pset_def fl_set_def)
  have cf: "\<not> bit COPY_FLAGS 13" "\<not> bit COPY_FLAGS 14" by (simp_all add: COPY_FLAGS_def)
  show "\<not> ptest (DYNAMIC_DATA OR ARRAY_DATA) (Packet_copy raw now p c)"
    using cf by (auto simp: f pk_bits)
  then show "deleteData (Packet_copy raw now p c) m =
     Inr ((pclear (STATIC_DATA OR DYNAMIC_DATA OR ARRAY_DATA) (Packet_copy raw now p c))\<lparr>pk_data := None\<rparr>, m)"
    by (simp add: deleteData_def ptest_def fl_isSet_or)
qed

subsection \<open>The label stack\<close>

lemma push_pop_label:
  assumes "labelStack s \<noteq> []"
  shows "ps_popLabel (ps_pushLabel lbl prefix s) = Inr s"
  using assms by (simp add: ps_popLabel_def ps_pushLabel_def Let_def)

lemma print_labels_all:
  "print_labels es out = (es', out') \<Longrightarrow>
     es' = map (\<lambda>e. e\<lparr>labelPrinted := True\<rparr>) es \<and>
     out' = out @ concat (map (\<lambda>e. le_prefix e @ le_label e @ [CHR 0x0A]) (filter (\<lambda>e. \<not> labelPrinted e) es))"
proof (induction es arbitrary: out es' out')
  case (Cons e es)
  define o1 where "o1 = (if labelPrinted e then out else out @ le_prefix e @ le_label e @ [CHR 0x0A])"
  obtain fs o2 where r: "print_labels es o1 = (fs, o2)" by fastforce
  show ?case using Cons.prems Cons.IH [OF r] r by (auto simp: Let_def o1_def)
qed simp

lemma printLabels_once:
  assumes "printLabels s = Inr s'"
  shows "printLabels s' = Inr s'" "curPrefix s' = curPrefix s"
proof -
  have ne: "labelStack s \<noteq> []" using assms by (auto simp: printLabels_def)
  show "printLabels s' = Inr s'" "curPrefix s' = curPrefix s"
    using assms ne by (auto simp: printLabels_def last_map split: if_splits prod.splits dest!: print_labels_all)
qed

subsection \<open>Functional accesses against a value\<close>

text \<open>
  The meaning of a buffer \<open>xs\<close> at address \<open>a\<close> is the partial map from addresses to
  bytes it defines. A functional write overlays the packet's map on the value's, a
  functional read takes a part of the value's map.
\<close>

definition bytes_at :: "nat \<Rightarrow> uint8 list \<Rightarrow> nat \<rightharpoonup> uint8" where
  "bytes_at a xs i = (if a \<le> i \<and> i < a + length xs then Some (xs ! (i - a)) else None)"

lemma dom_bytes_at: "dom (bytes_at a xs) = {a..<a + length xs}"
  by (auto simp: bytes_at_def split: if_splits)

lemma range_end:
  fixes a l :: "64 word"
  assumes "0 < unat l" "unat a + unat l \<le> 2 ^ 64"
  shows "unat (a + l - 1) = unat a + unat l - 1"
proof -
  have l: "unat (l - 1) = unat l - 1" using assms(1) by (intro unat_minus_one) auto
  have "unat (a + (l - 1)) = unat a + unat (l - 1)"
    using assms l by (subst unat_add_lem [symmetric]) simp
  then show ?thesis using l assms(1) by (simp add: algebra_simps)
qed

lemma uint_less_offset:
  fixes a b :: "64 word"
  assumes "unat a < unat b + 2 ^ 31"
  shows "uint a < uint b + 2 ^ 31"
proof -
  have "int (unat a) < int (unat b + 2 ^ 31)" using assms by (simp only: of_nat_less_iff)
  then have "int (unat a) < int (unat b) + 2 ^ 31" by (simp only: of_nat_add of_nat_power of_nat_numeral)
  then show ?thesis by simp
qed

lemma sint_word_of_int:
  "x < 2 ^ 31 \<Longrightarrow> - (2 ^ 31) \<le> x \<Longrightarrow> sint (word_of_int x :: 32 word) = x"
  by (simp add: signed_of_int signed_take_bit_int_eq_self)

lemma sint_ucast_diff:
  fixes a b :: "64 word"
  assumes "unat a < unat b + 2 ^ 31" "unat b < unat a + 2 ^ 31"
  shows "sint (ucast (a - b) :: 32 word) = int (unat a) - int (unat b)"
proof -
  have u: "uint (a - b) = take_bit 64 (uint a - uint b)"
    by (simp add: uint_word_ariths take_bit_eq_mod)
  have c: "(ucast (a - b) :: 32 word) = word_of_int (uint a - uint b)"
    by (simp only: ucast_eq u word_of_int_eq_iff take_bit_take_bit) simp
  have "uint a - uint b < 2 ^ 31" "- (2 ^ 31) \<le> uint a - uint b"
    using uint_less_offset [OF assms(1)] uint_less_offset [OF assms(2)] by simp_all
  from sint_word_of_int [OF this] show ?thesis unfolding c by simp
qed

lemma unat_min: "unat (min x y :: 64 word) = min (unat x) (unat y)"
  by (simp add: min_def word_le_nat_alt)

lemma unat_span:
  fixes a e :: "64 word"
  assumes "unat a \<le> unat e" "unat e - unat a < 2 ^ 63"
  shows "unat (e - a + 1) = unat e - unat a + 1"
proof -
  have d: "unat (e - a) = unat e - unat a" using assms(1) by (simp add: unat_sub word_le_nat_alt)
  then show ?thesis using assms(2) unat_add_lem [of "e - a" 1] by simp
qed

definition in_range :: "packet \<Rightarrow> addr \<Rightarrow> 32 word \<Rightarrow> bool" where
  "in_range p base sz \<longleftrightarrow> ptest VALID_ADDR p \<and> ptest VALID_SIZE p \<and>
     0 < unat (pk_size p) \<and> unat (pk_size p) < 2 ^ 31 \<and> unat (pk_addr p) + unat (pk_size p) \<le> 2 ^ 64 \<and>
     0 < unat sz \<and> 0 \<le>s sz \<and> unat base + unat sz \<le> 2 ^ 64"

lemma in_range_ends:
  assumes "in_range p base sz"
  shows "getAddr p = Inr (pk_addr p)" "getSize p = Inr (pk_size p)"
    and "unat (pk_addr p + ucast (pk_size p) - 1) = unat (pk_addr p) + unat (pk_size p) - 1"
    and "unat (base + scast sz - 1) = unat base + unat sz - 1" "unat sz < 2 ^ 31"
proof -
  have c: "unat (ucast (pk_size p) :: 64 word) = unat (pk_size p)"
    using assms by (intro unat_ucast_small) (simp add: in_range_def)
  have s: "0 \<le>s sz" using assms by (simp add: in_range_def)
  have d: "unat (scast sz :: 64 word) = unat sz"
    using scast_nonneg [OF s] by (simp add: unat_ucast_small)
  show "getAddr p = Inr (pk_addr p)" "getSize p = Inr (pk_size p)"
    using assms by (auto simp: in_range_def getAddr_def getSize_def)
  show "unat (pk_addr p + ucast (pk_size p) - 1) = unat (pk_addr p) + unat (pk_size p) - 1"
    using assms c range_end [of "ucast (pk_size p)" "pk_addr p"] by (simp add: in_range_def)
  show "unat (base + scast sz - 1) = unat base + unat sz - 1"
    using assms d range_end [of "scast sz" base] by (simp add: in_range_def)
  show "unat sz < 2 ^ 31" using scast_nonneg [OF s] by simp
qed

definition overlaps :: "packet \<Rightarrow> addr \<Rightarrow> 32 word \<Rightarrow> bool" where
  "overlaps p base sz \<longleftrightarrow> unat (pk_addr p) < unat base + unat sz \<and>
     unat base < unat (pk_addr p) + unat (pk_size p)"

lemma overlaps_test:
  assumes "in_range p base sz"
  shows "(pk_addr p > base + scast sz - 1 \<or> base > pk_addr p + ucast (pk_size p) - 1) \<longleftrightarrow> \<not> overlaps p base sz"
  using assms in_range_ends [OF assms]
  by (auto simp: overlaps_def word_less_nat_alt in_range_def)

lemma checkFunctional_disjoint:
  assumes "in_range p base sz" "\<not> overlaps p base sz"
  shows "checkFunctional obj base sz data p m prs = Inr (False, p, m, prs)"
  using overlaps_test [OF assms(1)] assms(2) in_range_ends(1,2) [OF assms(1)]
  by (simp add: checkFunctional_def Let_def)

lemma overlap_offset:
  assumes "in_range p base sz" "overlaps p base sz"
  shows "sint (ucast (pk_addr p - base) :: 32 word) = int (unat (pk_addr p)) - int (unat base)"
  using assms in_range_ends(5) [OF assms(1)]
  by (intro sint_ucast_diff) (auto simp: in_range_def overlaps_def)

lemma read_contained:
  assumes r: "in_range p base sz" and o: "unat base \<le> unat (pk_addr p)"
      "unat (pk_addr p) + unat (pk_size p) \<le> unat base + unat sz"
    and c: "isRead (pk_cmd p)" "needsResponse (pk_cmd p)"
    and v: "length V = unat sz"
    and buf: "pk_allocate p m = Inr (p1, m1)" "getPtr p1 = Inr q" "fst q \<noteq> fst d" "holds m1 d V"
      "holds m1 q X" "length X = unat (pk_size p)"
  obtains p' m' Y where "checkFunctional obj base sz (Some d) p m prs = Inr (True, p', m', prs)"
    "makeResponse p1 = Inr p'" "holds m' q Y" "holds m' d V"
    "Y = take (unat (pk_size p)) (drop (unat (pk_addr p) - unat base) V)"
    "bytes_at (unat (pk_addr p)) Y \<subseteq>\<^sub>m bytes_at (unat base) V"
proof -
  define A B n where "A = unat (pk_addr p)" and "B = unat base" and "n = unat (pk_size p)"
  define Y where "Y = take n (drop (A - B) V)"
  have ov: "overlaps p base sz" using r o by (auto simp: in_range_def overlaps_def)
  note e = in_range_ends [OF r]
  have lenY: "length Y = n" using o v by (simp add: Y_def n_def A_def B_def)
  have off: "sint (ucast (pk_addr p - base) :: 32 word) = int (A - B)"
    using overlap_offset [OF r ov] o by (simp add: A_def B_def of_nat_diff)
  have rd: "read_bytes m1 (ptr_add d (int (A - B))) n = Inr Y"
    using buf(4) o v by (subst holds_slice [of _ d V "A - B"]) (simp_all add: Y_def A_def B_def n_def)
  obtain m' where w: "write_bytes m1 q Y = Inr m'"
    using write_bytes_holds [OF buf(5), of 0 Y q] buf(6) lenY by (auto simp: n_def ptr_add_def)
  have np: "\<not> isPrint (pk_cmd p)" using c by (cases "pk_cmd p"; simp add: cmd_attr)
  have "pk_cmd p1 = pk_cmd p" using buf(1)
    by (auto simp: pk_allocate_def Let_def pset_def new_array_def split: option.splits)
  then obtain p' where p': "makeResponse p1 = Inr p'" using makeResponse_ok c(2) by metis
  have within: "pk_addr p \<ge> base \<and> pk_addr p + ucast (pk_size p) - 1 \<le> base + scast sz - 1"
    using e o r by (simp add: word_le_nat_alt in_range_def)
  have "checkFunctional obj base sz (Some d) p m prs = Inr (True, p', m', prs)"
    using overlaps_test [OF r] ov within
    by (simp add: checkFunctional_def Let_def e(1,2) np c(1) buf(1,2) off memcpy_def rd [unfolded n_def] w p')
  moreover have "bytes_at A Y \<subseteq>\<^sub>m bytes_at B V"
    using o v lenY by (auto simp: map_le_def bytes_at_def Y_def A_def B_def n_def)
  ultimately show ?thesis
    using that p' w holds_other [OF w] buf(3,4) read_bytes_same [OF w]
    by (metis A_def B_def Y_def n_def)
qed

lemma overlap_length:
  fixes A B n k :: nat
  assumes "A < B + k" "B < A + n" "0 < n" "0 < k"
  shows "max A B \<le> min (A + n) (B + k) - 1"
    and "min (A + n) (B + k) - 1 - max A B + 1 = min (A + n) (B + k) - max A B"
    and "min (A + n) (B + k) - 1 - max A B < n"
proof -
  have "max A B < min (A + n) (B + k)" using assms by simp
  then show "max A B \<le> min (A + n) (B + k) - 1"
    "min (A + n) (B + k) - 1 - max A B + 1 = min (A + n) (B + k) - max A B" by linarith+
  have "min (A + n) (B + k) \<le> A + n" "A \<le> max A B" by simp_all
  then show "min (A + n) (B + k) - 1 - max A B < n" using assms by linarith
qed

lemma overlay_bytes:
  assumes "A < B + length V" "B < A + length X" "0 < length X" "0 < length V"
  shows "bytes_at B (overwrite (A - B) (take (min (A + length X) (B + length V) - max A B) (drop (B - A) X)) V) =
    bytes_at B V ++ (bytes_at A X |` {B..<B + length V})"
    (is "bytes_at B (overwrite ?i ?Y V) = _")
proof
  fix x
  have l: "length ?Y = min (A + length X) (B + length V) - max A B" using assms by auto
  then have il: "?i + length ?Y \<le> length V" using assms by auto
  show "bytes_at B (overwrite ?i ?Y V) x = (bytes_at B V ++ (bytes_at A X |` {B..<B + length V})) x"
  proof (cases "B \<le> x \<and> x < B + length V")
    case True
    then have o: "overwrite ?i ?Y V ! (x - B) =
        (if ?i \<le> x - B \<and> x - B < ?i + length ?Y then ?Y ! (x - B - ?i) else V ! (x - B))"
      by (intro nth_overwrite [OF il]) auto
    have g: "?i \<le> x - B \<and> x - B < ?i + length ?Y \<longleftrightarrow> A \<le> x \<and> x < A + length X"
    proof -
      define M N where "M = max A B" and "N = min (A + length X) (B + length V)"
      have "M < N" "B + ?i = M" "length ?Y = N - M" using assms l by (simp_all add: M_def N_def)
      then have "x - B < ?i + length ?Y \<longleftrightarrow> x < min (A + length X) (B + length V)"
        unfolding N_def [symmetric] using True by linarith
      also have "\<dots> \<longleftrightarrow> x < A + length X" using True by simp
      finally have "x - B < ?i + length ?Y \<longleftrightarrow> x < A + length X" .
      moreover have "?i \<le> x - B \<longleftrightarrow> A \<le> x" using True by linarith
      ultimately show ?thesis by (rule conj_cong [rotated])
    qed
    have y: "?Y ! (x - B - ?i) = X ! (x - A)" if "A \<le> x" "x < A + length X"
    proof -
      have "B - A + (x - B - ?i) = x - A" using that True by auto
      then show ?thesis using that True assms by (subst nth_take) auto
    qed
    show ?thesis using True il o g y by (auto simp: bytes_at_def map_add_def restrict_map_def)
  qed (use il in \<open>auto simp: bytes_at_def map_add_def restrict_map_def\<close>)
qed

lemma write_overlap:
  assumes r: "in_range p base sz" "overlaps p base sz"
    and c: "isWrite (pk_cmd p)" "\<not> isRead (pk_cmd p)"
    and v: "holds m d V" "length V = unat sz"
    and q: "getPtr p = Inr q" "holds m q X" "length X = unat (pk_size p)" "fst q \<noteq> fst d"
  obtains m' V' where "checkFunctional obj base sz (Some d) p m prs = Inr (False, p, m', prs)"
    "holds m' d V'" "length V' = length V" "holds m' q X" "same_outside d (length V) m m'"
    "bytes_at (unat base) V' = bytes_at (unat base) V ++
       (bytes_at (unat (pk_addr p)) X |` {unat base..<unat base + length V})"
proof -
  define A B n k where "A = unat (pk_addr p)" and "B = unat base" and "n = unat (pk_size p)"
    and "k = unat sz"
  define i j l where "i = A - B" and "j = B - A" and "l = min (A + n) (B + k) - max A B"
  define Y where "Y = take l (drop j X)"
  note e = in_range_ends [OF r(1)]
  have ov: "A < B + k" "B < A + n" using r(2) by (simp_all add: overlaps_def A_def B_def n_def k_def)
  have pos: "0 < n" "0 < k" using r(1) by (simp_all add: in_range_def n_def k_def)
  have lens: "i + l \<le> k" "j + l \<le> n" "0 < l" using ov pos by (auto simp: i_def j_def l_def)
  have lenY: "length Y = l" using lens q(3) by (simp add: Y_def n_def)
  have rd: "read_bytes m (ptr_add q (int j)) l = Inr Y"
    using q(2,3) lens by (subst holds_slice [of _ q X j]) (simp_all add: Y_def n_def)
  obtain m' where w: "write_bytes m (ptr_add d (int i)) Y = Inr m'" "holds m' d (overwrite i Y V)"
    using write_bytes_holds [OF v(1), of i Y, OF _ refl] lens lenY v(2) by (auto simp: k_def)
  have "holds m' q X" using holds_other [OF w(1)] q(2,4) by (simp add: ptr_add_def)
  moreover have "same_outside d (length V) m m'"
    using write_outside [OF w(1)] lens lenY v by (auto simp: k_def elim: holds_nth)
  moreover have "checkFunctional obj base sz (Some d) p m prs = Inr (False, p, m', prs)"
  proof -
    have np: "\<not> isPrint (pk_cmd p)" using c by (cases "pk_cmd p"; simp add: cmd_attr)
    define fe ve where "fe = pk_addr p + ucast (pk_size p) - 1" and "ve = base + scast sz - 1"
    have mn: "unat (min fe ve) = min (A + n) (B + k) - 1"
      using e pos by (auto simp: unat_min fe_def ve_def A_def B_def n_def k_def)
    have off: "sint (ucast (pk_addr p - base) :: 32 word) = int A - int B"
      using overlap_offset [OF r] by (simp add: A_def B_def)
    have small: "n < 2 ^ 31" "k < 2 ^ 31" using r(1) e(5) by (simp_all add: in_range_def n_def k_def)
    have len: "unat (min fe ve - (if B \<le> A then pk_addr p else base) + 1) = l"
    proof -
      note ol = overlap_length [OF ov pos]
      have "unat (if B \<le> A then pk_addr p else base) = max A B" by (simp add: A_def B_def)
      then have "unat (min fe ve - (if B \<le> A then pk_addr p else base) + 1) =
          min (A + n) (B + k) - 1 - max A B + 1"
        using mn ol(1) less_trans [OF ol(3) small(1)] by (subst unat_span) (simp_all del: max.bounded_iff)
      then show ?thesis unfolding l_def ol(2) .
    qed
    have test: "\<not> (pk_addr p > ve \<or> base > fe)"
      using overlaps_test [OF r(1)] r(2) by (simp add: fe_def ve_def)
    show ?thesis
    proof (cases "B \<le> A")
      case True
      then have "int A - int B = int i" "j = 0" by (simp_all add: i_def j_def of_nat_diff)
      then show ?thesis using True test len rd w(1) np c q(1) off
        by (simp add: checkFunctional_def Let_def e(1,2) memcpy_def ptr_add_def fe_def [symmetric] ve_def [symmetric])
    next
      case False
      then have "int A - int B = - int j" "i = 0" "0 < j" by (simp_all add: i_def j_def of_nat_diff)
      then show ?thesis using False test len rd w(1) np c q(1) off
        by (simp add: checkFunctional_def Let_def e(1,2) memcpy_def ptr_add_def fe_def [symmetric] ve_def [symmetric])
    qed
  qed
  moreover have "bytes_at B (overwrite i Y V) = bytes_at B V ++ (bytes_at A X |` {B..<B + length V})"
    using overlay_bytes [where A = A and B = B and X = X and V = V] ov pos v(2) q(3)
    by (simp add: Y_def i_def j_def l_def n_def k_def)
  ultimately show ?thesis using that w(2) lens lenY v(2)
    by (metis A_def B_def k_def length_overwrite)
qed

subsection \<open>Properties\<close>

text \<open>
  A sample packet: a request of four bytes at address 12 with the payload in a buffer of
  its own, and a byte heap with that buffer and a value of eight bytes.
\<close>

definition sample_request :: request where
  "sample_request = \<lparr>r_paddr = 12, r_size = 4, r_flags = 0, privateFlags = 0x63, r_time = 0, r_asid = 0, r_vaddr = 0,
     r_extraData = 0, r_contextId = 3, r_threadId = 0, r_pc = 0\<rparr>"

definition sample_packet :: "mem_cmd \<Rightarrow> nat \<Rightarrow> packet" where
  "sample_packet c b = \<lparr>pk_flags = 0x1700, pk_cmd = c, pk_req = Some 0, pk_data = Some (b, 0), pk_addr = 12,
     pk_size = 4, pk_src = 5, pk_dest = Broadcast, pk_origCmd = InvalidCmd,  pk_time = 0, pk_finishTime = 0, pk_firstWordTime = 0, pk_senderState = None\<rparr>"

definition sample_bytes :: bmem where
  "sample_bytes = \<lparr>blocks = [0 \<mapsto> (NewArray, [1, 2, 3, 4, 5, 6, 7, 8]), 1 \<mapsto> (NewArray, [10, 20, 30, 40])],
     brk = 2, junk = \<lambda>_ _. 0\<rparr>"

lemma sample_packet_tests:
  "ptest VALID_ADDR (sample_packet c b)" "ptest VALID_SIZE (sample_packet c b)" "ptest VALID_SRC (sample_packet c b)"
  "ptest STATIC_DATA (sample_packet c b)" "ptest (STATIC_DATA OR DYNAMIC_DATA) (sample_packet c b)"
  "\<not> ptest DYNAMIC_DATA (sample_packet c b)" "\<not> ptest MEM_INHIBIT (sample_packet c b)"
  by (simp_all add: pk_bits sample_packet_def)

lemma sample_packet_fields [simp]:
  "pk_cmd (sample_packet c b) = c" "pk_addr (sample_packet c b) = 12" "pk_size (sample_packet c b) = 4"
  "pk_data (sample_packet c b) = Some (b, 0)" "pk_req (sample_packet c b) = Some 0"
  by (simp_all add: sample_packet_def)

lemma sample_holds: "holds sample_bytes (0, 0) [1, 2, 3, 4, 5, 6, 7, 8]" "holds sample_bytes (1, 0) [10, 20, 30, 40]"
  by (simp_all add: holds_def read_bytes_def sample_bytes_def)

text \<open>
  C32: The command table is consistent: the response of a command that needs one is a response
  that needs none, is no error, reads and writes exactly when the command does, carries
  data when the command reads, and no command is both a request and a response.
\<close>

theorem command_table:
  assumes "needsResponse c"
  shows "isRequest c \<and> \<not> isResponse c \<and> isResponse (responseCommand c) \<and> \<not> isRequest (responseCommand c) \<and>
    \<not> needsResponse (responseCommand c) \<and> \<not> isError (responseCommand c) \<and>
    isRead (responseCommand c) = isRead c \<and> isWrite (responseCommand c) = isWrite c \<and>
    needsExclusive (responseCommand c) = needsExclusive c \<and> (isRead c \<longrightarrow> hasData (responseCommand c))"
  using command_kinds response_kind [OF assms] assms by blast

theorem command_table_witness:
  "isResponse (responseCommand ReadExReq) \<and> needsExclusive (responseCommand ReadExReq) \<and> hasData (responseCommand ReadExReq)"
proof -
  have "needsResponse ReadExReq" "isRead ReadExReq" "needsExclusive ReadExReq" by (simp_all add: cmd_attr)
  then show ?thesis using command_table [of ReadExReq] by simp
qed

text \<open>
  A request that is answered, nacked by the network and reinitialised is the original
  request again: the command, address, size, data and request are restored and the
  destination is broadcast.
\<close>

theorem nacked_request_restored:
  assumes "needsResponse (pk_cmd p)"
  shows "\<exists>p1 p2 p3. makeResponse p = Inr p1 \<and> setNacked p1 = Inr p2 \<and> wasNacked p2 \<and> reinitNacked p2 = Inr p3 \<and>
    pk_cmd p3 = pk_cmd p \<and> getDest p3 = Inr Broadcast \<and> pk_data p3 = pk_data p \<and> pk_req p3 = pk_req p \<and>
    pk_addr p3 = pk_addr p \<and> pk_size p3 = pk_size p"
proof -
  obtain p1 where p1: "makeResponse p = Inr p1" using makeResponse_ok [OF assms] by blast
  have "isResponse (pk_cmd p1)" using makeResponse_fields(1,2) [OF p1] response_kind(1) by simp
  then have "setNacked p1 = Inr (p1\<lparr>pk_cmd := NetworkNackError\<rparr>)" by (simp add: setNacked_def)
  with nack_round_trip [OF p1 this] p1 show ?thesis by (auto simp: wasNacked_def)
qed

theorem nacked_request_restored_witness:
  "\<exists>p1 p2 p3. makeResponse (sample_packet ReadReq 1) = Inr p1 \<and> setNacked p1 = Inr p2 \<and> reinitNacked p2 = Inr p3 \<and>
    pk_cmd p3 = ReadReq \<and> getDest p3 = Inr Broadcast"
proof -
  have "needsResponse ReadReq" by (simp add: cmd_attr)
  then show ?thesis using nacked_request_restored [of "sample_packet ReadReq 1"] by auto
qed

text \<open>
  C31: A functional read that lies within a value is answered from it: the packet becomes a
  response and its buffer holds exactly the bytes of the value at the packet's addresses.
\<close>

theorem functional_read:
  assumes "in_range p base sz" "unat base \<le> unat (pk_addr p)"
      "unat (pk_addr p) + unat (pk_size p) \<le> unat base + unat sz"
    and "isRead (pk_cmd p)" "needsResponse (pk_cmd p)" "length V = unat sz"
    and "pk_allocate p m = Inr (p1, m1)" "getPtr p1 = Inr q" "fst q \<noteq> fst d" "holds m1 d V"
      "holds m1 q X" "length X = unat (pk_size p)"
  shows "\<exists>p' m' Y. checkFunctional obj base sz (Some d) p m prs = Inr (True, p', m', prs) \<and>
    makeResponse p1 = Inr p' \<and> holds m' q Y \<and> holds m' d V \<and> length Y = unat (pk_size p) \<and>
    bytes_at (unat (pk_addr p)) Y \<subseteq>\<^sub>m bytes_at (unat base) V"
proof -
  obtain p' m' Y where "checkFunctional obj base sz (Some d) p m prs = Inr (True, p', m', prs)"
    "makeResponse p1 = Inr p'" "holds m' q Y" "holds m' d V"
    "Y = take (unat (pk_size p)) (drop (unat (pk_addr p) - unat base) V)"
    "bytes_at (unat (pk_addr p)) Y \<subseteq>\<^sub>m bytes_at (unat base) V"
    using read_contained [OF assms, of obj prs] .
  moreover have "length (take (unat (pk_size p)) (drop (unat (pk_addr p) - unat base) V)) = unat (pk_size p)"
    using assms(2,3,6) by simp
  ultimately show ?thesis by auto
qed

lemma sample_in_range: "in_range (sample_packet c b) 8 8" "overlaps (sample_packet c b) 8 8"
  by (simp_all add: in_range_def overlaps_def sample_packet_tests word_sle_eq)

lemma sample_getPtr: "getPtr (sample_packet c b) = Inr (b, 0)"
  using sample_packet_tests(5) by (simp add: getPtr_def)

theorem functional_read_witness:
  "\<exists>p' m' Y. checkFunctional (\<lambda>_ s. s) 8 8 (Some (0, 0)) (sample_packet ReadReq 1) sample_bytes None = Inr (True, p', m', None) \<and>
    holds m' (1, 0) Y \<and> bytes_at 12 Y \<subseteq>\<^sub>m bytes_at 8 [1, 2, 3, 4, 5, 6, 7, 8]"
proof -
  have "isRead ReadReq" "needsResponse ReadReq" by (simp_all add: cmd_attr)
  moreover have "pk_allocate (sample_packet ReadReq 1) sample_bytes = Inr (sample_packet ReadReq 1, sample_bytes)"
    using sample_packet_tests(5) by (simp add: pk_allocate_def)
  ultimately show ?thesis
    using functional_read [of "sample_packet ReadReq 1" 8 8 "[1, 2, 3, 4, 5, 6, 7, 8]" sample_bytes
        "sample_packet ReadReq 1" sample_bytes "(1, 0)" "(0, 0)" "[10, 20, 30, 40]" "\<lambda>_ s. s" None]
      sample_in_range(1) sample_getPtr sample_holds
    by auto
qed

text \<open>
  C30: A functional write against a value it overlaps changes the value to the overlay of the
  packet's bytes on it, whether it starts before or after the value, and changes neither
  the bytes of the value outside the packet, nor the packet and its payload, nor any byte of
  the memory outside the value.
\<close>

theorem functional_write:
  assumes "in_range p base sz" "overlaps p base sz" "isWrite (pk_cmd p)" "\<not> isRead (pk_cmd p)"
    and "holds m d V" "length V = unat sz"
    and "getPtr p = Inr q" "holds m q X" "length X = unat (pk_size p)" "fst q \<noteq> fst d"
  shows "\<exists>m' V'. checkFunctional obj base sz (Some d) p m prs = Inr (False, p, m', prs) \<and>
    holds m' d V' \<and> length V' = length V \<and> holds m' q X \<and> same_outside d (length V) m m' \<and>
    bytes_at (unat base) V' = bytes_at (unat base) V ++
      (bytes_at (unat (pk_addr p)) X |` {unat base..<unat base + length V})"
  using write_overlap [OF assms, of obj prs] by metis

theorem functional_write_witness:
  "\<exists>m' V'. checkFunctional (\<lambda>_ s. s) 8 8 (Some (0, 0)) (sample_packet WriteReq 1) sample_bytes None =
      Inr (False, sample_packet WriteReq 1, m', None) \<and> holds m' (0, 0) V' \<and> same_outside (0, 0) 8 sample_bytes m' \<and>
    bytes_at 8 V' = bytes_at 8 [1, 2, 3, 4, 5, 6, 7, 8] ++ (bytes_at 12 [10, 20, 30, 40] |` {8..<16})"
proof -
  let ?V = "[1, 2, 3, 4, 5, 6, 7, 8] :: uint8 list"
  have w: "isWrite WriteReq" "\<not> isRead WriteReq" by (simp_all add: cmd_attr)
  have n: "length ?V = 8" by simp
  obtain m' V' where "checkFunctional (\<lambda>_ s. s) 8 8 (Some (0, 0)) (sample_packet WriteReq 1) sample_bytes None =
      Inr (False, sample_packet WriteReq 1, m', None)" "holds m' (0, 0) V'" "same_outside (0, 0) (length ?V) sample_bytes m'"
    "bytes_at 8 V' = bytes_at 8 ?V ++ (bytes_at 12 [10, 20, 30, 40] |` {8..<16})"
    using functional_write [of "sample_packet WriteReq 1" 8 8 sample_bytes "(0, 0)" ?V
        "(1, 0)" "[10, 20, 30, 40]" "\<lambda>_ s. s" None] sample_in_range sample_getPtr sample_holds w
    by auto
  then show ?thesis unfolding n by blast
qed

text \<open>
  Ownership of payloads: a packet that allocated its payload frees exactly that buffer
  when it deletes its data, and a copy of a packet never frees the buffer it shares with
  the original.
\<close>

theorem payload_ownership:
  assumes "pk_data p = None" "pk_allocate p m = Inr (p1, m1)" "bmem_ok m"
  shows "(\<exists>p2 m2. deleteData p1 m1 = Inr (p2, m2) \<and> blocks m2 = blocks m \<and> pk_data p2 = None) \<and>
    (\<exists>p3. deleteData (Packet_copy raw now p1 c) m1 = Inr (p3, m1) \<and> pk_data p3 = None)"
  using allocate_delete [OF assms] copy_not_owner(2) [of raw now p1 c m1] by fastforce

theorem payload_ownership_witness:
  "\<exists>p1 m1. pk_allocate ((sample_packet ReadReq 1)\<lparr>pk_data := None, pk_flags := 0x0300\<rparr>) sample_bytes = Inr (p1, m1) \<and>
    (\<exists>p2 m2. deleteData p1 m1 = Inr (p2, m2) \<and> blocks m2 = blocks sample_bytes) \<and>
    (\<exists>p3. deleteData (Packet_copy p1 0 p1 True) m1 = Inr (p3, m1))"
proof -
  let ?p = "(sample_packet ReadReq 1)\<lparr>pk_data := None, pk_flags := 0x0300\<rparr>"
  have "\<exists>r. pk_allocate ?p sample_bytes = Inr r"
    by (simp add: pk_allocate_def getSize_def pk_bits new_array_def)
  then obtain p1 m1 where a: "pk_allocate ?p sample_bytes = Inr (p1, m1)" by auto
  have "bmem_ok sample_bytes" by (simp add: bmem_ok_def sample_bytes_def)
  with payload_ownership [OF _ a, of p1 0 True] a show ?thesis by auto
qed

end
