(* ===== verification/Physical_Memory.thy ===== *)
theory Physical_Memory
  imports Packet
begin

unbundle bit_operations_syntax

section \<open>Physical memory\<close>

text \<open>
  Model of \<^verbatim>\<open>src/src/mem/physical.hh\<close> and \<^verbatim>\<open>src/src/mem/physical.cc\<close>: the list of load
  locks, the atomic and the functional access, and the page allocator. The host copy
  of the memory is a block of the byte heap; \<open>pmemAddr\<close> is null when the memory is
  configured without storage. The random latency, the byte order of the host, the
  size of an integer register and the formatting of a byte are parameters.

  The lemmas show that the lock list implements a map from contexts to the granule
  each has locked, when a store conditional succeeds in terms of the history of
  accesses, and that an atomic access reads and writes the bytes of the memory at
  the packet's address.
\<close>

subsection \<open>Load locks\<close>

record locked_addr =
  la_addr :: addr
  la_contextId :: "32 word"

definition Addr_Mask :: addr where "Addr_Mask = 0xf"

definition la_mask :: "addr \<Rightarrow> addr" where
  "la_mask paddr = paddr AND NOT Addr_Mask"

definition la_matchesContext :: "request \<Rightarrow> locked_addr \<Rightarrow> bool res" where
  "la_matchesContext r x = bindR (contextId r) (\<lambda>c. Inr (la_contextId x = c))"

definition LockedAddr_new :: "request \<Rightarrow> locked_addr res" where
  "LockedAddr_new r = bindR (getPaddr r) (\<lambda>a. bindR (contextId r) (\<lambda>c.
     Inr \<lparr>la_addr = la_mask a, la_contextId = c\<rparr>))"

fun retarget_lock :: "request \<Rightarrow> addr \<Rightarrow> locked_addr list \<Rightarrow> locked_addr list option res" where
  "retarget_lock r a [] = Inr None"
| "retarget_lock r a (x # xs) = bindR (la_matchesContext r x) (\<lambda>b.
     if b then Inr (Some (x\<lparr>la_addr := a\<rparr> # xs))
     else bindR (retarget_lock r a xs) (\<lambda>res. Inr (map_option (Cons x) res)))"

definition trackLoadLocked :: "request \<Rightarrow> locked_addr list \<Rightarrow> locked_addr list res" where
  "trackLoadLocked r L = bindR (getPaddr r) (\<lambda>pa.
     bindR (retarget_lock r (la_mask pa) L) (\<lambda>res.
     case res of Some L' \<Rightarrow> Inr L' | None \<Rightarrow> bindR (LockedAddr_new r) (\<lambda>x. Inr (x # L))))"

fun sweep_locks :: "bool \<Rightarrow> request \<Rightarrow> addr \<Rightarrow> locked_addr list \<Rightarrow> bool \<Rightarrow>
    (locked_addr list \<times> bool) res" where
  "sweep_locks llsc r a [] success = Inr ([], success)"
| "sweep_locks llsc r a (x # xs) success =
     (if la_addr x = a
      then bindR (if llsc then la_matchesContext r x else Inr False) (\<lambda>b.
           sweep_locks llsc r a xs (if b then True else success))
      else bindR (sweep_locks llsc r a xs success) (\<lambda>(L, s). Inr (x # L, s)))"

definition checkLockedAddrList :: "mem_cmd \<Rightarrow> request \<Rightarrow> locked_addr list \<Rightarrow>
    (bool \<times> request \<times> locked_addr list) res" where
  "checkLockedAddrList c r L = bindR (getPaddr r) (\<lambda>pa.
     bindR (sweep_locks (isLLSC c) r (la_mask pa) L (\<not> isLLSC c)) (\<lambda>(L', success).
     Inr (success, if isLLSC c then setExtraData (if success then 1 else 0) r else r, L')))"

definition writeOK :: "mem_cmd \<Rightarrow> request \<Rightarrow> locked_addr list \<Rightarrow>
    (bool \<times> request \<times> locked_addr list) res" where
  "writeOK c r L = (if L = []
     then Inr (\<not> isLLSC c, if isLLSC c then setExtraData 0 r else r, [])
     else checkLockedAddrList c r L)"

subsection \<open>The memory object\<close>

record physmem =
  lockedAddrList :: "locked_addr list"
  pmemAddr :: "ptr option"
  pagePtr :: "32 word"
  pm_lat :: tick
  pm_lat_var :: tick
  cachedSize :: "64 word"
  cachedStart :: "64 word"

definition new_page :: "nat \<Rightarrow> physmem \<Rightarrow> addr \<times> physmem" where
  "new_page LogVMPageSize s =
     (scast (push_bit LogVMPageSize (pagePtr s)) + cachedStart s, s\<lparr>pagePtr := pagePtr s + 1\<rparr>)"

definition calculateLatency :: "(tick \<Rightarrow> tick \<Rightarrow> tick) \<Rightarrow> physmem \<Rightarrow> tick" where
  "calculateLatency rnd s = (if pm_lat_var s \<noteq> 0 then pm_lat s + rnd 0 (pm_lat_var s) else pm_lat s)"

record pmsys =
  pm :: physmem
  pm_bufs :: bmem
  pm_reqs :: "nat \<Rightarrow> request option"

definition req_of :: "pmsys \<Rightarrow> packet \<Rightarrow> (nat \<times> request) res" where
  "req_of s p = (case pk_req p of None \<Rightarrow> Inl BadPtr
     | Some rp \<Rightarrow> (case pm_reqs s rp of None \<Rightarrow> Inl BadPtr | Some r \<Rightarrow> Inr (rp, r)))"

definition in_memory :: "physmem \<Rightarrow> packet \<Rightarrow> unit res" where
  "in_memory s p = bindR (getAddr p) (\<lambda>a. bindR (getSize p) (\<lambda>n.
     assertR (a \<ge> cachedStart s \<and> a + ucast n \<le> cachedStart s + cachedSize s) ''address in range''))"

definition hostAddr :: "physmem \<Rightarrow> packet \<Rightarrow> ptr option" where
  "hostAddr s p = map_option (\<lambda>b. ptr_add b (uint (pk_addr p - cachedStart s))) (pmemAddr s)"

definition host_bytes :: "bool \<Rightarrow> nat \<Rightarrow> 64 word \<Rightarrow> uint8 list" where
  "host_bytes big_endian n w =
     (let bs = map (\<lambda>i. ucast (drop_bit (8 * i) w)) [0..<n] in if big_endian then rev bs else bs)"

definition do_swap :: "nat \<Rightarrow> bool \<Rightarrow> packet \<Rightarrow> pmsys \<Rightarrow> pmsys res" where
  "do_swap intRegBytes be p s = (case hostAddr (pm s) p of
       None \<Rightarrow> Inl (Panic ''Swap only works if there is real memory (i.e. null=False)'')
     | Some host \<Rightarrow>
         bindR (getSize p) (\<lambda>n.
         bindR (assertR (unat n \<le> intRegBytes) ''sizeof(IntReg) >= pkt->getSize()'') (\<lambda>_.
         bindR (getPtr p) (\<lambda>d.
         bindR (read_bytes (pm_bufs s) d (unat n)) (\<lambda>overwrite_val.
         bindR (memcpy (pm_bufs s) d host (unat n)) (\<lambda>m1.
         bindR (req_of s p) (\<lambda>(rp, r).
         bindR (if isCondSwap r
                then if n = 8
                     then bindR (getExtraData r) (\<lambda>v. bindR (read_bytes m1 host 8) (\<lambda>bs.
                            Inr (host_bytes be 8 v = bs)))
                     else if n = 4
                     then bindR (getExtraData r) (\<lambda>v. bindR (read_bytes m1 host 4) (\<lambda>bs.
                            Inr (host_bytes be 4 (ucast (ucast v :: 32 word)) = bs)))
                     else Inl (Panic ''Invalid size for conditional read/write'')
                else Inr True) (\<lambda>overwrite_mem.
         bindR (if overwrite_mem then write_bytes m1 host overwrite_val else Inr m1) (\<lambda>m2.
         bindR (assertR (\<not> isInstFetch r) ''!pkt->req->isInstFetch()'') (\<lambda>_.
         Inr (s\<lparr>pm_bufs := m2\<rparr>)))))))))))"

definition do_read :: "packet \<Rightarrow> pmsys \<Rightarrow> pmsys res" where
  "do_read p s =
     bindR (assertR (\<not> isWrite (pk_cmd p)) ''!pkt->isWrite()'') (\<lambda>_.
     bindR (if isLLSC (pk_cmd p)
            then bindR (req_of s p) (\<lambda>(rp, r).
                 bindR (trackLoadLocked r (lockedAddrList (pm s))) (\<lambda>L.
                 Inr (s\<lparr>pm := (pm s)\<lparr>lockedAddrList := L\<rparr>\<rparr>)))
            else Inr s) (\<lambda>s1.
     case hostAddr (pm s1) p of None \<Rightarrow> Inr s1
     | Some host \<Rightarrow> bindR (getPtr p) (\<lambda>d. bindR (getSize p) (\<lambda>n.
         bindR (memcpy (pm_bufs s1) d host (unat n)) (\<lambda>m. Inr (s1\<lparr>pm_bufs := m\<rparr>))))))"

definition do_write :: "packet \<Rightarrow> pmsys \<Rightarrow> pmsys res" where
  "do_write p s =
     bindR (req_of s p) (\<lambda>(rp, r).
     bindR (writeOK (pk_cmd p) r (lockedAddrList (pm s))) (\<lambda>(ok, r', L).
     let s1 = s\<lparr>pm := (pm s)\<lparr>lockedAddrList := L\<rparr>, pm_reqs := (pm_reqs s)(rp \<mapsto> r')\<rparr> in
     if ok
     then bindR (case hostAddr (pm s1) p of None \<Rightarrow> Inr s1
                 | Some host \<Rightarrow> bindR (getPtr p) (\<lambda>d. bindR (getSize p) (\<lambda>n.
                     bindR (memcpy (pm_bufs s1) host d (unat n)) (\<lambda>m. Inr (s1\<lparr>pm_bufs := m\<rparr>)))))
          (\<lambda>s2. bindR (assertR (\<not> isInstFetch r') ''!pkt->req->isInstFetch()'') (\<lambda>_. Inr s2))
     else Inr s1))"

definition respond_if_needed :: "packet \<Rightarrow> packet res" where
  "respond_if_needed p = (if needsResponse (pk_cmd p) then makeResponse p else Inr p)"

definition doAtomicAccess :: "nat \<Rightarrow> bool \<Rightarrow> (tick \<Rightarrow> tick \<Rightarrow> tick) \<Rightarrow> packet \<Rightarrow> pmsys \<Rightarrow>
    (tick \<times> packet \<times> pmsys) res" where
  "doAtomicAccess intRegBytes be rnd p s =
     bindR (in_memory (pm s) p) (\<lambda>_.
     if memInhibitAsserted p then Inr (0, p, s)
     else
       bindR (if pk_cmd p = SwapReq then bindR (do_swap intRegBytes be p s) (\<lambda>s'. Inr (p, s'))
              else if isRead (pk_cmd p) then bindR (do_read p s) (\<lambda>s'. Inr (p, s'))
              else if isWrite (pk_cmd p) then bindR (do_write p s) (\<lambda>s'. Inr (p, s'))
              else if isInvalidate (pk_cmd p) then bindR (respond_if_needed p) (\<lambda>p'. Inr (p', s))
              else Inl (Panic ''unimplemented'')) (\<lambda>(p1, s1).
       bindR (respond_if_needed p1) (\<lambda>p2.
       Inr (calculateLatency rnd (pm s1), p2, s1))))"

definition doFunctionalAccess :: "(uint8 \<Rightarrow> string) \<Rightarrow> packet \<Rightarrow> pmsys \<Rightarrow> print_req option \<Rightarrow>
    (packet \<times> pmsys \<times> print_req option) res" where
  "doFunctionalAccess fmt p s prs =
     bindR (in_memory (pm s) p) (\<lambda>_.
     if isRead (pk_cmd p) then
       bindR (case hostAddr (pm s) p of None \<Rightarrow> Inr s
              | Some host \<Rightarrow> bindR (getPtr p) (\<lambda>d. bindR (getSize p) (\<lambda>n.
                  bindR (memcpy (pm_bufs s) d host (unat n)) (\<lambda>m. Inr (s\<lparr>pm_bufs := m\<rparr>))))) (\<lambda>s1.
       bindR (makeResponse p) (\<lambda>p1. Inr (p1, s1, prs)))
     else if isWrite (pk_cmd p) then
       bindR (case hostAddr (pm s) p of None \<Rightarrow> Inr s
              | Some host \<Rightarrow> bindR (getPtr p) (\<lambda>d. bindR (getSize p) (\<lambda>n.
                  bindR (memcpy (pm_bufs s) host d (unat n)) (\<lambda>m. Inr (s\<lparr>pm_bufs := m\<rparr>))))) (\<lambda>s1.
       bindR (makeResponse p) (\<lambda>p1. Inr (p1, s1, prs)))
     else if isPrint (pk_cmd p) then
       (case prs of None \<Rightarrow> Inl BadPtr
        | Some ps \<Rightarrow> bindR (printLabels ps) (\<lambda>ps1.
            case hostAddr (pm s) p of None \<Rightarrow> Inl BadPtr
            | Some host \<Rightarrow> bindR (read_bytes (pm_bufs s) host 1) (\<lambda>bs.
                Inr (p, s, Some (ps1\<lparr>ps_os := ps_os ps1 @ curPrefix ps1 @ fmt (hd bs) @ [CHR 0x0A]\<rparr>)))))
     else Inl (Panic ''PhysicalMemory: unimplemented functional command''))"

subsection \<open>The lock list as a map\<close>

text \<open>
  Abstractly the list maps each context to the granule it has locked; a context has
  at most one entry.
\<close>

definition locks :: "locked_addr list \<Rightarrow> 32 word \<rightharpoonup> addr" where
  "locks L = map_of (map (\<lambda>x. (la_contextId x, la_addr x)) L)"

definition locks_ok :: "locked_addr list \<Rightarrow> bool" where
  "locks_ok L \<longleftrightarrow> distinct (map la_contextId L)"

lemma locks_simps [simp]:
  "locks [] = Map.empty"
  "locks (x # L) = (locks L)(la_contextId x \<mapsto> la_addr x)"
  "locks_ok []"
  "locks_ok (x # L) \<longleftrightarrow> la_contextId x \<notin> la_contextId ` set L \<and> locks_ok L"
  by (auto simp: locks_def locks_ok_def)

lemma dom_locks: "locks L c = None \<longleftrightarrow> c \<notin> la_contextId ` set L"
  by (induction L) auto

lemma locks_mem: "locks_ok L \<Longrightarrow> locks L c = Some a \<longleftrightarrow> (\<exists>x\<in>set L. la_contextId x = c \<and> la_addr x = a)"
  by (auto simp: locks_def locks_ok_def map_of_eq_Some_iff comp_def)

lemma retarget_lock_spec:
  assumes "contextId r = Inr c"
  shows "c \<notin> la_contextId ` set L \<Longrightarrow> retarget_lock r a L = Inr None"
    and "c \<in> la_contextId ` set L \<Longrightarrow> \<exists>L'. retarget_lock r a L = Inr (Some L') \<and>
      map la_contextId L' = map la_contextId L \<and> locks L' = (locks L)(c \<mapsto> a)"
  using assms by (induction L) (auto simp: la_matchesContext_def fun_upd_twist)

lemma trackLoadLocked_refines:
  assumes "contextId r = Inr c" "getPaddr r = Inr a" "locks_ok L"
  shows "\<exists>L'. trackLoadLocked r L = Inr L' \<and> locks_ok L' \<and> locks L' = (locks L)(c \<mapsto> la_mask a)"
proof (cases "c \<in> la_contextId ` set L")
  case True
  then show ?thesis using retarget_lock_spec(2) [OF assms(1) True, of "la_mask a"] assms
    by (auto simp: trackLoadLocked_def locks_ok_def)
next
  case False
  then show ?thesis using retarget_lock_spec(1) [OF assms(1) False] assms
    by (auto simp: trackLoadLocked_def LockedAddr_new_def)
qed

lemma sweep_locks_spec:
  assumes "llsc \<Longrightarrow> contextId r = Inr c"
  shows "sweep_locks llsc r a L s = Inr (filter (\<lambda>x. la_addr x \<noteq> a) L,
    s \<or> llsc \<and> (\<exists>x\<in>set L. la_contextId x = c \<and> la_addr x = a))"
  using assms by (induction L arbitrary: s) (auto simp: la_matchesContext_def)

lemma locks_filter:
  "locks_ok L \<Longrightarrow> locks (filter (\<lambda>x. la_addr x \<noteq> a) L) = (\<lambda>c. if locks L c = Some a then None else locks L c)"
  "locks_ok L \<Longrightarrow> locks_ok (filter (\<lambda>x. la_addr x \<noteq> a) L)"
  by (induction L) (auto simp: fun_eq_iff dom_locks)

lemma writeOK_refines:
  assumes "isLLSC k \<Longrightarrow> contextId r = Inr c" "getPaddr r = Inr a" "locks_ok L"
  shows "\<exists>L'. writeOK k r L = Inr (\<not> isLLSC k \<or> locks L c = Some (la_mask a),
      if isLLSC k then setExtraData (if locks L c = Some (la_mask a) then 1 else 0) r else r, L') \<and>
    locks_ok L' \<and> locks L' = (\<lambda>x. if locks L x = Some (la_mask a) then None else locks L x)"
proof (cases "L = []")
  case True
  then show ?thesis by (auto simp: writeOK_def)
next
  case False
  then show ?thesis
    using sweep_locks_spec [OF assms(1), where a = "la_mask a" and L = L and s = "\<not> isLLSC k"] assms(2,3)
      locks_filter [OF assms(3), of "la_mask a"] locks_mem [OF assms(3)]
    by (auto simp: writeOK_def checkLockedAddrList_def)
qed

subsection \<open>Histories of locked accesses\<close>

text \<open>
  A history is a list of commands with their requests. A load-locked records the
  lock, every store goes through \<open>writeOK\<close>, everything else leaves the list alone.
\<close>

definition lock_step :: "mem_cmd \<times> request \<Rightarrow> locked_addr list \<Rightarrow> locked_addr list res" where
  "lock_step op L = (case op of (k, r) \<Rightarrow>
     if k = LoadLockedReq then trackLoadLocked r L
     else if isWrite k \<and> k \<noteq> SwapReq then bindR (writeOK k r L) (\<lambda>(ok, r', L'). Inr L')
     else Inr L)"

fun lock_run :: "(mem_cmd \<times> request) list \<Rightarrow> locked_addr list \<Rightarrow> locked_addr list res" where
  "lock_run [] L = Inr L"
| "lock_run (op # h) L = bindR (lock_step op L) (lock_run h)"

definition has_ids :: "request \<Rightarrow> bool" where
  "has_ids r \<longleftrightarrow> hasPaddr r \<and> hasContextId r"

definition granule :: "request \<Rightarrow> addr" where
  "granule r = la_mask (r_paddr r)"

definition locked_since :: "(mem_cmd \<times> request) list \<Rightarrow> 32 word \<Rightarrow> addr \<Rightarrow> bool" where
  "locked_since h c g \<longleftrightarrow> (\<exists>h1 r h2. h = h1 @ (LoadLockedReq, r) # h2 \<and> r_contextId r = c \<and> granule r = g \<and>
     (\<forall>(k, q)\<in>set h2. (k = LoadLockedReq \<longrightarrow> r_contextId q \<noteq> c) \<and>
       (isWrite k \<and> k \<noteq> SwapReq \<longrightarrow> granule q \<noteq> g)))"

lemma has_ids_accessors: "has_ids r \<Longrightarrow> getPaddr r = Inr (r_paddr r) \<and> contextId r = Inr (r_contextId r)"
  by (simp add: has_ids_def getPaddr_def contextId_def)

lemma lock_step_spec:
  assumes "has_ids r" "locks_ok L"
  shows "\<exists>L'. lock_step (k, r) L = Inr L' \<and> locks_ok L' \<and> locks L' =
    (if k = LoadLockedReq then (locks L)(r_contextId r \<mapsto> granule r)
     else if isWrite k \<and> k \<noteq> SwapReq then (\<lambda>x. if locks L x = Some (granule r) then None else locks L x)
     else locks L)"
  using trackLoadLocked_refines [of r "r_contextId r" "r_paddr r" L]
    writeOK_refines [of k r "r_contextId r" "r_paddr r" L] has_ids_accessors [OF assms(1)] assms(2)
  by (auto simp: lock_step_def granule_def)

lemma lock_run_append: "lock_run (h @ h') L = bindR (lock_run h L) (lock_run h')"
  by (induction h arbitrary: L) (simp_all add: bindR_assoc cong: bindR_cong)

lemma locked_since_snoc:
  "locked_since (h @ [(k, q)]) c g \<longleftrightarrow>
    (k = LoadLockedReq \<and> r_contextId q = c \<and> granule q = g) \<or>
    (locked_since h c g \<and> (k = LoadLockedReq \<longrightarrow> r_contextId q \<noteq> c) \<and>
      (isWrite k \<and> k \<noteq> SwapReq \<longrightarrow> granule q \<noteq> g))"
  (is "?l \<longleftrightarrow> ?a \<or> ?b")
proof
  assume ?l
  then obtain h1 r h2 where h: "h @ [(k, q)] = h1 @ (LoadLockedReq, r) # h2" "r_contextId r = c" "granule r = g"
      and p: "\<forall>(k, q)\<in>set h2. (k = LoadLockedReq \<longrightarrow> r_contextId q \<noteq> c) \<and> (isWrite k \<and> k \<noteq> SwapReq \<longrightarrow> granule q \<noteq> g)"
    unfolding locked_since_def by blast
  show "?a \<or> ?b"
  proof (cases h2 rule: rev_cases)
    case Nil
    then show ?thesis using h by auto
  next
    case (snoc h3 op)
    then have "h = h1 @ (LoadLockedReq, r) # h3" "op = (k, q)" using h by auto
    then show ?thesis using h p snoc unfolding locked_since_def by fastforce
  qed
next
  assume "?a \<or> ?b"
  then show ?l
  proof
    assume ?a
    then show ?l unfolding locked_since_def by (intro exI [of _ h] exI [of _ q] exI [of _ "[]"]) auto
  next
    assume b: ?b
    then obtain h1 r h2 where "h = h1 @ (LoadLockedReq, r) # h2" "r_contextId r = c" "granule r = g"
      "\<forall>(k, q)\<in>set h2. (k = LoadLockedReq \<longrightarrow> r_contextId q \<noteq> c) \<and> (isWrite k \<and> k \<noteq> SwapReq \<longrightarrow> granule q \<noteq> g)"
      unfolding locked_since_def by blast
    with b show ?l unfolding locked_since_def by (intro exI [of _ h1] exI [of _ r] exI [of _ "h2 @ [(k, q)]"]) auto
  qed
qed

lemma lock_run_spec:
  assumes "\<forall>op\<in>set h. has_ids (snd op)"
  shows "\<exists>L. lock_run h [] = Inr L \<and> locks_ok L \<and> (\<forall>c g. locks L c = Some g \<longleftrightarrow> locked_since h c g)"
  using assms
proof (induction h rule: rev_induct)
  case Nil
  then show ?case by (simp add: locked_since_def)
next
  case (snoc op h)
  obtain k q where op: "op = (k, q)" by fastforce
  obtain L where L: "lock_run h [] = Inr L" "locks_ok L" "\<And>c g. locks L c = Some g \<longleftrightarrow> locked_since h c g"
    using snoc by auto
  obtain L' where "lock_step (k, q) L = Inr L'" "locks_ok L'" "locks L' =
    (if k = LoadLockedReq then (locks L)(r_contextId q \<mapsto> granule q)
     else if isWrite k \<and> k \<noteq> SwapReq then (\<lambda>x. if locks L x = Some (granule q) then None else locks L x)
     else locks L)"
    using lock_step_spec [of q L k] snoc.prems L(2) op by auto
  moreover have "\<not> isWrite LoadLockedReq" by (simp add: cmd_attr)
  ultimately show ?case using L(1,2)
    by (auto simp: lock_run_append op locked_since_snoc L(3) [symmetric] split: if_splits)
qed

subsection \<open>Accesses\<close>

definition mem_view :: "pmsys \<Rightarrow> ptr \<Rightarrow> uint8 list \<Rightarrow> bool" where
  "mem_view s b M \<longleftrightarrow> pmemAddr (pm s) = Some b \<and> holds (pm_bufs s) b M \<and>
     length M = unat (cachedSize (pm s)) \<and> unat (cachedStart (pm s)) + unat (cachedSize (pm s)) < 2 ^ 64"

definition mem_off :: "pmsys \<Rightarrow> packet \<Rightarrow> nat" where
  "mem_off s p = unat (pk_addr p) - unat (cachedStart (pm s))"

definition access_ok :: "pmsys \<Rightarrow> ptr \<Rightarrow> packet \<Rightarrow> ptr \<Rightarrow> uint8 list \<Rightarrow> bool" where
  "access_ok s b p d X \<longleftrightarrow> ptest VALID_ADDR p \<and> ptest VALID_SIZE p \<and> \<not> memInhibitAsserted p \<and>
     unat (cachedStart (pm s)) \<le> unat (pk_addr p) \<and>
     unat (pk_addr p) + unat (pk_size p) \<le> unat (cachedStart (pm s)) + unat (cachedSize (pm s)) \<and>
     getPtr p = Inr d \<and> holds (pm_bufs s) d X \<and> length X = unat (pk_size p) \<and> fst d \<noteq> fst b"

lemma access_host:
  assumes "mem_view s b M" "access_ok s b p d X"
  shows "in_memory (pm s) p = Inr ()" "hostAddr (pm s) p = Some (ptr_add b (int (mem_off s p)))"
    and "mem_off s p + unat (pk_size p) \<le> length M" "getSize p = Inr (pk_size p)"
proof -
  have r: "unat (cachedStart (pm s)) \<le> unat (pk_addr p)"
      "unat (pk_addr p) + unat (pk_size p) \<le> unat (cachedStart (pm s)) + unat (cachedSize (pm s))"
      "unat (cachedStart (pm s)) + unat (cachedSize (pm s)) < 2 ^ 64"
      "length M = unat (cachedSize (pm s))" "ptest VALID_ADDR p" "ptest VALID_SIZE p"
    using assms by (simp_all add: mem_view_def access_ok_def)
  have u: "unat (ucast (pk_size p) :: 64 word) = unat (pk_size p)"
    using r by (intro unat_ucast_small) simp
  have "unat (pk_addr p + ucast (pk_size p)) = unat (pk_addr p) + unat (pk_size p)"
    using r u unat_add_lem [of "pk_addr p" "ucast (pk_size p)"] by simp
  moreover have "unat (cachedStart (pm s) + cachedSize (pm s)) = unat (cachedStart (pm s)) + unat (cachedSize (pm s))"
    using r by (subst unat_add_lem [symmetric]) simp
  ultimately show "in_memory (pm s) p = Inr ()"
    using r by (simp add: in_memory_def getAddr_def getSize_def word_le_nat_alt)
  have "unat (pk_addr p - cachedStart (pm s)) = mem_off s p"
    using r by (simp add: mem_off_def unat_sub word_le_nat_alt)
  then have "uint (pk_addr p - cachedStart (pm s)) = int (mem_off s p)" by (metis uint_nat)
  then show "hostAddr (pm s) p = Some (ptr_add b (int (mem_off s p)))"
    using assms(1) by (simp add: hostAddr_def mem_view_def)
  show "mem_off s p + unat (pk_size p) \<le> length M" using r by (simp add: mem_off_def)
  show "getSize p = Inr (pk_size p)" using r by (simp add: getSize_def)
qed

lemma copy_from_memory:
  assumes v: "mem_view s b M" and a: "access_ok s b p d X"
  obtains m where
    "memcpy (pm_bufs s) d (ptr_add b (int (mem_off s p))) (unat (pk_size p)) = Inr m"
    "holds m d (take (unat (pk_size p)) (drop (mem_off s p) M))" "holds m b M"
proof -
  let ?Y = "take (unat (pk_size p)) (drop (mem_off s p) M)"
  note h = access_host [OF v a]
  have rd: "read_bytes (pm_bufs s) (ptr_add b (int (mem_off s p))) (unat (pk_size p)) = Inr ?Y"
    using v h(3) by (subst holds_slice [of _ b M]) (simp_all add: mem_view_def)
  have x: "holds (pm_bufs s) d X" "length X = unat (pk_size p)" "fst d \<noteq> fst b"
    using a by (simp_all add: access_ok_def)
  then obtain m where w: "write_bytes (pm_bufs s) d ?Y = Inr m"
    using write_bytes_holds [OF x(1), of 0 ?Y d] h(3) by (auto simp: ptr_add_def)
  show ?thesis
    using that [of m] rd w read_bytes_same [OF w] holds_other [OF w] v x(3)
    by (simp add: memcpy_def mem_view_def)
qed

lemma copy_to_memory:
  assumes v: "mem_view s b M" and a: "access_ok s b p d X"
  obtains m where
    "memcpy (pm_bufs s) (ptr_add b (int (mem_off s p))) d (unat (pk_size p)) = Inr m"
    "write_bytes (pm_bufs s) (ptr_add b (int (mem_off s p))) X = Inr m"
    "holds m b (overwrite (mem_off s p) X M)" "holds m d X"
proof -
  note h = access_host [OF v a]
  have x: "read_bytes (pm_bufs s) d (unat (pk_size p)) = Inr X" "length X = unat (pk_size p)" "fst d \<noteq> fst b"
    using a by (auto simp: access_ok_def holds_def)
  obtain m where w: "write_bytes (pm_bufs s) (ptr_add b (int (mem_off s p))) X = Inr m"
      "holds m b (overwrite (mem_off s p) X M)"
    using write_bytes_holds [of "pm_bufs s" b M "mem_off s p" X, OF _ _ refl] v h(3) x(2)
    by (auto simp: mem_view_def)
  have "holds m d X" using holds_other [OF w(1), of d X] x by (simp add: holds_def ptr_add_def)
  then show ?thesis using that [of m] x w by (simp add: memcpy_def)
qed

lemma respond_ok:
  "\<exists>p'. respond_if_needed p = Inr p' \<and>
     pk_cmd p' = (if needsResponse (pk_cmd p) then responseCommand (pk_cmd p) else pk_cmd p) \<and>
     pk_data p' = pk_data p \<and> pk_addr p' = pk_addr p \<and> pk_size p' = pk_size p"
  by (simp add: respond_if_needed_def makeResponse_ok pclear_def)

lemma atomic_read:
  assumes v: "mem_view s b M" and a: "access_ok s b p d X"
    and k: "isRead (pk_cmd p)" "isRequest (pk_cmd p)" "pk_cmd p \<noteq> SwapReq"
    and ll: "pk_cmd p = LoadLockedReq \<Longrightarrow> \<exists>rp r. req_of s p = Inr (rp, r) \<and> has_ids r"
    and ok: "locks_ok (lockedAddrList (pm s))"
  shows "\<exists>t p' s'. doAtomicAccess ir be rnd p s = Inr (t, p', s') \<and> mem_view s' b M \<and>
    holds (pm_bufs s') d (take (unat (pk_size p)) (drop (mem_off s p) M)) \<and>
    pk_cmd p' = responseCommand (pk_cmd p) \<and> locks_ok (lockedAddrList (pm s'))"
proof -
  have nw: "\<not> isWrite (pk_cmd p)" "needsResponse (pk_cmd p)" "isLLSC (pk_cmd p) \<longleftrightarrow> pk_cmd p = LoadLockedReq"
    using k by (cases "pk_cmd p"; simp add: cmd_attr)+
  obtain L where L: "locks_ok L" "bindR (if isLLSC (pk_cmd p)
            then bindR (req_of s p) (\<lambda>(rp, r).
                 bindR (trackLoadLocked r (lockedAddrList (pm s))) (\<lambda>L.
                 Inr (s\<lparr>pm := (pm s)\<lparr>lockedAddrList := L\<rparr>\<rparr>)))
            else Inr s) f = f (s\<lparr>pm := (pm s)\<lparr>lockedAddrList := L\<rparr>\<rparr>)" for f :: "pmsys \<Rightarrow> pmsys res"
  proof (cases "pk_cmd p = LoadLockedReq")
    case True
    then obtain rp r where r: "req_of s p = Inr (rp, r)" "has_ids r" using ll by blast
    obtain L where "trackLoadLocked r (lockedAddrList (pm s)) = Inr L" "locks_ok L"
      using trackLoadLocked_refines ok has_ids_accessors [OF r(2)] by metis
    with r nw True show ?thesis using that by simp
  next
    case False
    then show ?thesis using that [of "lockedAddrList (pm s)"] ok nw by simp
  qed
  let ?s1 = "s\<lparr>pm := (pm s)\<lparr>lockedAddrList := L\<rparr>\<rparr>"
  have v1: "mem_view ?s1 b M" "access_ok ?s1 b p d X" "mem_off ?s1 p = mem_off s p"
    using v a by (simp_all add: mem_view_def access_ok_def mem_off_def)
  obtain m where m: "memcpy (pm_bufs s) d (ptr_add b (int (mem_off s p))) (unat (pk_size p)) = Inr m"
      "holds m d (take (unat (pk_size p)) (drop (mem_off s p) M))" "holds m b M"
    using copy_from_memory [OF v a] .
  have d: "getPtr p = Inr d" "\<not> memInhibitAsserted p" using a by (simp_all add: access_ok_def)
  have "do_read p s = Inr (?s1\<lparr>pm_bufs := m\<rparr>)"
    unfolding do_read_def using nw(1) L(2) access_host [OF v1(1,2)] d m(1) v1(3) by simp
  then show ?thesis
    using respond_ok [of p] access_host [OF v a] d nw k m v1(1) L(1)
    by (auto simp: doAtomicAccess_def mem_view_def)
qed

lemma atomic_write:
  assumes v: "mem_view s b M" and a: "access_ok s b p d X"
    and k: "isWrite (pk_cmd p)" "isRequest (pk_cmd p)" "pk_cmd p \<noteq> SwapReq"
    and r: "req_of s p = Inr (rp, r)" "has_ids r" "\<not> isInstFetch r"
    and ok: "locks_ok (lockedAddrList (pm s))"
    and okd: "ok = (isLLSC (pk_cmd p) \<longrightarrow> locks (lockedAddrList (pm s)) (r_contextId r) = Some (granule r))"
  shows "\<exists>t p' s'. doAtomicAccess ir be rnd p s = Inr (t, p', s') \<and>
    mem_view s' b (if ok then overwrite (mem_off s p) X M else M) \<and> holds (pm_bufs s') d X \<and>
    pk_cmd p' = (if needsResponse (pk_cmd p) then responseCommand (pk_cmd p) else pk_cmd p) \<and>
    pm_reqs s' = (pm_reqs s)(rp \<mapsto> if isLLSC (pk_cmd p) then setExtraData (if ok then 1 else 0) r else r) \<and>
    locks_ok (lockedAddrList (pm s'))"
proof -
  have nr: "\<not> isRead (pk_cmd p)" using k by (cases "pk_cmd p"; simp add: cmd_attr)
  obtain L where L: "writeOK (pk_cmd p) r (lockedAddrList (pm s)) =
      Inr (ok, if isLLSC (pk_cmd p) then setExtraData (if ok then 1 else 0) r else r, L)" "locks_ok L"
    using writeOK_refines [of "pk_cmd p" r "r_contextId r" "r_paddr r" "lockedAddrList (pm s)"]
      has_ids_accessors [OF r(2)] ok okd by (auto simp: granule_def)
  define r' where "r' = (if isLLSC (pk_cmd p) then setExtraData (if ok then 1 else 0) r else r)"
  define s1 where "s1 = s\<lparr>pm := (pm s)\<lparr>lockedAddrList := L\<rparr>, pm_reqs := (pm_reqs s)(rp \<mapsto> r')\<rparr>"
  have v1: "mem_view s1 b M" "access_ok s1 b p d X" "mem_off s1 p = mem_off s p" "pm_bufs s1 = pm_bufs s"
    using v a by (simp_all add: mem_view_def access_ok_def mem_off_def s1_def)
  obtain m where m: "memcpy (pm_bufs s) (ptr_add b (int (mem_off s p))) d (unat (pk_size p)) = Inr m"
      "holds m b (overwrite (mem_off s p) X M)" "holds m d X"
    using copy_to_memory [OF v a] .
  have d: "getPtr p = Inr d" "\<not> memInhibitAsserted p" "holds (pm_bufs s) d X" "length X = unat (pk_size p)"
    using a by (simp_all add: access_ok_def)
  have ni: "\<not> isInstFetch r'" using r(3) by (simp add: r'_def)
  have "do_write p s = Inr (if ok then s1\<lparr>pm_bufs := m\<rparr> else s1)"
    unfolding do_write_def r(1) using L(1) access_host [OF v1(1,2)] d m(1) v1(3,4) ni
    by (simp add: Let_def r'_def [symmetric] s1_def [symmetric])
  then show ?thesis
    using respond_ok [of p] access_host [OF v a] d nr k m v1(1) L(2) d(4)
    by (auto simp: doAtomicAccess_def mem_view_def s1_def r'_def)
qed

lemma atomic_swap:
  assumes v: "mem_view s b M" and a: "access_ok s b p d X" and k: "pk_cmd p = SwapReq"
    and r: "req_of s p = Inr (rp, r)" "\<not> isCondSwap r" "\<not> isInstFetch r" "unat (pk_size p) \<le> ir"
  shows "\<exists>t p' s'. doAtomicAccess ir be rnd p s = Inr (t, p', s') \<and>
    mem_view s' b (overwrite (mem_off s p) X M) \<and>
    holds (pm_bufs s') d (take (unat (pk_size p)) (drop (mem_off s p) M)) \<and>
    pk_cmd p' = SwapResp \<and> pm s' = pm s"
proof -
  note h = access_host [OF v a]
  obtain m where m: "memcpy (pm_bufs s) d (ptr_add b (int (mem_off s p))) (unat (pk_size p)) = Inr m"
      "holds m d (take (unat (pk_size p)) (drop (mem_off s p) M))" "holds m b M"
    using copy_from_memory [OF v a] .
  have d: "getPtr p = Inr d" "\<not> memInhibitAsserted p" "read_bytes (pm_bufs s) d (unat (pk_size p)) = Inr X"
      "length X = unat (pk_size p)" "fst d \<noteq> fst b"
    using a by (auto simp: access_ok_def holds_def)
  obtain m2 where m2: "write_bytes m (ptr_add b (int (mem_off s p))) X = Inr m2"
      "holds m2 b (overwrite (mem_off s p) X M)"
    using write_bytes_holds [OF m(3), of "mem_off s p" X, OF _ refl] h(3) d(4) by auto
  have "holds m2 d (take (unat (pk_size p)) (drop (mem_off s p) M))"
    using holds_other [OF m2(1)] m(2) d(5) by (simp add: ptr_add_def)
  moreover have "do_swap ir be p s = Inr (s\<lparr>pm_bufs := m2\<rparr>)"
    using h d m(1) m2(1) r by (simp add: do_swap_def)
  moreover have "needsResponse SwapReq" "responseCommand SwapReq = SwapResp" by (simp_all add: cmd_attr)
  ultimately show ?thesis
    using h d k m2(2) respond_ok [of p] v by (auto simp: doAtomicAccess_def mem_view_def)
qed

text \<open>
  The lock list after an atomic access is the one \<open>lock_step\<close> computes, so a sequence
  of accesses is a history in the sense of \<open>lock_run\<close>.
\<close>

lemma atomic_lock_step:
  assumes "doAtomicAccess ir be rnd p s = Inr (t, p', s')" "\<not> memInhibitAsserted p"
    and "req_of s p = Inr (rp, r)"
  shows "lock_step (pk_cmd p, r) (lockedAddrList (pm s)) = Inr (lockedAddrList (pm s'))"
proof -
  have rd: "isLLSC k \<longleftrightarrow> k = LoadLockedReq" if "isRead k" "\<not> isWrite k" for k
    using that by (cases k; simp add: cmd_attr)
  have sw: "isRead k \<Longrightarrow> isWrite k \<Longrightarrow> k = SwapReq \<or> k = SwapResp" for k
    by (cases k; simp add: cmd_attr)
  have nl: "\<not> isWrite LoadLockedReq" "isRead LoadLockedReq" by (simp_all add: cmd_attr)
  show ?thesis
  proof (cases "pk_cmd p = SwapReq")
    case True
    then have "pm s' = pm s" using assms
      by (auto simp: doAtomicAccess_def do_swap_def split: option.splits if_splits)
    then show ?thesis using True by (simp add: lock_step_def)
  next
    case ns: False
    show ?thesis
    proof (cases "isRead (pk_cmd p)")
      case True
      then have "do_read p s = Inr s'" "\<not> isWrite (pk_cmd p)"
        using assms ns by (auto simp: doAtomicAccess_def do_read_def)
      then show ?thesis using rd [OF True] assms(3)
        by (auto simp: do_read_def lock_step_def split: option.splits if_splits)
    next
      case nr: False
      show ?thesis
      proof (cases "isWrite (pk_cmd p)")
        case True
        then have "do_write p s = Inr s'" using assms ns nr by (auto simp: doAtomicAccess_def)
        then show ?thesis using assms(3) True nr nl ns
          by (auto simp: do_write_def lock_step_def Let_def split: option.splits if_splits)
      next
        case False
        then have "s' = s" using assms ns nr by (auto simp: doAtomicAccess_def split: if_splits)
        then show ?thesis using False nr nl by (auto simp: lock_step_def)
      qed
    qed
  qed
qed

subsection \<open>Properties\<close>

definition sample_mem :: pmsys where
  "sample_mem = \<lparr>pm = \<lparr>lockedAddrList = [], pmemAddr = Some (0, 0), pagePtr = 0, pm_lat = 1, pm_lat_var = 0,
     cachedSize = 8, cachedStart = 8\<rparr>, pm_bufs = sample_bytes, pm_reqs = [0 \<mapsto> sample_request]\<rparr>"

lemma sample_ids: "has_ids sample_request" "r_contextId sample_request = 3" "granule sample_request = 0"
    "\<not> isInstFetch sample_request" "\<not> isCondSwap sample_request"
  by (simp_all add: has_ids_def rq_bits sample_request_def granule_def la_mask_def Addr_Mask_def)
     (simp add: isCondSwap_def fl_isSet_def)

lemma sample_view: "mem_view sample_mem (0, 0) [1, 2, 3, 4, 5, 6, 7, 8]"
  using sample_holds by (simp add: mem_view_def sample_mem_def)

lemma sample_access: "access_ok sample_mem (0, 0) (sample_packet c 1) (1, 0) [10, 20, 30, 40]"
  using sample_packet_tests sample_holds sample_getPtr
  by (simp add: access_ok_def sample_mem_def memInhibitAsserted_def)

lemma atomic_start:
  assumes "doAtomicAccess ir be rnd p s = Inr (t, p', s')"
  shows "cachedStart (pm s') = cachedStart (pm s)"
  using assms by (auto simp: doAtomicAccess_def do_swap_def do_read_def do_write_def Let_def
      split: option.splits if_splits)

text \<open>
  C9: A store-conditional succeeds exactly when its context executed a load-locked on the same
  16-byte granule earlier in the history, with neither another load-locked of the context
  nor a plain or conditional store to the granule in between; the result is recorded in
  the request.
\<close>

theorem store_conditional:
  assumes "\<forall>op\<in>set h. has_ids (snd op)" "has_ids r"
  shows "\<exists>L L'. lock_run h [] = Inr L \<and>
    writeOK StoreCondReq r L = Inr (locked_since h (r_contextId r) (granule r),
      setExtraData (if locked_since h (r_contextId r) (granule r) then 1 else 0) r, L')"
proof -
  obtain L where L: "lock_run h [] = Inr L" "locks_ok L" "\<forall>c g. locks L c = Some g \<longleftrightarrow> locked_since h c g"
    using lock_run_spec [OF assms(1)] by blast
  have "isLLSC StoreCondReq" by (simp add: cmd_attr)
  then show ?thesis
    using writeOK_refines [of StoreCondReq r "r_contextId r" "r_paddr r" L] has_ids_accessors [OF assms(2)] L
    by (auto simp: granule_def)
qed

theorem store_conditional_witness:
  "\<exists>L L'. lock_run [(LoadLockedReq, sample_request)] [] = Inr L \<and>
    writeOK StoreCondReq sample_request L = Inr (True, setExtraData 1 sample_request, L')"
proof -
  have "locked_since [(LoadLockedReq, sample_request)] 3 0"
    using locked_since_snoc [of "[]" LoadLockedReq sample_request 3 0] sample_ids by simp
  then show ?thesis
    using store_conditional [of "[(LoadLockedReq, sample_request)]" sample_request] sample_ids by auto
qed

text \<open>
  C10: Memory holds what was written: an atomic store returns, memory is overwritten at the
  packet's address with the packet's data and nowhere else, and a later load of the same
  range gets these bytes.
\<close>

theorem store_then_load:
  assumes "mem_view s b M" "access_ok s b p d X" "isWrite (pk_cmd p)" "isRequest (pk_cmd p)"
      "pk_cmd p \<noteq> SwapReq" "\<not> isLLSC (pk_cmd p)"
    and "req_of s p = Inr (rp, r)" "has_ids r" "\<not> isInstFetch r" "locks_ok (lockedAddrList (pm s))"
  shows "\<exists>t p' s'. doAtomicAccess ir be rnd p s = Inr (t, p', s') \<and> mem_view s' b (overwrite (mem_off s p) X M) \<and>
    (\<forall>q e Y. access_ok s' b q e Y \<and> pk_cmd q = ReadReq \<and> pk_addr q = pk_addr p \<and> pk_size q = pk_size p \<longrightarrow>
      (\<exists>t' q' s''. doAtomicAccess ir be rnd q s' = Inr (t', q', s'') \<and> pk_cmd q' = ReadResp \<and> holds (pm_bufs s'') e X))"
proof -
  obtain t p' s' where w: "doAtomicAccess ir be rnd p s = Inr (t, p', s')"
      "mem_view s' b (overwrite (mem_off s p) X M)" "locks_ok (lockedAddrList (pm s'))"
    using atomic_write [OF assms(1-5,7-10), where ok = True and ir = ir and be = be and rnd = rnd] assms(6) by auto
  have same: "cachedStart (pm s') = cachedStart (pm s)"
    using atomic_start [OF w(1)] .
  have len: "mem_off s p + length X \<le> length M" "length X = unat (pk_size p)"
    using access_host(3) [OF assms(1,2)] assms(2) by (simp_all add: access_ok_def)
  have rd: "\<exists>t' q' s''. doAtomicAccess ir be rnd q s' = Inr (t', q', s'') \<and> pk_cmd q' = ReadResp \<and> holds (pm_bufs s'') e X"
    if q: "access_ok s' b q e Y" "pk_cmd q = ReadReq" "pk_addr q = pk_addr p" "pk_size q = pk_size p" for q e Y
  proof -
    have "isRead ReadReq" "isRequest ReadReq" "responseCommand ReadReq = ReadResp" by (simp_all add: cmd_attr)
    moreover have "mem_off s' q = mem_off s p" using same q(3) by (simp add: mem_off_def)
    then have "take (unat (pk_size q)) (drop (mem_off s' q) (overwrite (mem_off s p) X M)) = X"
      using len q(4) take_drop_overwrite [of "mem_off s p" X M] by simp
    ultimately show ?thesis using atomic_read [OF w(2) q(1) _ _ _ _ w(3), of ir be rnd] q(2) by auto
  qed
  with w(1,2) show ?thesis by blast
qed

theorem store_then_load_witness:
  "\<exists>t p' s'. doAtomicAccess 8 False (\<lambda>_ _. 0) (sample_packet WriteReq 1) sample_mem = Inr (t, p', s') \<and>
    mem_view s' (0, 0) [1, 2, 3, 4, 10, 20, 30, 40]"
proof -
  have "isWrite WriteReq" "isRequest WriteReq" "\<not> isLLSC WriteReq" by (simp_all add: cmd_attr)
  moreover have "req_of sample_mem (sample_packet WriteReq 1) = Inr (0, sample_request)"
    by (simp add: req_of_def sample_mem_def)
  moreover have "locks_ok (lockedAddrList (pm sample_mem))" by (simp add: sample_mem_def)
  moreover have "overwrite (mem_off sample_mem (sample_packet WriteReq 1)) [10, 20, 30, 40] [1, 2, 3, 4, 5, 6, 7, 8] =
      [1, 2, 3, 4, 10, 20, 30, 40 :: uint8]"
    by (simp add: mem_off_def sample_mem_def overwrite_def)
  ultimately show ?thesis
    using store_then_load [OF sample_view sample_access, of WriteReq 0 sample_request 8 False "\<lambda>_ _. 0"] sample_ids
    by auto
qed

text \<open>
  C38: An unconditional swap exchanges the packet's data with memory, but unlike a store it does
  not go through \<open>writeOK\<close>: the lock list is unchanged, so a lock that another context holds
  on the swapped granule survives and its store-conditional still succeeds.
\<close>

theorem swap_keeps_locks:
  assumes "mem_view s b M" "access_ok s b p d X" "pk_cmd p = SwapReq"
    and "req_of s p = Inr (rp, r)" "\<not> isCondSwap r" "\<not> isInstFetch r" "unat (pk_size p) \<le> ir"
  shows "\<exists>t p' s'. doAtomicAccess ir be rnd p s = Inr (t, p', s') \<and>
    mem_view s' b (overwrite (mem_off s p) X M) \<and>
    holds (pm_bufs s') d (take (unat (pk_size p)) (drop (mem_off s p) M)) \<and>
    pk_cmd p' = SwapResp \<and> lockedAddrList (pm s') = lockedAddrList (pm s)"
  using atomic_swap [OF assms, of be rnd] by auto

definition locked_mem :: pmsys where
  "locked_mem = sample_mem\<lparr>pm := (pm sample_mem)\<lparr>lockedAddrList := [\<lparr>la_addr = granule sample_request, la_contextId = 4\<rparr>]\<rparr>\<rparr>"

theorem swap_keeps_locks_witness:
  "\<exists>t p' s'. doAtomicAccess 8 False (\<lambda>_ _. 0) (sample_packet SwapReq 1) locked_mem = Inr (t, p', s') \<and>
    pk_cmd p' = SwapResp \<and> lockedAddrList (pm s') = [\<lparr>la_addr = granule sample_request, la_contextId = 4\<rparr>]"
proof -
  have "mem_view locked_mem (0, 0) [1, 2, 3, 4, 5, 6, 7, 8]" "access_ok locked_mem (0, 0) (sample_packet SwapReq 1) (1, 0) [10, 20, 30, 40]"
    using sample_view sample_access [of SwapReq] by (simp_all add: locked_mem_def mem_view_def access_ok_def)
  moreover have "req_of locked_mem (sample_packet SwapReq 1) = Inr (0, sample_request)"
      "lockedAddrList (pm locked_mem) = [\<lparr>la_addr = granule sample_request, la_contextId = 4\<rparr>]"
    by (simp_all add: req_of_def locked_mem_def sample_mem_def)
  ultimately show ?thesis
    using swap_keeps_locks [OF _ _ _ _ sample_ids(5,4), of locked_mem "(0, 0)" "[1, 2, 3, 4, 5, 6, 7, 8]" "sample_packet SwapReq 1"
        "(1, 0)" "[10, 20, 30, 40]" 0 8 False "\<lambda>_ _. 0"] by auto
qed

end
