(* ===== verification/Int_Math.thy ===== *)
theory Int_Math
  imports M5_Prelude "HOL-Library.Signed_Division"
begin

unbundle bit_operations_syntax

section \<open>Integer and bit-field helpers\<close>

text \<open>
  Model of \<^verbatim>\<open>src/src/base/intmath.hh\<close>, \<^verbatim>\<open>src/src/base/intmath.cc\<close> and
  \<^verbatim>\<open>src/src/base/bitfield.hh\<close>. The templates are modelled on words of any width or, for
  the bit fields, on 64-bit words; the primality test is the instance for \<^verbatim>\<open>int\<close>, with the
  overflow of a signed result as an error.

  The lemmas give the mathematical meaning of each helper: the binary logarithm, powers
  of two, rounding, reading back an inserted bit field, the position of the highest and
  the lowest set bit, and the numbers on which the primality test is right.
\<close>

subsection \<open>Primes\<close>

text \<open>A result of type \<^verbatim>\<open>int\<close> that does not fit into 32 bits is an overflow.\<close>

definition int32 :: "int \<Rightarrow> int res" where
  "int32 x = (if - (2 ^ 31) \<le> x \<and> x < 2 ^ 31 then Inr x else Inl Overflow)"

lemma int32_Inr: "int32 x = Inr y \<longleftrightarrow> y = x \<and> - (2 ^ 31) \<le> x \<and> x < 2 ^ 31"
  by (auto simp: int32_def)

function isPrime_loop :: "int \<Rightarrow> int \<Rightarrow> bool res" where
  "isPrime_loop n i = bindR (int32 (i * i)) (\<lambda>sq.
     if sq \<le> n
     then if n smod i = 0 then Inr False
          else bindR (int32 (i + 2)) (\<lambda>j. if n smod j = 0 then Inr False
            else bindR (int32 (i + 6)) (isPrime_loop n))
     else Inr True)"
  by pat_completeness auto
termination
proof (relation "measure (\<lambda>(n, i). nat (n + 1 - i))", goal_cases)
  case (2 n i)
  have "i \<le> i * i" by (cases "1 \<le> i") (auto simp: mult_le_cancel_left1 intro: order_trans [OF _ zero_le_square])
  with 2 show ?case by (auto simp: int32_Inr)
qed simp

declare isPrime_loop.simps [simp del]

definition isPrime :: "int \<Rightarrow> bool res" where
  "isPrime n = (if n = 2 \<or> n = 3 then Inr True else isPrime_loop n 5)"

partial_function (option) prevPrime_loop :: "int \<Rightarrow> int \<Rightarrow> int comp" where
  "prevPrime_loop n decr = bindC (liftC (isPrime n)) (\<lambda>b. if b then ret n
     else bindC (liftC (int32 (n - decr))) (\<lambda>n'. prevPrime_loop n' (6 - decr)))"

definition prevPrime :: "int \<Rightarrow> int comp" where
  "prevPrime n0 = bindC (liftC (if even n0 then int32 (n0 - 1) else Inr n0)) (\<lambda>n1.
     let decr = n1 smod 3
     in if decr = 0 then bindC (liftC (int32 (n1 - 2))) (\<lambda>n2. prevPrime_loop n2 2)
        else if decr = 1 then prevPrime_loop n1 4
        else prevPrime_loop n1 decr)"

subsection \<open>Powers of two and rounding\<close>

definition leastSigBit :: "'a::len word \<Rightarrow> 'a word" where
  "leastSigBit n = n AND NOT (n - 1)"

definition isPowerOf2 :: "'a::len word \<Rightarrow> bool" where
  "isPowerOf2 n \<longleftrightarrow> n \<noteq> 0 \<and> leastSigBit n = n"

definition log_step :: "'a::len word \<Rightarrow> nat \<Rightarrow> nat \<times> 'a word \<Rightarrow> nat \<times> 'a word" where
  "log_step m k = (\<lambda>(y, x). if x AND m \<noteq> 0 then (y + k, drop_bit k x) else (y, x))"

definition floorLog2 :: "32 word \<Rightarrow> nat res" where
  "floorLog2 x = bindR (assertR (x > 0) ''x > 0'') (\<lambda>_.
     let s1 = log_step 0xffff0000 16 (0, x);
         s2 = log_step 0x0000ff00 8 s1;
         s3 = log_step 0x000000f0 4 s2;
         s4 = log_step 0x0000000c 2 s3
     in Inr (if snd s4 AND 0x00000002 \<noteq> 0 then fst s4 + 1 else fst s4))"

definition floorLog2_64 :: "64 word \<Rightarrow> nat res" where
  "floorLog2_64 x = bindR (assertR (x > 0) ''x > 0'') (\<lambda>_.
     let s0 = log_step 0xffffffff00000000 32 (0, x);
         s1 = log_step 0xffff0000 16 s0;
         s2 = log_step 0x0000ff00 8 s1;
         s3 = log_step 0x000000f0 4 s2;
         s4 = log_step 0x0000000c 2 s3
     in Inr (if snd s4 AND 0x00000002 \<noteq> 0 then fst s4 + 1 else fst s4))"

definition ceilLog2 :: "32 word \<Rightarrow> nat res" where
  "ceilLog2 n = (if n = 1 then Inr 0 else bindR (floorLog2 (n - 1)) (\<lambda>y. Inr (y + 1)))"

definition floorPow2 :: "32 word \<Rightarrow> 32 word res" where
  "floorPow2 n = bindR (floorLog2 n) (\<lambda>y. Inr (push_bit y 1))"

definition ceilPow2 :: "32 word \<Rightarrow> 32 word res" where
  "ceilPow2 n = bindR (ceilLog2 n) (\<lambda>y. Inr (push_bit y 1))"

definition divCeil :: "'a::len word \<Rightarrow> 'a word \<Rightarrow> 'a word" where
  "divCeil a b = (a + b - 1) div b"

definition roundUp :: "'a::len word \<Rightarrow> 'a word \<Rightarrow> 'a word" where
  "roundUp val align = (let m = align - 1 in (val + m) AND NOT m)"

definition roundDown :: "'a::len word \<Rightarrow> 'a word \<Rightarrow> 'a word" where
  "roundDown val align = (let m = align - 1 in val AND NOT m)"

subsection \<open>Digits\<close>

definition in_range_char :: "char \<Rightarrow> char \<Rightarrow> char \<Rightarrow> bool" where
  "in_range_char lo hi c \<longleftrightarrow> (of_char lo :: nat) \<le> of_char c \<and> (of_char c :: nat) \<le> of_char hi"

definition isHex :: "char \<Rightarrow> bool" where
  "isHex c \<longleftrightarrow> in_range_char (CHR ''0'') (CHR ''9'') c \<or> in_range_char (CHR ''A'') (CHR ''F'') c \<or>
     in_range_char (CHR ''a'') (CHR ''f'') c"

definition isOct :: "char \<Rightarrow> bool" where
  "isOct c \<longleftrightarrow> in_range_char (CHR ''0'') (CHR ''7'') c"

definition isDec :: "char \<Rightarrow> bool" where
  "isDec c \<longleftrightarrow> in_range_char (CHR ''0'') (CHR ''9'') c"

definition hex2Int :: "char \<Rightarrow> int" where
  "hex2Int c =
     (if in_range_char (CHR ''0'') (CHR ''9'') c then of_char c - of_char (CHR ''0'')
      else if in_range_char (CHR ''A'') (CHR ''F'') c then of_char c - of_char (CHR ''A'') + 10
      else if in_range_char (CHR ''a'') (CHR ''f'') c then of_char c - of_char (CHR ''a'') + 10
      else 0)"

subsection \<open>Bit fields\<close>

definition bf_mask :: "nat \<Rightarrow> 64 word" where
  "bf_mask nbits = (if nbits = 64 then - 1 else push_bit nbits 1 - 1)"

definition bf_bits :: "64 word \<Rightarrow> nat \<Rightarrow> nat \<Rightarrow> 64 word" where
  "bf_bits val first lst = (let nbits = first - lst + 1 in drop_bit lst val AND bf_mask nbits)"

definition bf_mbits :: "64 word \<Rightarrow> nat \<Rightarrow> nat \<Rightarrow> 64 word" where
  "bf_mbits val first lst = val AND (bf_mask (first + 1) AND NOT (bf_mask lst))"

definition bf_mask2 :: "nat \<Rightarrow> nat \<Rightarrow> 64 word" where
  "bf_mask2 first lst = bf_mbits (- 1) first lst"

definition sext :: "nat \<Rightarrow> 64 word \<Rightarrow> 64 word" where
  "sext N val = (let sign_bit = bf_bits val (N - 1) (N - 1)
     in if sign_bit \<noteq> 0 then val OR NOT (bf_mask N) else val)"

definition insertBits :: "64 word \<Rightarrow> nat \<Rightarrow> nat \<Rightarrow> 64 word \<Rightarrow> 64 word" where
  "insertBits val first lst bit_val =
     (let bmask = push_bit lst (bf_mask (first - lst + 1))
      in (push_bit lst bit_val AND bmask) OR (val AND NOT bmask))"

definition msb_step :: "nat \<Rightarrow> nat \<Rightarrow> nat \<times> 64 word \<Rightarrow> nat \<times> 64 word" where
  "msb_step first k = (\<lambda>(msb, val). if bf_bits val first k \<noteq> 0 then (msb + k, drop_bit k val) else (msb, val))"

definition findMsbSet :: "64 word \<Rightarrow> nat" where
  "findMsbSet val = (if val = 0 then 0
     else let s = msb_step 3 2 (msb_step 7 4 (msb_step 15 8 (msb_step 31 16 (msb_step 63 32 (0, val)))))
          in if bf_bits (snd s) 1 1 \<noteq> 0 then fst s + 1 else fst s)"

definition lsb_step :: "nat \<Rightarrow> nat \<times> 64 word \<Rightarrow> nat \<times> 64 word" where
  "lsb_step k = (\<lambda>(lsb, val). if bf_bits val (k - 1) 0 = 0 then (lsb + k, drop_bit k val) else (lsb, val))"

definition findLsbSet :: "64 word \<Rightarrow> nat" where
  "findLsbSet val = (if val = 0 then 64
     else let s = lsb_step 2 (lsb_step 4 (lsb_step 8 (lsb_step 16 (lsb_step 32 (0, val)))))
          in if bf_bits (snd s) 0 0 = 0 then fst s + 1 else fst s)"

subsection \<open>The binary logarithm\<close>

lemma unat_less_exp: 
  fixes x :: "'a::len word"
  shows "unat x < 2 ^ n \<longleftrightarrow> (\<forall>i\<ge>n. \<not> bit x i)"
proof -
  have "unat x < 2 ^ n \<longleftrightarrow> take_bit n (unat x) = unat x" by (simp add: take_bit_nat_eq_self_iff)
  also have "\<dots> \<longleftrightarrow> take_bit n x = x" by (metis unsigned_take_bit_eq unsigned_word_eqI)
  also have "\<dots> \<longleftrightarrow> (\<forall>i\<ge>n. \<not> bit x i)"
    by (auto simp: bit_eq_iff bit_take_bit_iff) (metis bit_imp_le_length not_less)+
  finally show ?thesis .
qed

lemma band_test:
  fixes x m :: "'a::len word"
  assumes m: "\<And>i. i < LENGTH('a) \<Longrightarrow> bit m i \<longleftrightarrow> k \<le> i \<and> i < 2 * k" and x: "unat x < 2 ^ (2 * k)"
  shows "x AND m = 0 \<longleftrightarrow> unat x < 2 ^ k"
proof -
  have hi: "\<not> bit x i" if "i \<ge> 2 * k" for i using x that by (simp add: unat_less_exp)
  have "x AND m = 0 \<longleftrightarrow> (\<forall>i<LENGTH('a). \<not> (bit x i \<and> bit m i))"
    by (auto simp: bit_eq_iff bit_and_iff)
  also have "\<dots> \<longleftrightarrow> (\<forall>i\<ge>k. \<not> bit x i)"
    using m hi bit_imp_le_length [of x] by (metis not_le)
  finally show ?thesis by (simp add: unat_less_exp)
qed

definition log_inv :: "'a::len word \<Rightarrow> nat \<Rightarrow> nat \<times> 'a word \<Rightarrow> bool" where
  "log_inv x0 b s \<longleftrightarrow> unat x0 div 2 ^ fst s = unat (snd s) \<and> 0 < unat (snd s) \<and> unat (snd s) < 2 ^ b"

lemma log_step_inv:
  fixes x0 m :: "'a::len word"
  assumes "\<And>i. i < LENGTH('a) \<Longrightarrow> bit m i \<longleftrightarrow> k \<le> i \<and> i < 2 * k" and i: "log_inv x0 (2 * k) s"
  shows "log_inv x0 k (log_step m k s)"
proof -
  obtain y x where s: "s = (y, x)" by fastforce
  have x: "unat x0 div 2 ^ y = unat x" "0 < unat x" "unat x < 2 ^ (2 * k)"
    using i by (simp_all add: log_inv_def s)
  note t = band_test [OF assms(1) x(3)]
  have d: "unat (drop_bit k x) = unat x div 2 ^ k" unfolding unat_drop_bit_eq by (rule drop_bit_eq_div)
  have "unat x div 2 ^ k < 2 ^ k" using x(3) by (simp add: less_mult_imp_div_less power_add mult_2)
  then show ?thesis
    using t x d by (auto simp: log_inv_def log_step_def s power_add div_mult2_eq div_greater_zero_iff)
qed

lemma log_final:
  fixes x0 :: "'a::len word"
  assumes "log_inv x0 2 s" "1 < LENGTH('a)"
  shows "2 ^ (if snd s AND 2 \<noteq> 0 then fst s + 1 else fst s) \<le> unat x0 \<and>
    unat x0 < 2 ^ Suc (if snd s AND 2 \<noteq> 0 then fst s + 1 else fst s)"
proof -
  obtain y x where s: "s = (y, x)" by fastforce
  have x: "unat x0 div 2 ^ y = unat x" "0 < unat x" "unat x < 2 ^ (2 * 1)"
    using assms by (simp_all add: log_inv_def s)
  have m: "bit (2 :: 'a word) i \<longleftrightarrow> 1 \<le> i \<and> i < 2 * 1" for i
    using assms(2) bit_exp_iff [where 'a = "'a word", of 1 i] by (auto simp: possible_bit_def)
  have t: "x AND 2 = 0 \<longleftrightarrow> unat x < 2 ^ 1" by (rule band_test [OF m x(3)])
  have lo: "2 ^ y * unat x \<le> unat x0" using times_div_less_eq_dividend [of "2 ^ y" "unat x0"] x(1) by simp
  have hi: "unat x0 < 2 ^ y * Suc (unat x)"
    using dividend_less_times_div [of "2 ^ y" "unat x0"] x(1) by simp
  show ?thesis
  proof (cases "x AND 2 = 0")
    case True
    then have "unat x = 1" using t x by simp
    then show ?thesis using True lo hi by (simp add: s)
  next
    case False
    then have "2 \<le> unat x" "unat x \<le> 3" using t x by simp_all
    then have "unat x = 2 \<or> unat x = 3" by auto
    then show ?thesis using False lo hi by (auto simp: s)
  qed
qed

lemma band_mask: "bit (push_bit k (mask k) :: 'a::len word) i \<longleftrightarrow> i < LENGTH('a) \<and> k \<le> i \<and> i < 2 * k"
  by (auto simp: bit_push_bit_iff bit_mask_iff)

lemma floorLog2_bounds:
  assumes "x \<noteq> 0"
  obtains y where "floorLog2 x = Inr y" "2 ^ y \<le> unat x" "unat x < 2 ^ Suc y"
proof -
  have m: "(0xffff0000 :: 32 word) = push_bit 16 (mask 16)" "(0xff00 :: 32 word) = push_bit 8 (mask 8)"
    "(0xf0 :: 32 word) = push_bit 4 (mask 4)" "(0xc :: 32 word) = push_bit 2 (mask 2)"
    by (simp_all add: mask_eq_exp_minus_1)
  have "unat x < 2 ^ LENGTH(32)" by (rule unsigned_less)
  then have "log_inv x 32 (0, x)" using assms by (simp add: log_inv_def unat_gt_0)
  then have "log_inv x 16 (log_step 0xffff0000 16 (0, x))"
    by (intro log_step_inv) (simp_all add: m(1) band_mask)
  then have "log_inv x 8 (log_step 0xff00 8 (log_step 0xffff0000 16 (0, x)))"
    by (intro log_step_inv) (simp_all add: m(2) band_mask)
  then have "log_inv x 4 (log_step 0xf0 4 (log_step 0xff00 8 (log_step 0xffff0000 16 (0, x))))"
    by (intro log_step_inv) (simp_all add: m(3) band_mask)
  then have "log_inv x 2 (log_step 0xc 2 (log_step 0xf0 4 (log_step 0xff00 8 (log_step 0xffff0000 16 (0, x)))))"
    by (intro log_step_inv) (simp_all add: m(4) band_mask)
  from log_final [OF this] that assms show ?thesis
    by (simp add: floorLog2_def Let_def word_gt_0)
qed

lemma floorLog2_64_bounds:
  assumes "x \<noteq> 0"
  obtains y where "floorLog2_64 x = Inr y" "2 ^ y \<le> unat x" "unat x < 2 ^ Suc y"
proof -
  have m: "(0xffffffff00000000 :: 64 word) = push_bit 32 (mask 32)"
    "(0xffff0000 :: 64 word) = push_bit 16 (mask 16)" "(0xff00 :: 64 word) = push_bit 8 (mask 8)"
    "(0xf0 :: 64 word) = push_bit 4 (mask 4)" "(0xc :: 64 word) = push_bit 2 (mask 2)"
    by (simp_all add: mask_eq_exp_minus_1)
  define s0 s1 s2 s3 where "s0 = log_step 0xffffffff00000000 32 (0, x)" and "s1 = log_step 0xffff0000 16 s0"
    and "s2 = log_step 0xff00 8 s1" and "s3 = log_step 0xf0 4 s2"
  have "unat x < 2 ^ LENGTH(64)" by (rule unsigned_less)
  then have "log_inv x 64 (0, x)" using assms by (simp add: log_inv_def unat_gt_0)
  then have "log_inv x 32 s0" unfolding s0_def by (intro log_step_inv) (simp_all add: m(1) band_mask)
  then have "log_inv x 16 s1" unfolding s1_def by (intro log_step_inv) (simp_all add: m(2) band_mask)
  then have "log_inv x 8 s2" unfolding s2_def by (intro log_step_inv) (simp_all add: m(3) band_mask)
  then have "log_inv x 4 s3" unfolding s3_def by (intro log_step_inv) (simp_all add: m(4) band_mask)
  then have "log_inv x 2 (log_step 0xc 2 s3)" by (intro log_step_inv) (simp_all add: m(5) band_mask)
  from log_final [OF this] show ?thesis
    using that assms unfolding floorLog2_64_def s0_def s1_def s2_def s3_def
    by (simp add: Let_def word_gt_0)
qed

lemma log_unique:
  fixes y k n :: nat
  assumes "2 ^ y \<le> n" "n < 2 ^ Suc y" "2 ^ k \<le> n" "n < 2 ^ Suc k"
  shows "y = k"
proof -
  have "(2::nat) ^ y < 2 ^ Suc k" "(2::nat) ^ k < 2 ^ Suc y" using assms by linarith+
  then show ?thesis by (simp only: power_strict_increasing_iff)
qed

lemma unat_exp: "k < LENGTH('a) \<Longrightarrow> unat (2 ^ k :: 'a::len word) = 2 ^ k"
  using unat_of_nat [where 'a = 'a, of "2 ^ k"] by simp

lemma floorLog2_exp:
  assumes "k < 32"
  shows "floorLog2 (2 ^ k) = Inr k"
proof -
  have u: "unat (2 ^ k :: 32 word) = 2 ^ k" using assms by (simp add: unat_exp)
  then have "(2 ^ k :: 32 word) \<noteq> 0" by (metis unat_0 power_not_zero zero_neq_numeral)
  then obtain y where "floorLog2 (2 ^ k) = Inr y" "2 ^ y \<le> unat (2 ^ k :: 32 word)" "unat (2 ^ k :: 32 word) < 2 ^ Suc y"
    using floorLog2_bounds by blast
  then show ?thesis using log_unique [of y "2 ^ k" k] u by simp
qed

subsection \<open>Powers of two\<close>

lemma minus_one_bits:
  fixes x :: "'a::len word"
  assumes k: "bit x k" and lo: "\<And>i. i < k \<Longrightarrow> \<not> bit x i"
  shows "x - 1 = (x AND NOT (2 ^ k)) OR mask k"
proof -
  have kl: "k < LENGTH('a)" using k by (rule bit_imp_le_length)
  have "x = (x AND NOT (2 ^ k)) OR 2 ^ k"
    using k by (intro bit_word_eqI) (auto simp: bit_simps)
  also have "\<dots> = (x AND NOT (2 ^ k)) + 2 ^ k"
    by (rule disjunctive_add [symmetric]) (auto simp: bit_simps)
  finally have "x - 1 = (x AND NOT (2 ^ k)) + (2 ^ k - 1)" by (metis add_diff_eq)
  also have "\<dots> = (x AND NOT (2 ^ k)) + mask k" by (simp add: mask_eq_exp_minus_1)
  also have "\<dots> = (x AND NOT (2 ^ k)) OR mask k"
    by (rule disjunctive_add) (use lo in \<open>auto simp: bit_simps\<close>)
  finally show ?thesis .
qed

lemma leastSigBit_exp:
  fixes x :: "'a::len word"
  assumes k: "bit x k" and lo: "\<And>i. i < k \<Longrightarrow> \<not> bit x i"
  shows "leastSigBit x = 2 ^ k"
proof (rule bit_word_eqI)
  fix i
  assume i: "i < LENGTH('a)"
  have e: "x - 1 = (x AND NOT (2 ^ k)) OR mask k" by (rule minus_one_bits) (use k lo in auto)
  have "bit (x - 1) i \<longleftrightarrow> i < k \<or> bit x i \<and> i \<noteq> k"
    using i unfolding e by (auto simp: bit_simps)
  then show "bit (leastSigBit x) i = bit (2 ^ k :: 'a word) i"
    using i k lo unfolding leastSigBit_def bit_and_iff bit_not_iff by (auto simp: bit_exp_iff)
qed

lemma lowest_bit:
  fixes x :: "'a::len word"
  assumes "x \<noteq> 0"
  obtains k where "bit x k" "\<And>i. i < k \<Longrightarrow> \<not> bit x i"
proof -
  have "\<exists>k. bit x k" using assms by (auto simp: bit_eq_iff)
  then show ?thesis using that [of "LEAST k. bit x k"] by (metis LeastI not_less_Least)
qed

lemma isPowerOf2_iff: "isPowerOf2 (n :: 'a::len word) \<longleftrightarrow> (\<exists>k<LENGTH('a). n = 2 ^ k)"
proof
  assume n: "isPowerOf2 n"
  then obtain k where "bit n k" "\<And>i. i < k \<Longrightarrow> \<not> bit n i" using lowest_bit by (auto simp: isPowerOf2_def)
  then show "\<exists>k<LENGTH('a). n = 2 ^ k"
    using n leastSigBit_exp bit_imp_le_length by (metis isPowerOf2_def)
next
  assume "\<exists>k<LENGTH('a). n = 2 ^ k"
  then obtain k where k: "k < LENGTH('a)" "n = 2 ^ k" by blast
  then have "bit n k" "\<And>i. i < k \<Longrightarrow> \<not> bit n i" by (auto simp: bit_exp_iff)
  then show "isPowerOf2 n" using leastSigBit_exp k by (auto simp: isPowerOf2_def)
qed

lemma and_not_mask: "v AND NOT (mask k) = push_bit k (drop_bit k (v :: 'a::len word))"
  by (rule bit_word_eqI) (auto simp: bit_simps)

lemma roundDown_unat:
  "unat (roundDown (v :: 'a::len word) (2 ^ k)) = unat v div 2 ^ k * 2 ^ k"
proof -
  have "unat (push_bit k (drop_bit k v)) = take_bit LENGTH('a) (unat v div 2 ^ k * 2 ^ k)"
    by (simp only: unsigned_push_bit_eq unat_drop_bit_eq) (simp only: drop_bit_eq_div push_bit_eq_mult)
  moreover have "unat v div 2 ^ k * 2 ^ k < 2 ^ LENGTH('a)"
    by (rule le_less_trans [OF _ unsigned_less [of v]]) simp
  ultimately have "unat (push_bit k (drop_bit k v)) = unat v div 2 ^ k * 2 ^ k"
    by (simp add: take_bit_nat_eq_self)
  then show ?thesis by (simp add: roundDown_def Let_def and_not_mask flip: mask_eq_exp_minus_1)
qed

lemma roundUp_unat:
  assumes "unat v + (2 ^ k - 1) < 2 ^ LENGTH('a)" "k < LENGTH('a)"
  shows "unat (roundUp (v :: 'a::len word) (2 ^ k)) = (unat v + (2 ^ k - 1)) div 2 ^ k * 2 ^ k"
proof -
  have "unat (2 ^ k - 1 :: 'a word) = 2 ^ k - 1"
    using unat_exp [OF assms(2)] unat_minus_one [of "2 ^ k :: 'a word"]
    by (metis power_eq_0_iff unat_0 zero_neq_numeral)
  then have "unat (v + (2 ^ k - 1)) = unat v + (2 ^ k - 1)"
    using assms(1) unat_add_lem [of v "2 ^ k - 1"] by simp
  then show ?thesis
    using roundDown_unat [of "v + (2 ^ k - 1)" k] by (simp add: roundUp_def roundDown_def Let_def)
qed

subsection \<open>Bit fields\<close>

lemma bf_mask_eq: "bf_mask n = mask n"
  by (cases "n < 64") (auto simp: bf_mask_def mask_eq_exp_minus_1 push_bit_eq_mult)

lemma bit_bf_bits: "l \<le> f \<Longrightarrow> bit (bf_bits v f l) i \<longleftrightarrow> i \<le> f - l \<and> bit v (l + i)"
  using bit_imp_le_length [of v "l + i"] by (auto simp: bf_bits_def Let_def bf_mask_eq bit_simps)

lemma bf_bits_zero:
  assumes "l \<le> f"
  shows "bf_bits v f l = 0 \<longleftrightarrow> (\<forall>i. l \<le> i \<and> i \<le> f \<longrightarrow> \<not> bit v i)"
proof -
  have "bf_bits v f l = 0 \<longleftrightarrow> (\<forall>i. \<not> (i \<le> f - l \<and> bit v (l + i)))"
    using bit_eq_iff [of "bf_bits v f l" 0] bit_imp_le_length [of "bf_bits v f l"]
    by (auto simp: bit_bf_bits [OF assms])
  also have "\<dots> \<longleftrightarrow> (\<forall>i. l \<le> i \<and> i \<le> f \<longrightarrow> \<not> bit v i)"
  proof safe
    fix i
    assume "\<forall>i. \<not> (i \<le> f - l \<and> bit v (l + i))" "l \<le> i" "i \<le> f" "bit v i"
    then show False by (auto dest: spec [of _ "i - l"])
  qed (use assms in auto)
  finally show ?thesis .
qed

lemma bit_bf_mbits: "bit (bf_mbits v f l) i \<longleftrightarrow> l \<le> i \<and> i \<le> f \<and> bit v i"
  using bit_imp_le_length [of v i] by (auto simp: bf_mbits_def bf_mask_eq bit_simps)

lemma bit_insertBits:
  "l \<le> f \<Longrightarrow> bit (insertBits v f l b) i \<longleftrightarrow> i < 64 \<and> (if l \<le> i \<and> i \<le> f then bit b (i - l) else bit v i)"
  using bit_imp_le_length [of v i] by (auto simp: insertBits_def Let_def bf_mask_eq bit_simps)

lemma bits_insertBits:
  assumes "l \<le> f" "f < 64"
  shows "bf_bits (insertBits v f l b) f l = b AND bf_mask (f - l + 1)"
  using assms by (intro bit_word_eqI) (auto simp: bit_bf_bits bit_insertBits bf_mask_eq bit_simps)

lemma bits_insertBits_other:
  assumes "l \<le> f" "f < 64" "l' \<le> f'" "f' < l \<or> f < l'"
  shows "bf_bits (insertBits v f l b) f' l' = bf_bits v f' l'"
  using assms bit_imp_le_length by (intro bit_word_eqI) (force simp: bit_bf_bits bit_insertBits)

lemma sext_signed:
  assumes "0 < N" "N \<le> 64" "unat v < 2 ^ N"
  shows "sext N v = signed_take_bit (N - 1) v"
proof (rule bit_word_eqI)
  fix i
  assume i: "i < LENGTH(64)"
  have hi: "\<not> bit v j" if "N \<le> j" for j using assms(3) that by (simp add: unat_less_exp)
  have s: "bf_bits v (N - Suc 0) (N - Suc 0) = 0 \<longleftrightarrow> \<not> bit v (N - Suc 0)"
    by (auto simp: bf_bits_zero)
  show "bit (sext N v) i = bit (signed_take_bit (N - 1) v) i"
  proof (cases "i < N")
    case True
    then have "N - Suc 0 \<le> i \<longleftrightarrow> i = N - Suc 0" by auto
    with True show ?thesis using i by (auto simp: sext_def Let_def s bf_mask_eq bit_simps min_def) 
  next
    case False
    then show ?thesis using i hi [of i] assms by (auto simp: sext_def Let_def s bf_mask_eq bit_simps min_def)
  qed
qed

lemma msb_step_log: "0 < k \<Longrightarrow> msb_step (2 * k - 1) k = log_step (push_bit k (mask k)) k"
proof -
  assume k: "0 < k"
  have "bf_bits x (2 * k - 1) k \<noteq> 0 \<longleftrightarrow> x AND push_bit k (mask k) \<noteq> 0" for x
  proof -
    have "bf_bits x (2 * k - 1) k = drop_bit k (x AND push_bit k (mask k))"
      using k by (intro bit_word_eqI) (auto simp: bit_bf_bits bit_simps dest: bit_imp_le_length)
    moreover have "x AND push_bit k (mask k) = push_bit k (drop_bit k (x AND push_bit k (mask k)))"
      by (rule bit_word_eqI) (auto simp: bit_simps)
    ultimately show ?thesis by (metis drop_bit_of_0 push_bit_of_0)
  qed
  then show ?thesis by (simp add: msb_step_def log_step_def fun_eq_iff split: prod.splits)
qed

lemma findMsbSet_log:
  assumes "v \<noteq> 0"
  shows "floorLog2_64 v = Inr (findMsbSet v)"
proof -
  have m: "(0xffffffff00000000 :: 64 word) = push_bit 32 (mask 32)"
    "(0xffff0000 :: 64 word) = push_bit 16 (mask 16)" "(0xff00 :: 64 word) = push_bit 8 (mask 8)"
    "(0xf0 :: 64 word) = push_bit 4 (mask 4)" "(0xc :: 64 word) = push_bit 2 (mask 2)"
    by (simp_all add: mask_eq_exp_minus_1)
  have l: "bf_bits x 1 1 \<noteq> 0 \<longleftrightarrow> x AND 2 \<noteq> 0" for x
  proof -
    have "x AND 2 \<noteq> 0 \<longleftrightarrow> bit x 1" using and_exp_eq_0_iff_not_bit [of x 1] by simp
    then show ?thesis by (auto simp: bf_bits_zero)
  qed
  show ?thesis
    using msb_step_log [of 32] msb_step_log [of 16] msb_step_log [of 8] msb_step_log [of 4] msb_step_log [of 2]
      assms l
    by (simp add: findMsbSet_def floorLog2_64_def Let_def word_gt_0 m)
qed

definition lsb_inv :: "64 word \<Rightarrow> nat \<Rightarrow> nat \<times> 64 word \<Rightarrow> bool" where
  "lsb_inv v b s \<longleftrightarrow> (\<forall>i<fst s. \<not> bit v i) \<and> snd s = drop_bit (fst s) v \<and> (\<exists>i<b. bit (snd s) i)"

lemma lsb_step_inv:
  assumes "lsb_inv v (2 * k) s" "0 < k"
  shows "lsb_inv v k (lsb_step k s)"
proof -
  obtain n x where s: "s = (n, x)" by fastforce
  have inv: "\<And>i. i < n \<Longrightarrow> \<not> bit v i" "x = drop_bit n v" "\<exists>i<2 * k. bit x i"
    using assms(1) by (auto simp: lsb_inv_def s)
  have z: "bf_bits x (k - 1) 0 = 0 \<longleftrightarrow> (\<forall>i<k. \<not> bit x i)"
    using assms(2) by (auto simp: bf_bits_zero)
  show ?thesis
  proof (cases "bf_bits x (k - 1) 0 = 0")
    case True
    then have lo: "\<And>i. i < k \<Longrightarrow> \<not> bit x i" using z by blast
    have "\<not> bit v i" if "i < n + k" for i
      using inv(1,2) lo [of "i - n"] that by (cases "i < n") (auto simp: bit_drop_bit_eq)
    moreover obtain i where "i < 2 * k" "bit x i" using inv(3) by blast
    moreover then have "k \<le> i" using lo not_le by blast
    ultimately show ?thesis using True inv(2)
      by (auto simp: lsb_inv_def lsb_step_def s bit_drop_bit_eq add.commute intro: exI [of _ "i - k"])
  next
    case False
    then show ?thesis using z inv by (auto simp: lsb_inv_def lsb_step_def s)
  qed
qed

lemma findLsbSet_bit:
  assumes "v \<noteq> 0"
  shows "bit v (findLsbSet v)" "\<And>i. i < findLsbSet v \<Longrightarrow> \<not> bit v i"
proof -
  define s where "s = lsb_step 2 (lsb_step 4 (lsb_step 8 (lsb_step 16 (lsb_step 32 (0, v)))))"
  have "\<exists>i<64. bit v i" using assms bit_imp_le_length [of v] by (auto simp: bit_eq_iff)
  then have "lsb_inv v 64 (0, v)" by (simp add: lsb_inv_def)
  then have "lsb_inv v 32 (lsb_step 32 (0, v))" by (intro lsb_step_inv) simp_all
  then have "lsb_inv v 16 (lsb_step 16 (lsb_step 32 (0, v)))" by (intro lsb_step_inv) simp_all
  then have "lsb_inv v 8 (lsb_step 8 (lsb_step 16 (lsb_step 32 (0, v))))" by (intro lsb_step_inv) simp_all
  then have "lsb_inv v 4 (lsb_step 4 (lsb_step 8 (lsb_step 16 (lsb_step 32 (0, v)))))"
    by (intro lsb_step_inv) simp_all
  then have "lsb_inv v 2 s" unfolding s_def by (intro lsb_step_inv) simp_all
  then have i: "\<And>i. i < fst s \<Longrightarrow> \<not> bit v i" "snd s = drop_bit (fst s) v" "bit (snd s) 0 \<or> bit (snd s) 1"
    by (auto simp: lsb_inv_def numeral_2_eq_2 less_Suc_eq)
  have z: "bf_bits (snd s) 0 0 = 0 \<longleftrightarrow> \<not> bit (snd s) 0" by (auto simp: bf_bits_zero)
  have e: "findLsbSet v = (if bit (snd s) 0 then fst s else fst s + 1)"
    using assms z by (simp add: findLsbSet_def Let_def s_def)
  show "bit v (findLsbSet v)" using i(2,3) e by (auto simp: bit_drop_bit_eq)
  show "\<not> bit v i" if "i < findLsbSet v" for i
    using that i e by (auto simp: bit_drop_bit_eq less_Suc_eq split: if_splits)
qed

subsection \<open>Primes\<close>

definition prime_int :: "int \<Rightarrow> bool" where
  "prime_int n \<longleftrightarrow> 1 < n \<and> (\<forall>d. 0 < d \<and> d dvd n \<longrightarrow> d = 1 \<or> d = n)"

text \<open>
  The loop tests the divisors 5, 7, 11, 13 and so on. The product of its condition is
  evaluated for 46343 when the argument is at least \<open>46337 * 46337\<close> and no divisor was found
  before, and does not fit then.
\<close>

definition divisor_from :: "int \<Rightarrow> int \<Rightarrow> bool" where
  "divisor_from n i \<longleftrightarrow> (\<exists>j. i \<le> j \<and> j mod 6 = i mod 6 \<and> j * j \<le> n \<and> (j dvd n \<or> (j + 2) dvd n))"

lemma divisor_from_step:
  assumes "i * i \<le> n"
  shows "divisor_from n i \<longleftrightarrow> i dvd n \<or> (i + 2) dvd n \<or> divisor_from n (i + 6)"
proof -
  have "i \<le> j \<and> j mod 6 = i mod 6 \<longleftrightarrow> j = i \<or> (i + 6 \<le> j \<and> j mod 6 = (i + 6) mod 6)" for j :: int
    by (auto, presburger)
  then show ?thesis using assms unfolding divisor_from_def by (metis (no_types, lifting))
qed

lemma divisor_from_none:
  assumes "0 < i" "n < i * i"
  shows "\<not> divisor_from n i"
proof -
  have "n < j * j" if "i \<le> j" for j using assms(2) mult_mono [OF that that] assms(1) that by linarith
  then show ?thesis by (auto simp: divisor_from_def not_le)
qed

lemma isPrime_loop_result:
  assumes "0 < i" "i mod 6 = 5" "n < 2 ^ 31" "i \<le> 46337 \<or> i = 46343 \<and> 46337 * 46337 \<le> n"
  shows "isPrime_loop n i = (if divisor_from n i then Inr False else if 46337 * 46337 \<le> n then Inl Overflow else Inr True)"
  using assms
proof (induction "nat (46343 - i)" arbitrary: i rule: less_induct)
  case less
  show ?case
  proof (cases "i = 46343")
    case True
    have "\<not> divisor_from n 46343" using less.prems(3) by (intro divisor_from_none) auto
    with True less.prems show ?thesis by (simp add: isPrime_loop.simps int32_def)
  next
    case False
    then have i: "i \<le> 46337" using less.prems(4) by blast
    have "i * i \<le> 46337 * 46337" using i less.prems(1) by (intro mult_mono) auto
    then have sq: "int32 (i * i) = Inr (i * i)" "int32 (i + 2) = Inr (i + 2)" "int32 (i + 6) = Inr (i + 6)"
      using less.prems(1) i order_trans [OF _ zero_le_square [of i], of "- (2 ^ 31)"] by (simp_all add: int32_def)
    show ?thesis
    proof (cases "i * i \<le> n")
      case False
      then have "\<not> divisor_from n i" "\<not> 46337 * 46337 \<le> n"
        using divisor_from_none less.prems(1) \<open>i * i \<le> 46337 * 46337\<close> by auto
      with False sq show ?thesis by (simp add: isPrime_loop.simps [of n i])
    next
      case True
      have pos: "0 \<le> n" using True zero_le_square [of i] by linarith
      have d: "n smod i = 0 \<longleftrightarrow> i dvd n" "n smod (i + 2) = 0 \<longleftrightarrow> (i + 2) dvd n"
        using pos less.prems(1) by (auto simp: smod_int_alt_def dvd_eq_mod_eq_0 sgn_eq_0_iff)
      have m: "(i + 6) mod 6 = 5" "i + 6 \<le> 46337 \<or> i + 6 = 46343 \<and> 46337 * 46337 \<le> n"
      proof -
        show "(i + 6) mod 6 = 5" using less.prems(2) by simp
        have "i = 46337 \<or> i + 6 \<le> 46337" using i less.prems(2) by presburger
        then show "i + 6 \<le> 46337 \<or> i + 6 = 46343 \<and> 46337 * 46337 \<le> n" using True by auto
      qed
      have IH: "isPrime_loop n (i + 6) = (if divisor_from n (i + 6) then Inr False else if 46337 * 46337 \<le> n then Inl Overflow else Inr True)"
        using i less.prems(1,3) m by (intro less.hyps) auto
      show ?thesis using True sq d IH divisor_from_step [OF True] by (auto simp: isPrime_loop.simps [of n i])
    qed
  qed
qed

lemma isPrime_result:
  assumes "n < 2 ^ 31"
  shows "isPrime n = (if n = 2 \<or> n = 3 then Inr True else if divisor_from n 5 then Inr False
    else if 46337 * 46337 \<le> n then Inl Overflow else Inr True)"
  using isPrime_loop_result [of 5 n] assms by (simp add: isPrime_def)


lemma small_divisor:
  assumes "1 < n" "\<not> prime_int n"
  obtains d where "1 < d" "d * d \<le> n" "d dvd n"
proof -
  obtain d where d: "0 < d" "d dvd n" "d \<noteq> 1" "d \<noteq> n" using assms by (auto simp: prime_int_def)
  then obtain e where e: "n = d * e" by blast
  have "0 < d * e" using e assms(1) by linarith
  then have e1: "0 < e" "e \<noteq> 1" using e d by (auto simp: zero_less_mult_iff)
  show ?thesis
  proof (cases "d \<le> e")
    case True
    then show ?thesis using that [of d] d e by (auto intro: mult_left_mono)
  next
    case False
    then show ?thesis using that [of e] d e e1 by (auto intro: mult_right_mono)
  qed
qed

lemma divisor_from_prime:
  assumes "3 < n" "odd n" "\<not> 3 dvd n"
  shows "divisor_from n 5 \<longleftrightarrow> \<not> prime_int n"
proof
  assume "divisor_from n 5"
  then obtain j where j: "5 \<le> j" "j * j \<le> n" "j dvd n \<or> (j + 2) dvd n" by (auto simp: divisor_from_def)
  have "5 * j \<le> j * j" using j by (intro mult_right_mono) auto
  then have "j + 2 < n" using j by linarith
  then have "j \<noteq> 1" "j \<noteq> n" "j + 2 \<noteq> 1" "j + 2 \<noteq> n" "0 < j" "0 < j + 2" using j by auto
  then show "\<not> prime_int n" using j(3) unfolding prime_int_def by blast
next
  assume "\<not> prime_int n"
  then obtain d where d: "1 < d" "d * d \<le> n" "d dvd n" using small_divisor [of n] assms(1) by auto
  have "odd d" "\<not> 3 dvd d" using d(3) assms(2,3) by (auto dest: dvd_trans)
  then have m: "d mod 6 = 1 \<or> d mod 6 = 5" "5 \<le> d" using d(1) by presburger+
  show "divisor_from n 5"
  proof (cases "d mod 6 = 5")
    case True
    then show ?thesis using m d unfolding divisor_from_def by (intro exI [of _ d]) simp
  next
    case False
    then have "5 \<le> d - 2" "(d - 2) mod 6 = 5" using m by presburger+
    moreover have "(d - 2) * (d - 2) \<le> d * d" using m(2) by (intro mult_mono) auto
    ultimately show ?thesis using d(2,3) unfolding divisor_from_def by (intro exI [of _ "d - 2"]) simp
  qed
qed

lemma isPrime_small: "n < 25 \<Longrightarrow> isPrime n = Inr True"
  using divisor_from_none [of 5 n] by (simp add: isPrime_result)

text \<open>The search ends: it returns a positive number that was accepted, or it meets an overflow, high up only.\<close>

definition prime_search_ok :: "int \<Rightarrow> int comp \<Rightarrow> bool" where
  "prime_search_ok n r \<longleftrightarrow> (\<exists>p. r = ret p \<and> isPrime p = Inr True \<and> 0 < p \<and> p \<le> n) \<or> r = fail Overflow \<and> 46337 * 46337 \<le> n"

lemma search_ok_mono: "prime_search_ok m r \<Longrightarrow> m \<le> n \<Longrightarrow> prime_search_ok n r"
  by (auto simp: prime_search_ok_def)

lemma prevPrime_loop_ok:
  assumes "0 < decr" "decr < 6" "0 < n" "n < 2 ^ 31"
  shows "prime_search_ok n (prevPrime_loop n decr)"
  using assms
proof (induction "nat n" arbitrary: n decr rule: less_induct)
  case less
  note sim = prevPrime_loop.simps [of n decr]
  consider (yes) "isPrime n = Inr True" | (no) "isPrime n = Inr False" | (ov) "isPrime n = Inl Overflow" "46337 * 46337 \<le> n"
    using isPrime_result [OF less.prems(4)] by metis
  then show ?case
  proof cases
    case yes
    then show ?thesis using sim less.prems by (simp add: prime_search_ok_def liftC_def)
  next
    case no
    then have "25 \<le> n" using isPrime_small [of n] not_le by force
    then have "nat (n - decr) < nat n" "0 < n - decr" "int32 (n - decr) = Inr (n - decr)" using less.prems by (auto simp: int32_def)
    moreover from this have "prime_search_ok (n - decr) (prevPrime_loop (n - decr) (6 - decr))"
      using less.prems by (intro less.hyps) auto
    moreover have "prevPrime_loop n decr = prevPrime_loop (n - decr) (6 - decr)"
      unfolding sim no calculation(3) liftC_def by simp
    ultimately show ?thesis using search_ok_mono [of "n - decr" _ n] less.prems(1) by simp
  next
    case ov
    then show ?thesis using sim by (simp add: prime_search_ok_def liftC_def fail_def)
  qed
qed

lemma prevPrime_ok:
  assumes "0 < n" "n < 2 ^ 31"
  shows "prime_search_ok n (prevPrime n)"
proof -
  define m where "m = (if even n then n - 1 else n)"
  have m: "0 < m" "m \<le> n" "odd m" using assms by (auto simp: m_def)
  have pp: "prevPrime n = (if m smod 3 = 0 then bindC (liftC (int32 (m - 2))) (\<lambda>n2. prevPrime_loop n2 2)
      else if m smod 3 = 1 then prevPrime_loop m 4 else prevPrime_loop m (m smod 3))"
    using assms by (simp add: prevPrime_def Let_def m_def liftC_def int32_def)
  have r: "m smod 3 = m mod 3" "0 \<le> m mod 3" "m mod 3 < 3" using m by (simp_all add: smod_int_alt_def)
  consider "m mod 3 = 0" | "m mod 3 = 1" | "m mod 3 = 2" using r by linarith
  then show ?thesis
  proof cases
    case 1
    then have "3 \<le> m" using m(1) by presburger
    then show ?thesis using 1 pp r m(2) assms(2) search_ok_mono [OF prevPrime_loop_ok [of 2 "m - 2"]] by (simp add: liftC_def int32_def)
  next
    case 2
    then show ?thesis using pp r m assms(2) search_ok_mono [OF prevPrime_loop_ok [of 4 m]] by simp
  next
    case 3
    then show ?thesis using pp r m assms(2) search_ok_mono [OF prevPrime_loop_ok [of 2 m]] by simp
  qed
qed

lemma prevPrime_composite: "prevPrime 25 = ret 21"
  by (simp add: prevPrime_def Let_def smod_int_alt_def prevPrime_loop.simps isPrime_def isPrime_loop.simps liftC_def int32_def)

subsection \<open>Properties\<close>

text \<open>
  C34: The two logarithm routines and the two bit searches agree with the arithmetic they
  stand for: on a non-zero word the 64-bit \<open>floorLog2\<close> returns the index of the highest
  set bit, which is what \<open>findMsbSet\<close> computes, and \<open>findLsbSet\<close> returns the lowest.
\<close>

theorem log_and_bit_search:
  assumes "v \<noteq> 0"
  shows "floorLog2_64 v = Inr (findMsbSet v) \<and> 2 ^ findMsbSet v \<le> unat v \<and> unat v < 2 ^ Suc (findMsbSet v) \<and>
    bit v (findLsbSet v) \<and> 2 ^ findLsbSet v dvd unat v"
proof -
  obtain y where "floorLog2_64 v = Inr y" "2 ^ y \<le> unat v" "unat v < 2 ^ Suc y"
    using floorLog2_64_bounds [OF assms] .
  moreover have "2 ^ findLsbSet v dvd unat v"
  proof -
    have "take_bit (findLsbSet v) v = 0"
      using findLsbSet_bit(2) [OF assms] by (intro bit_word_eqI) (auto simp: bit_take_bit_iff)
    then have "take_bit (findLsbSet v) (unat v) = 0" by (metis unsigned_0 unsigned_take_bit_eq)
    then show ?thesis by (simp add: take_bit_eq_0_iff)
  qed
  ultimately show ?thesis using findMsbSet_log [OF assms] findLsbSet_bit(1) [OF assms] by simp
qed

theorem log_and_bit_search_witness:
  "floorLog2_64 40 = Inr (findMsbSet 40) \<and> 2 ^ findMsbSet 40 \<le> (40 :: nat) \<and> bit (40 :: 64 word) (findLsbSet 40)"
  using log_and_bit_search [of 40] by simp

text \<open>
  Rounding to a power of two: \<open>roundDown\<close> and \<open>roundUp\<close> give the multiples of the alignment
  next to the value, as long as the addition inside \<open>roundUp\<close> does not wrap.
\<close>

theorem rounding:
  fixes v :: "64 word"
  assumes "k < 64" "unat v + (2 ^ k - 1) < 2 ^ 64"
  shows "isPowerOf2 (2 ^ k :: 64 word) \<and> 2 ^ k dvd unat (roundDown v (2 ^ k)) \<and> 2 ^ k dvd unat (roundUp v (2 ^ k)) \<and>
    unat (roundDown v (2 ^ k)) \<le> unat v \<and> unat v \<le> unat (roundUp v (2 ^ k)) \<and>
    unat v < unat (roundDown v (2 ^ k)) + 2 ^ k \<and> unat (roundUp v (2 ^ k)) < unat v + 2 ^ k"
proof -
  have "isPowerOf2 (2 ^ k :: 64 word)" using assms(1) by (auto simp: isPowerOf2_iff)
  moreover have "x div 2 ^ k * 2 ^ k \<le> x" "x < x div 2 ^ k * 2 ^ k + 2 ^ k" for x :: nat
    using div_mult_mod_eq [of x "2 ^ k"] mod_less_divisor [of "2 ^ k" x, OF zero_less_power] by linarith+
  note b = this [of "unat v"] this [of "unat v + (2 ^ k - 1)"]
  moreover have "(1 :: nat) \<le> 2 ^ k" by simp
  then have "unat v \<le> (unat v + (2 ^ k - 1)) div 2 ^ k * 2 ^ k" "(unat v + (2 ^ k - 1)) div 2 ^ k * 2 ^ k < unat v + 2 ^ k"
    using b by linarith+
  ultimately show ?thesis
    using assms by (simp add: roundDown_unat roundUp_unat)
qed

theorem rounding_witness:
  "isPowerOf2 (8 :: 64 word) \<and> unat (roundDown (13 :: 64 word) 8) \<le> 13 \<and> 13 \<le> unat (roundUp (13 :: 64 word) 8)"
  using rounding [of 3 13] by simp

text \<open>
  Writing a bit field and reading it back gives the value cut to the width of the field,
  and every field that does not overlap it reads as before.
\<close>

theorem bit_field_round_trip:
  assumes "l \<le> f" "f < 64" "l' \<le> f'" "f' < l \<or> f < l'"
  shows "bf_bits (insertBits v f l b) f l = b AND bf_mask (f - l + 1) \<and>
    bf_bits (insertBits v f l b) f' l' = bf_bits v f' l'"
  using bits_insertBits bits_insertBits_other assms by blast

theorem bit_field_round_trip_witness:
  "bf_bits (insertBits 0xff00 7 4 0x2a) 7 4 = 0x2a AND bf_mask 4 \<and>
    bf_bits (insertBits 0xff00 7 4 0x2a) 15 8 = bf_bits 0xff00 15 8"
  using bit_field_round_trip [of 4 7 8 15 "0xff00" "0x2a"] by simp

text \<open>
  C35: For every positive \<^verbatim>\<open>int\<close> the search of \<open>prevPrime\<close> ends. It returns a positive number
  not above the argument that \<open>isPrime\<close> accepts, or, for arguments from \<open>46337 * 46337\<close> on
  only, stops at the overflow of the product in the loop condition of \<open>isPrime\<close>. On odd
  numbers above three that three does not divide, \<open>isPrime\<close> is primality below that bound;
  from the bound on it overflows on every such prime. The result need not be prime: the first step from a
  number that leaves remainder one modulo three is four (and two for remainder two), which
  leads to a multiple of three, and \<open>isPrime\<close> does not test for the divisor three. From 25 the
  search stops at 21.
\<close>

theorem prevPrime_result:
  assumes "0 < n" "n < 2 ^ 31"
  shows "((\<exists>p. prevPrime n = ret p \<and> isPrime p = Inr True \<and> 0 < p \<and> p \<le> n \<and> (3 < p \<and> odd p \<and> \<not> 3 dvd p \<longrightarrow> prime_int p)) \<or>
      46337 * 46337 \<le> n \<and> prevPrime n = fail Overflow) \<and>
    (3 < n \<and> odd n \<and> \<not> 3 dvd n \<longrightarrow>
      isPrime n = (if \<not> prime_int n then Inr False else if 46337 * 46337 \<le> n then Inl Overflow else Inr True)) \<and>
    prevPrime 25 = ret 21"
proof (intro conjI impI)
  have "prime_int p" if "isPrime p = Inr True" "p \<le> n" "3 < p \<and> odd p \<and> \<not> 3 dvd p" for p
    using that isPrime_result [of p] divisor_from_prime [of p] assms(2) by (auto split: if_splits)
  then show "(\<exists>p. prevPrime n = ret p \<and> isPrime p = Inr True \<and> 0 < p \<and> p \<le> n \<and> (3 < p \<and> odd p \<and> \<not> 3 dvd p \<longrightarrow> prime_int p)) \<or>
      46337 * 46337 \<le> n \<and> prevPrime n = fail Overflow"
    using prevPrime_ok [OF assms] unfolding prime_search_ok_def by blast
  show "isPrime n = (if \<not> prime_int n then Inr False else if 46337 * 46337 \<le> n then Inl Overflow else Inr True)"
    if "3 < n \<and> odd n \<and> \<not> 3 dvd n" using that isPrime_result [OF assms(2)] divisor_from_prime [of n] by auto
qed (rule prevPrime_composite)

theorem prevPrime_result_witness:
  "\<exists>p. prevPrime 100 = ret p \<and> isPrime p = Inr True \<and> 0 < p \<and> p \<le> 100"
  using prevPrime_result [of 100] by auto

end
