(* ===== verification/Recency.thy ===== *)
theory Recency
  imports M5_Prelude
begin

section \<open>Least-recently-used replacement\<close>

text \<open>
  The contract of a set-associative store with least-recently-used replacement, and its
  one client: a run of accesses. Each access to a key moves the key to the front of the
  recency list of its set and drops whatever no longer fits. After a run, the store holds
  exactly the most recent distinct keys of each set.
\<close>

definition mru_step :: "'k \<Rightarrow> 'k list \<Rightarrow> 'k list" where
  "mru_step x l = x # removeAll x l"

definition mru :: "'k list \<Rightarrow> 'k list" where
  "mru xs = fold mru_step xs []"

fun run_touch :: "('a \<Rightarrow> 'c \<Rightarrow> 'c res) \<Rightarrow> 'a list \<Rightarrow> 'c \<Rightarrow> 'c res" where
  "run_touch touch [] c = Inr c"
| "run_touch touch (a # as) c = bindR (touch a c) (run_touch touch as)"

lemma mru_snoc: "mru (xs @ [x]) = mru_step x (mru xs)"
  by (simp add: mru_def)

lemma set_mru: "set (mru xs) = set xs"
  by (induction xs rule: rev_induct) (auto simp: mru_snoc mru_step_def, simp add: mru_def)

lemma take_removeAll:
  "x \<in> set (take k l) \<Longrightarrow> distinct l \<Longrightarrow> removeAll x (take k l) = take (k - 1) (removeAll x l)"
proof (induction l arbitrary: k)
  case (Cons y l)
  then obtain j where k: "k = Suc j" by (cases k) auto
  show ?case
  proof (cases "y = x")
    case True
    then have "x \<notin> set l" using Cons.prems(2) by simp
    then have "removeAll x (take j l) = take j l" "removeAll x l = l"
      by (auto dest: in_set_takeD intro: removeAll_id)
    then show ?thesis using True k by simp
  next
    case False
    then have x: "x \<in> set (take j l)" using Cons.prems(1) k by simp
    then obtain i where j: "j = Suc i" by (cases j) auto
    show ?thesis using Cons.IH [OF x] Cons.prems(2) False k j by simp
  qed
qed simp

lemma take_removeAll_off: "x \<notin> set (take j l) \<Longrightarrow> take j (removeAll x l) = take j l"
proof (induction l arbitrary: j)
  case (Cons y l)
  then show ?case by (cases j) auto
qed simp

lemma take_mru_step:
  assumes "distinct l"
  shows "take k (mru_step x (take k l)) = take k (mru_step x l)"
proof (cases k)
  case (Suc j)
  show ?thesis
  proof (cases "x \<in> set (take k l)")
    case True
    then show ?thesis using take_removeAll [OF True assms] Suc by (simp add: mru_step_def)
  next
    case False
    then have "x \<notin> set (take j l)" using Suc set_take_subset_set_take [of j k l] by auto
    then show ?thesis using False Suc by (simp add: mru_step_def take_removeAll_off)
  qed
qed simp

lemma distinct_mru: "distinct (mru xs)"
  by (induction xs rule: rev_induct) (simp_all add: mru_snoc mru_step_def distinct_removeAll, simp add: mru_def)

locale lru_store =
  fixes ok :: "'c \<Rightarrow> bool"
    and recent :: "'c \<Rightarrow> nat \<Rightarrow> 'k list"
    and index :: "'a \<Rightarrow> nat"
    and key :: "'a \<Rightarrow> 'k"
    and capacity :: nat
    and touch :: "'a \<Rightarrow> 'c \<Rightarrow> 'c res"
  assumes touch_recent: "ok c \<Longrightarrow> \<exists>c'. touch a c = Inr c' \<and> ok c' \<and>
      (\<forall>i. recent c' i = (if i = index a then take capacity (mru_step (key a) (recent c i)) else recent c i))"
begin

lemma run_recent:
  assumes "ok c" "\<And>i. recent c i = []"
  shows "\<exists>c'. run_touch touch as c = Inr c' \<and> ok c' \<and>
    (\<forall>i. recent c' i = take capacity (mru (map key (filter (\<lambda>a. index a = i) as))))"
proof (induction as rule: rev_induct)
  case Nil
  then show ?case using assms by (simp add: mru_def)
next
  case (snoc a as)
  have app: "run_touch touch (as @ [a]) c = bindR (run_touch touch as c) (touch a)" for c
    by (induction as arbitrary: c) (simp_all add: bindR_assoc bindR_def split: sum.splits)
  obtain c1 where c1: "run_touch touch as c = Inr c1" "ok c1"
      "\<And>i. recent c1 i = take capacity (mru (map key (filter (\<lambda>a. index a = i) as)))"
    using snoc by blast
  obtain c2 where "touch a c1 = Inr c2" "ok c2"
      "\<And>i. recent c2 i = (if i = index a then take capacity (mru_step (key a) (recent c1 i)) else recent c1 i)"
    using touch_recent [OF c1(2), of a] by blast
  then show ?case using c1 by (auto simp: app mru_snoc take_mru_step distinct_mru)
qed

end

end
