(* ===== verification/Cache_Tags.thy ===== *)
theory Cache_Tags
  imports Packet Int_Math Recency "HOL-Library.Multiset"
begin

unbundle bit_operations_syntax

section \<open>Cache blocks and the LRU tag store\<close>

text \<open>
  Model of \<^verbatim>\<open>src/src/mem/cache/blk.hh\<close>, \<^verbatim>\<open>src/src/mem/cache/tags/cacheset.cc\<close> and
  \<^verbatim>\<open>src/src/mem/cache/tags/lru.hh\<close> with \<^verbatim>\<open>lru.cc\<close>. The tag store owns one array of blocks;
  a set is the array of pointers to its blocks in the order of recency, here a list of
  indices into the array of blocks. Statistics that the code only increments are
  integers; the number of processors of the cache is a parameter. The associativity of a
  set is kept in an \<^verbatim>\<open>int\<close>, so the model is of associativities below \<open>2 ^ 31\<close>.

  The lemmas show that an address is the tag, the set and the offset it is split into,
  that every operation keeps the sets permutations of their blocks with at most one valid
  block per tag, and that the store implements least-recently-used replacement: an
  address hits exactly when its block is among the most recent ones of its set.
\<close>

subsection \<open>Blocks\<close>

definition BlkValid :: uint32 where "BlkValid = 0x01"
definition BlkWritable :: uint32 where "BlkWritable = 0x02"
definition BlkReadable :: uint32 where "BlkReadable = 0x04"
definition BlkDirty :: uint32 where "BlkDirty = 0x08"
definition BlkReferenced :: uint32 where "BlkReferenced = 0x10"
definition BlkHWPrefetched :: uint32 where "BlkHWPrefetched = 0x20"

record cache_blk =
  cb_asid :: "32 word"
  cb_tag :: addr
  cb_data :: "ptr option"
  cb_size :: "32 word"
  cb_status :: uint32
  cb_whenReady :: tick
  cb_set :: "32 word"
  cb_isTouched :: bool
  cb_refCount :: "32 word"
  cb_contextSrc :: "32 word"
  cb_lockList :: "32 word list"

definition CacheBlk_new :: cache_blk where
  "CacheBlk_new = \<lparr>cb_asid = - 1, cb_tag = 0, cb_data = None, cb_size = 0, cb_status = 0, cb_whenReady = 0,
     cb_set = - 1, cb_isTouched = False, cb_refCount = 0, cb_contextSrc = - 1, cb_lockList = []\<rparr>"

definition CacheBlk_assign :: "cache_blk \<Rightarrow> cache_blk \<Rightarrow> cache_blk" where
  "CacheBlk_assign rhs b = b\<lparr>cb_asid := cb_asid rhs, cb_tag := cb_tag rhs, cb_data := cb_data rhs,
     cb_size := cb_size rhs, cb_status := cb_status rhs, cb_whenReady := cb_whenReady rhs,
     cb_set := cb_set rhs, cb_refCount := cb_refCount rhs\<rparr>"

definition blk_isWritable :: "cache_blk \<Rightarrow> bool" where
  "blk_isWritable b \<longleftrightarrow> cb_status b AND (BlkWritable OR BlkValid) = (BlkWritable OR BlkValid)"

definition blk_isReadable :: "cache_blk \<Rightarrow> bool" where
  "blk_isReadable b \<longleftrightarrow> cb_status b AND (BlkReadable OR BlkValid) = (BlkReadable OR BlkValid)"

definition blk_isValid :: "cache_blk \<Rightarrow> bool" where
  "blk_isValid b \<longleftrightarrow> cb_status b AND BlkValid \<noteq> 0"

definition blk_isDirty :: "cache_blk \<Rightarrow> bool" where
  "blk_isDirty b \<longleftrightarrow> cb_status b AND BlkDirty \<noteq> 0"

definition blk_isReferenced :: "cache_blk \<Rightarrow> bool" where
  "blk_isReferenced b \<longleftrightarrow> cb_status b AND BlkReferenced \<noteq> 0"

definition blk_wasPrefetched :: "cache_blk \<Rightarrow> bool" where
  "blk_wasPrefetched b \<longleftrightarrow> cb_status b AND BlkHWPrefetched \<noteq> 0"

definition blk_trackLoadLocked :: "mem_cmd \<Rightarrow> request \<Rightarrow> cache_blk \<Rightarrow> cache_blk res" where
  "blk_trackLoadLocked c r b = bindR (assertR (isLLSC c) ''pkt->isLLSC()'') (\<lambda>_.
     bindR (contextId r) (\<lambda>i. Inr (b\<lparr>cb_lockList := i # cb_lockList b\<rparr>)))"

definition clearLoadLocks :: "cache_blk \<Rightarrow> cache_blk" where
  "clearLoadLocks b = b\<lparr>cb_lockList := []\<rparr>"

fun any_lock :: "request \<Rightarrow> 32 word list \<Rightarrow> bool res" where
  "any_lock r [] = Inr False"
| "any_lock r (i # L) = bindR (contextId r) (\<lambda>c. if i = c then Inr True else any_lock r L)"

definition checkWrite :: "mem_cmd \<Rightarrow> request \<Rightarrow> cache_blk \<Rightarrow> (bool \<times> request \<times> cache_blk) res" where
  "checkWrite c r b =
     (if isLLSC c
      then bindR (any_lock r (cb_lockList b)) (\<lambda>success.
           Inr (success, setExtraData (if success then 1 else 0) r, clearLoadLocks b))
      else Inr (True, r, clearLoadLocks b))"

subsection \<open>Sets\<close>

definition findBlk :: "cache_blk list \<Rightarrow> addr \<Rightarrow> nat list \<Rightarrow> nat option" where
  "findBlk bs tag s = find (\<lambda>i. cb_tag (bs ! i) = tag \<and> blk_isValid (bs ! i)) s"

fun shift_down :: "nat \<Rightarrow> nat \<Rightarrow> nat list \<Rightarrow> nat list res" where
  "shift_down blk nxt [] = Inl (Assert ''i < assoc'')"
| "shift_down blk nxt (x # xs) =
     (if x = blk then Inr (nxt # xs) else bindR (shift_down blk x xs) (\<lambda>ys. Inr (nxt # ys)))"

definition moveToHead :: "nat \<Rightarrow> nat list \<Rightarrow> nat list res" where
  "moveToHead blk s = (case s of [] \<Rightarrow> Inl BadPtr
     | x # _ \<Rightarrow> if x = blk then Inr s else shift_down blk blk s)"

subsection \<open>The tag store\<close>

record lru =
  numSets :: "32 word"
  blkSize :: "32 word"
  assoc :: "32 word"
  hitLatency :: "32 word"
  sets :: "nat list list"
  blks :: "cache_blk list"
  setShift :: nat
  tagShift :: nat
  setMask :: "32 word"
  blkMask :: "32 word"
  warmupBound :: "32 word"
  warmedUp :: bool
  numBlocks :: "32 word"
  replacements :: int
  tagsInUse :: int
  totalRefs :: int
  sampledRefs :: int
  warmupCycle :: tick
  occupancies :: "int \<Rightarrow> int"

definition new_blk :: "32 word \<Rightarrow> nat \<Rightarrow> nat \<Rightarrow> nat \<Rightarrow> cache_blk" where
  "new_blk blksz dblk assc k = CacheBlk_new\<lparr>cb_data := Some (dblk, int (unat (blksz * of_nat k))), cb_status := 0,
     cb_tag := of_nat (k mod assc), cb_whenReady := 0, cb_isTouched := False, cb_size := blksz,
     cb_set := of_nat (k div assc)\<rparr>"

definition LRU_new :: "32 word \<Rightarrow> 32 word \<Rightarrow> 32 word \<Rightarrow> 32 word \<Rightarrow> bmem \<Rightarrow> (bmem \<times> lru) res" where
  "LRU_new nsets blksz assc lat m =
     (if blksz < 4 \<or> \<not> isPowerOf2 blksz then Inl (Fatal ''Block size must be at least 4 and a power of 2'')
      else if nsets \<le> 0 \<or> \<not> isPowerOf2 nsets then Inl (Fatal ''# of sets must be non-zero and a power of 2'')
      else if assc \<le> 0 then Inl (Fatal ''associativity must be greater than zero'')
      else if lat \<le> 0 then Inl (Fatal ''access latency must be greater than zero'')
      else bindR (floorLog2 blksz) (\<lambda>sshift. bindR (floorLog2 nsets) (\<lambda>slog.
        let n = unat nsets; a = unat assc; nblk = nsets * assc; (m', d) = new_array m (unat (nblk * blksz)) in
        if unat nblk < n * a then Inl BadPtr
        else Inr (m', \<lparr>numSets = nsets, blkSize = blksz, assoc = assc, hitLatency = lat,
          sets = map (\<lambda>i. [i * a..<i * a + a]) [0..<n], blks = map (new_blk blksz (fst d) a) [0..<n * a],
          setShift = sshift, tagShift = sshift + slog, setMask = nsets - 1, blkMask = blksz - 1,
          warmupBound = nblk, warmedUp = False, numBlocks = nblk, replacements = 0, tagsInUse = 0,
          totalRefs = 0, sampledRefs = 0, warmupCycle = 0, occupancies = (\<lambda>_. 0)\<rparr>))))"

definition extractTag :: "lru \<Rightarrow> addr \<Rightarrow> addr" where
  "extractTag t a = drop_bit (tagShift t) a"

definition extractSet :: "lru \<Rightarrow> addr \<Rightarrow> 32 word" where
  "extractSet t a = ucast (drop_bit (setShift t) a AND ucast (setMask t))"

definition extractBlkOffset :: "lru \<Rightarrow> addr \<Rightarrow> 32 word" where
  "extractBlkOffset t a = ucast (a AND ucast (blkMask t))"

definition blkAlign :: "lru \<Rightarrow> addr \<Rightarrow> addr" where
  "blkAlign t a = a AND NOT (ucast (blkMask t))"

definition regenerateBlkAddr :: "lru \<Rightarrow> addr \<Rightarrow> 32 word \<Rightarrow> addr" where
  "regenerateBlkAddr t tag si = push_bit (tagShift t) tag OR push_bit (setShift t) (ucast si)"

definition set_at :: "lru \<Rightarrow> 32 word \<Rightarrow> nat list res" where
  "set_at t i = (if unat i < length (sets t) then Inr (sets t ! unat i) else Inl BadPtr)"

definition upd_blk :: "nat \<Rightarrow> (cache_blk \<Rightarrow> cache_blk) \<Rightarrow> lru \<Rightarrow> lru" where
  "upd_blk i f t = t\<lparr>blks := (blks t)[i := f (blks t ! i)]\<rparr>"

definition findBlock :: "addr \<Rightarrow> lru \<Rightarrow> nat option res" where
  "findBlock a t = bindR (set_at t (extractSet t a)) (\<lambda>s. Inr (findBlk (blks t) (extractTag t a) s))"

definition accessBlock :: "tick \<Rightarrow> addr \<Rightarrow> lru \<Rightarrow> (nat option \<times> 32 word \<times> lru) res" where
  "accessBlock now a t = bindR (set_at t (extractSet t a)) (\<lambda>s.
     case findBlk (blks t) (extractTag t a) s of
       None \<Rightarrow> Inr (None, hitLatency t, t)
     | Some i \<Rightarrow> bindR (moveToHead i s) (\<lambda>s'.
         let b = blks t ! i;
             lat = (if now <s cb_whenReady b \<and> ucast (hitLatency t) <s cb_whenReady b - now
                    then ucast (cb_whenReady b - now) else hitLatency t) in
         Inr (Some i, lat, upd_blk i (\<lambda>b. b\<lparr>cb_refCount := cb_refCount b + 1\<rparr>)
           (t\<lparr>sets := (sets t)[unat (extractSet t a) := s']\<rparr>))))"

definition occupancy_of :: "32 word \<Rightarrow> 32 word \<Rightarrow> int" where
  "occupancy_of cpus src = (if src \<noteq> - 1 then sint src smod sint cpus else sint cpus)"

definition count_occupancy :: "32 word \<Rightarrow> 32 word \<Rightarrow> int \<Rightarrow> lru \<Rightarrow> lru" where
  "count_occupancy cpus src d t =
     t\<lparr>occupancies := (occupancies t)(occupancy_of cpus src := occupancies t (occupancy_of cpus src) + d)\<rparr>"

definition findVictim :: "32 word \<Rightarrow> addr \<Rightarrow> lru \<Rightarrow> (nat \<times> lru) res" where
  "findVictim cpus a t = bindR (set_at t (extractSet t a)) (\<lambda>s.
     if \<not> unat (assoc t - 1) < length s then Inl BadPtr
     else let i = s ! unat (assoc t - 1); b = blks t ! i in
       if blk_isValid b
       then Inr (i, upd_blk i (\<lambda>b. b\<lparr>cb_refCount := 0, cb_contextSrc := - 1\<rparr>)
              (count_occupancy cpus (cb_contextSrc b) (- 1)
                (t\<lparr>replacements := replacements t + 1, totalRefs := totalRefs t + sint (cb_refCount b),
                   sampledRefs := sampledRefs t + 1\<rparr>)))
       else Inr (i, t))"

definition mark_touched :: "tick \<Rightarrow> nat \<Rightarrow> lru \<Rightarrow> lru" where
  "mark_touched now i t =
     (if cb_isTouched (blks t ! i) then t
      else let t1 = upd_blk i (\<lambda>b. b\<lparr>cb_isTouched := True\<rparr>) (t\<lparr>tagsInUse := tagsInUse t + 1\<rparr>) in
        if \<not> warmedUp t1 \<and> tagsInUse t1 \<ge> sint (warmupBound t1)
        then t1\<lparr>warmedUp := True, warmupCycle := now\<rparr> else t1)"

definition insertBlock :: "32 word \<Rightarrow> tick \<Rightarrow> addr \<Rightarrow> nat \<Rightarrow> 32 word \<Rightarrow> lru \<Rightarrow> lru res" where
  "insertBlock cpus now a i src t =
     (let t1 = mark_touched now i t;
          t2 = upd_blk i (\<lambda>b. b\<lparr>cb_contextSrc := src\<rparr>)
                 (count_occupancy cpus src 1 (upd_blk i (\<lambda>b. b\<lparr>cb_tag := extractTag t a\<rparr>) t1)) in
      bindR (set_at t2 (extractSet t a)) (\<lambda>s. bindR (moveToHead i s) (\<lambda>s'.
        Inr (t2\<lparr>sets := (sets t2)[unat (extractSet t a) := s']\<rparr>))))"

definition invalidateBlk :: "32 word \<Rightarrow> nat option \<Rightarrow> lru \<Rightarrow> lru" where
  "invalidateBlk cpus bo t = (case bo of None \<Rightarrow> t
     | Some i \<Rightarrow> upd_blk i (\<lambda>b. b\<lparr>cb_contextSrc := - 1\<rparr>)
         (count_occupancy cpus (cb_contextSrc (blks t ! i)) (- 1)
           (upd_blk i (\<lambda>b. clearLoadLocks (b\<lparr>cb_status := 0, cb_isTouched := False\<rparr>))
             (t\<lparr>tagsInUse := tagsInUse t - 1\<rparr>))))"

definition cleanupRefs :: "lru \<Rightarrow> lru" where
  "cleanupRefs t = fold (\<lambda>b t. if blk_isValid b
     then t\<lparr>totalRefs := totalRefs t + sint (cb_refCount b), sampledRefs := sampledRefs t + 1\<rparr> else t)
     (take (unat (numSets t * assoc t)) (blks t)) t"

subsection \<open>Address arithmetic\<close>

definition lru_geom :: "nat \<Rightarrow> nat \<Rightarrow> lru \<Rightarrow> bool" where
  "lru_geom b s t \<longleftrightarrow> 2 \<le> b \<and> b < 32 \<and> s < 32 \<and> blkSize t = 2 ^ b \<and> numSets t = 2 ^ s \<and> setShift t = b \<and>
     tagShift t = b + s \<and> setMask t = mask s \<and> blkMask t = mask b"

lemma lru_geom_bits:
  assumes "lru_geom b s t"
  shows "bit (extractTag t a) i \<longleftrightarrow> bit a (b + s + i)"
    and "bit (extractSet t a) i \<longleftrightarrow> i < s \<and> bit a (b + i)"
    and "bit (extractBlkOffset t a) i \<longleftrightarrow> i < b \<and> bit a i"
    and "bit (blkAlign t a) i \<longleftrightarrow> b \<le> i \<and> bit a i"
    and "bit (regenerateBlkAddr t tg si) i \<longleftrightarrow> i < 64 \<and> (b + s \<le> i \<and> bit tg (i - (b + s)) \<or> b \<le> i \<and> bit si (i - b))"
  using assms bit_imp_le_length [of a]
  by (auto simp: lru_geom_def extractTag_def extractSet_def extractBlkOffset_def blkAlign_def regenerateBlkAddr_def
      bit_simps not_less)

lemma regenerate_extract:
  assumes "lru_geom b s t"
  shows "regenerateBlkAddr t (extractTag t a) (extractSet t a) = blkAlign t a"
proof (rule bit_word_eqI)
  fix i assume "i < LENGTH(64)"
  then show "bit (regenerateBlkAddr t (extractTag t a) (extractSet t a)) i = bit (blkAlign t a) i"
    by (cases "b + s \<le> i") (auto simp: lru_geom_bits [OF assms])
qed

lemma same_block:
  assumes "lru_geom b s t"
  shows "blkAlign t a = blkAlign t a' \<longleftrightarrow> extractTag t a = extractTag t a' \<and> extractSet t a = extractSet t a'"
proof
  assume "blkAlign t a = blkAlign t a'"
  then have "bit a i = bit a' i" if "b \<le> i" for i
    using that lru_geom_bits(4) [OF assms] by metis
  then show "extractTag t a = extractTag t a' \<and> extractSet t a = extractSet t a'"
    by (auto intro!: bit_word_eqI simp: lru_geom_bits [OF assms])
next
  assume "extractTag t a = extractTag t a' \<and> extractSet t a = extractSet t a'"
  then show "blkAlign t a = blkAlign t a'"
    using regenerate_extract [OF assms, of a] regenerate_extract [OF assms, of a'] by simp
qed

lemma extract_regenerate:
  assumes "lru_geom b s t" "unat tg < 2 ^ (64 - (b + s))" "unat si < 2 ^ s"
  shows "extractTag t (regenerateBlkAddr t tg si) = tg" "extractSet t (regenerateBlkAddr t tg si) = si"
proof -
  have bs: "b < 32" "s < 32" using assms(1) by (auto simp: lru_geom_def)
  have hi: "b + s + i < 64" if "bit tg i" for i
  proof (rule ccontr)
    assume "\<not> b + s + i < 64"
    then have "64 - (b + s) \<le> i" by simp
    then show False using assms(2) that by (simp only: unat_less_exp)
  qed
  have lo: "i < s" if "bit si i" for i
    using assms(3) that by (metis linorder_not_less unat_less_exp)
  show "extractTag t (regenerateBlkAddr t tg si) = tg" "extractSet t (regenerateBlkAddr t tg si) = si"
    using bs by (auto intro!: bit_word_eqI simp: lru_geom_bits [OF assms(1)] dest: hi lo)
qed

lemma extractSet_less: "lru_geom b s t \<Longrightarrow> unat (extractSet t a) < 2 ^ s"
  by (auto simp: unat_less_exp lru_geom_bits)

lemma split_address:
  assumes "lru_geom b s t"
  shows "a = blkAlign t a OR ucast (extractBlkOffset t a)"
  using assms by (intro bit_word_eqI) (auto simp: bit_or_iff bit_ucast_iff lru_geom_bits [OF assms] lru_geom_def)

subsection \<open>The invariant of the tag store\<close>

definition tags_of :: "cache_blk list \<Rightarrow> nat list \<Rightarrow> addr list" where
  "tags_of bs s = map (\<lambda>j. cb_tag (bs ! j)) (filter (\<lambda>j. blk_isValid (bs ! j)) s)"

definition recent_tags :: "lru \<Rightarrow> nat \<Rightarrow> addr list" where
  "recent_tags t i = (if i < length (sets t) then tags_of (blks t) (sets t ! i) else [])"

definition lru_ok :: "nat \<Rightarrow> nat \<Rightarrow> nat \<Rightarrow> lru \<Rightarrow> bool" where
  "lru_ok b s k t \<longleftrightarrow> lru_geom b s t \<and> unat (assoc t) = k \<and> 0 < k \<and> length (sets t) = 2 ^ s \<and>
     length (blks t) = 2 ^ s * k \<and> (\<forall>i < 2 ^ s. mset (sets t ! i) = mset [i * k..<i * k + k]) \<and>
     (\<forall>i < 2 ^ s. distinct (tags_of (blks t) (sets t ! i)))"

lemma moveToHead_remove:
  assumes "j \<in> set s"
  shows "moveToHead j s = Inr (j # remove1 j s)"
proof -
  have "j \<in> set s \<Longrightarrow> shift_down j nxt s = Inr (nxt # remove1 j s)" for nxt
    by (induction s arbitrary: nxt) auto
  then show ?thesis using assms by (cases s) (auto simp: moveToHead_def)
qed

lemma lru_ok_set:
  assumes ok: "lru_ok b s k t" and i: "i < 2 ^ s"
  shows "set (sets t ! i) = {i * k..<i * k + k}" "distinct (sets t ! i)" "length (sets t ! i) = k"
    and "j \<in> set (sets t ! i) \<Longrightarrow> j < length (blks t)"
proof -
  have m: "mset (sets t ! i) = mset [i * k..<i * k + k]" using ok i by (simp add: lru_ok_def)
  show st: "set (sets t ! i) = {i * k..<i * k + k}" using mset_eq_setD [OF m] by simp
  show "distinct (sets t ! i)" using mset_eq_imp_distinct_iff [OF m] by simp
  show "length (sets t ! i) = k" using mset_eq_length [OF m] by simp
  assume "j \<in> set (sets t ! i)"
  then have "j < Suc i * k" using st by auto
  also have "\<dots> \<le> 2 ^ s * k" using i by (intro mult_right_mono) auto
  finally show "j < length (blks t)" using ok by (simp add: lru_ok_def)
qed

lemma lru_ok_disjoint:
  assumes ok: "lru_ok b s k t" and i: "i < 2 ^ s" "i' < 2 ^ s" "i \<noteq> i'"
  shows "set (sets t ! i) \<inter> set (sets t ! i') = {}"
proof -
  have "Suc i * k \<le> i' * k \<or> Suc i' * k \<le> i * k" using i(3) by (metis mult_le_mono1 not_less_eq_eq le_antisym nat_le_linear)
  then show ?thesis using lru_ok_set(1) [OF ok i(1)] lru_ok_set(1) [OF ok i(2)] by auto
qed

lemma set_index:
  assumes "lru_ok b s k t"
  shows "set_at t (extractSet t a) = Inr (sets t ! unat (extractSet t a))" "unat (extractSet t a) < 2 ^ s"
  using assms extractSet_less [of b s t a] by (auto simp: lru_ok_def set_at_def)

lemma tags_of_cong:
  "(\<And>j. j \<in> set s \<Longrightarrow> cb_tag (bs' ! j) = cb_tag (bs ! j) \<and> blk_isValid (bs' ! j) = blk_isValid (bs ! j)) \<Longrightarrow>
    tags_of bs' s = tags_of bs s"
  unfolding tags_of_def by (simp cong: filter_cong)

definition same_shape :: "lru \<Rightarrow> lru \<Rightarrow> bool" where
  "same_shape t t' \<longleftrightarrow> numSets t' = numSets t \<and> blkSize t' = blkSize t \<and> assoc t' = assoc t \<and>
     setShift t' = setShift t \<and> tagShift t' = tagShift t \<and> setMask t' = setMask t \<and> blkMask t' = blkMask t"

lemma same_shape_extract:
  assumes "same_shape t t'"
  shows "lru_geom b s t' = lru_geom b s t" "extractSet t' = extractSet t" "extractTag t' = extractTag t"
  using assms by (auto simp: same_shape_def lru_geom_def extractSet_def extractTag_def fun_eq_iff)

lemma lru_ok_update:
  assumes ok: "lru_ok b s k t" and i: "i < 2 ^ s" and sh: "same_shape t t'"
    and st: "sets t' = (sets t)[i := s']" "mset s' = mset (sets t ! i)"
    and bl: "length (blks t') = length (blks t)" "\<And>j. j \<notin> set (sets t ! i) \<Longrightarrow> blks t' ! j = blks t ! j"
    and d: "distinct (tags_of (blks t') s')"
  shows "lru_ok b s k t'" "recent_tags t' i = tags_of (blks t') s'" "i' \<noteq> i \<Longrightarrow> recent_tags t' i' = recent_tags t i'"
proof -
  have len: "length (sets t) = 2 ^ s" using ok by (simp add: lru_ok_def)
  have other: "tags_of (blks t') (sets t ! i') = tags_of (blks t) (sets t ! i')" if "i' < 2 ^ s" "i' \<noteq> i" for i'
  proof (rule tags_of_cong)
    fix j assume "j \<in> set (sets t ! i')"
    then have "blks t' ! j = blks t ! j" using bl(2) lru_ok_disjoint [OF ok i that(1)] that(2) by blast
    then show "cb_tag (blks t' ! j) = cb_tag (blks t ! j) \<and> blk_isValid (blks t' ! j) = blk_isValid (blks t ! j)"
      by simp
  qed
  have "distinct (tags_of (blks t') (sets t' ! i'))" if "i' < 2 ^ s" for i'
    using that d other [of i'] ok len by (cases "i' = i") (auto simp: st(1) lru_ok_def)
  moreover have "mset (sets t' ! i') = mset (sets t ! i')" if "i' < 2 ^ s" for i'
    using that len by (cases "i' = i") (simp_all add: st)
  moreover have "length (sets t') = 2 ^ s" using len by (simp add: st(1))
  ultimately show "lru_ok b s k t'"
    using ok sh bl(1) same_shape_extract(1) [OF sh] by (simp add: lru_ok_def same_shape_def)
  show "recent_tags t' i = tags_of (blks t') s'" using i len by (simp add: recent_tags_def st(1))
  show "recent_tags t' i' = recent_tags t i'" if "i' \<noteq> i" for i'
    using other [of i'] that len by (auto simp: recent_tags_def st(1))
qed

lemma findBlk_tags:
  "findBlk bs tg s = None \<longleftrightarrow> tg \<notin> set (tags_of bs s)"
  "findBlk bs tg s = Some j \<Longrightarrow> j \<in> set s \<and> cb_tag (bs ! j) = tg \<and> blk_isValid (bs ! j)"
  by (auto simp: findBlk_def tags_of_def find_None_iff find_Some_iff)

lemma findBlock_recent:
  assumes ok: "lru_ok b s k t"
  shows "\<exists>r. findBlock a t = Inr r \<and> (r = None \<longleftrightarrow> extractTag t a \<notin> set (recent_tags t (unat (extractSet t a))))"
  using set_index [OF ok, of a] ok by (simp add: findBlock_def findBlk_tags recent_tags_def lru_ok_def)

lemma blks_upd_blk [simp]:
  "blks (upd_blk i f t) = (blks t)[i := f (blks t ! i)]" "sets (upd_blk i f t) = sets t"
  by (simp_all add: upd_blk_def)

lemma same_shape_simps [simp]:
  "same_shape t t" "same_shape t (upd_blk i f t') = same_shape t t'"
  "same_shape t (t'\<lparr>sets := x\<rparr>) = same_shape t t'" "same_shape t (count_occupancy cpus src d t') = same_shape t t'"
  "same_shape t (mark_touched now i t') = same_shape t t'"
  by (auto simp: same_shape_def upd_blk_def count_occupancy_def mark_touched_def Let_def)

subsection \<open>Operations\<close>

lemma tags_of_Cons:
  "tags_of bs (j # s) = (if blk_isValid (bs ! j) then cb_tag (bs ! j) # tags_of bs s else tags_of bs s)"
  by (simp add: tags_of_def)

lemma tags_of_remove1:
  assumes "distinct s" "distinct (tags_of bs s)" "j \<in> set s" "blk_isValid (bs ! j)"
  shows "tags_of bs (remove1 j s) = removeAll (cb_tag (bs ! j)) (tags_of bs s)"
  using assms
proof (induction s)
  case (Cons x s)
  show ?case
  proof (cases "x = j")
    case True
    then have "cb_tag (bs ! j) \<notin> set (tags_of bs s)" using Cons.prems by (auto simp: tags_of_Cons)
    then show ?thesis using True Cons.prems by (simp add: tags_of_Cons removeAll_id)
  next
    case False
    then have "cb_tag (bs ! j) \<in> set (tags_of bs s)" using Cons.prems by (auto simp: tags_of_def)
    then show ?thesis using False Cons by (auto simp: tags_of_Cons split: if_splits)
  qed
qed simp

lemma accessBlock_hit:
  assumes ok: "lru_ok b s k t" and hit: "extractTag t a \<in> set (recent_tags t (unat (extractSet t a)))"
  shows "\<exists>j lat t'. accessBlock now a t = Inr (Some j, lat, t') \<and> findBlock a t = Inr (Some j) \<and> lru_ok b s k t' \<and>
    same_shape t t' \<and>
    sets t' = (sets t)[unat (extractSet t a) := j # remove1 j (sets t ! unat (extractSet t a))] \<and>
    j \<in> set (sets t ! unat (extractSet t a)) \<and> map blk_isValid (blks t') = map blk_isValid (blks t) \<and> blk_isValid (blks t ! j) \<and>
    recent_tags t' (unat (extractSet t a)) = mru_step (extractTag t a) (recent_tags t (unat (extractSet t a))) \<and>
    (\<forall>i. i \<noteq> unat (extractSet t a) \<longrightarrow> recent_tags t' i = recent_tags t i)"
proof -
  let ?i = "unat (extractSet t a)" and ?tg = "extractTag t a"
  let ?s = "sets t ! ?i"
  note si = set_index [OF ok, of a]
  have len: "length (sets t) = 2 ^ s" using ok by (simp add: lru_ok_def)
  obtain j where f: "findBlk (blks t) ?tg ?s = Some j"
    using hit si(2) len findBlk_tags(1) [of "blks t" ?tg ?s] by (auto simp: recent_tags_def)
  then have j: "j \<in> set ?s" "cb_tag (blks t ! j) = ?tg" "blk_isValid (blks t ! j)" using findBlk_tags(2) by auto
  have jl: "j < length (blks t)" using lru_ok_set(4) [OF ok si(2) j(1)] .
  let ?f = "\<lambda>b. b\<lparr>cb_refCount := cb_refCount b + 1\<rparr> :: cache_blk"
  define t' where "t' = upd_blk j ?f (t\<lparr>sets := (sets t)[?i := j # remove1 j ?s]\<rparr>)"
  obtain lat where run: "accessBlock now a t = Inr (Some j, lat, t')"
    using si f j(1) by (simp add: accessBlock_def moveToHead_remove Let_def t'_def)
  have find: "findBlock a t = Inr (Some j)" using si(1) f by (simp add: findBlock_def)
  have v: "blk_isValid (?f b) = blk_isValid b" for b by (simp add: blk_isValid_def)
  have eq: "tags_of (blks t') x = tags_of (blks t) x" for x
    using jl by (intro tags_of_cong) (auto simp: t'_def nth_list_update v)
  have "tags_of (blks t') (j # remove1 j ?s) = mru_step ?tg (recent_tags t ?i)"
    unfolding eq using tags_of_remove1 [OF lru_ok_set(2) [OF ok si(2)] _ j(1,3)] ok si(2) j len
    by (simp add: tags_of_Cons mru_step_def recent_tags_def lru_ok_def)
  moreover have "distinct (mru_step ?tg (recent_tags t ?i))"
    using ok si(2) len by (auto simp: mru_step_def recent_tags_def lru_ok_def distinct_removeAll)
  moreover have "map blk_isValid (blks t') = map blk_isValid (blks t)"
    by (simp add: t'_def map_update v list_update_same_conv jl)
  moreover have sh: "same_shape t t'" and st: "sets t' = (sets t)[?i := j # remove1 j ?s]"
    by (simp_all add: t'_def)
  moreover have "mset (j # remove1 j ?s) = mset ?s" using j(1) by simp
  moreover have "length (blks t') = length (blks t)" by (simp add: t'_def)
  moreover have "blks t' ! x = blks t ! x" if "x \<notin> set ?s" for x
    using that j(1) by (cases "x = j") (auto simp: t'_def)
  ultimately show ?thesis
    using lru_ok_update [OF ok si(2) sh st] run find j by simp
qed

lemma accessBlock_miss:
  assumes ok: "lru_ok b s k t" and miss: "extractTag t a \<notin> set (recent_tags t (unat (extractSet t a)))"
  shows "accessBlock now a t = Inr (None, hitLatency t, t)"
  using set_index [OF ok, of a] ok miss
  by (simp add: accessBlock_def recent_tags_def lru_ok_def findBlk_tags(1) [symmetric])

text \<open>
  A miss that is filled: the victim is taken from the end of the set, gets the new tag and
  moves to the front, and the caller makes it valid.
\<close>

definition lru_fill :: "32 word \<Rightarrow> tick \<Rightarrow> 32 word \<Rightarrow> addr \<Rightarrow> lru \<Rightarrow> (nat \<times> lru) res" where
  "lru_fill cpus now src a t = bindR (findVictim cpus a t) (\<lambda>(i, t1). bindR (insertBlock cpus now a i src t1) (\<lambda>t2.
     Inr (i, upd_blk i (\<lambda>b. b\<lparr>cb_status := BlkValid OR BlkReadable\<rparr>) t2)))"

definition off_blk :: "nat \<Rightarrow> lru \<Rightarrow> lru \<Rightarrow> bool" where
  "off_blk j t t' \<longleftrightarrow> same_shape t t' \<and> sets t' = sets t \<and> length (blks t') = length (blks t) \<and>
     (\<forall>x. x \<noteq> j \<longrightarrow> blks t' ! x = blks t ! x)"

lemma off_blk_intros:
  "off_blk j t t" "off_blk j t t' \<Longrightarrow> off_blk j t (upd_blk j f t')"
  "off_blk j t t' \<Longrightarrow> off_blk j t (count_occupancy cpus src d t')"
  "off_blk j t t' \<Longrightarrow> off_blk j t (mark_touched now j t')"
  "off_blk j t t' \<Longrightarrow> off_blk j t (t'\<lparr>replacements := r, totalRefs := x, sampledRefs := y\<rparr>)"
  "off_blk j t t' \<Longrightarrow> off_blk j t (t'\<lparr>tagsInUse := z\<rparr>)"
  by (auto simp: off_blk_def same_shape_def upd_blk_def count_occupancy_def mark_touched_def Let_def)

lemma off_blk_set_at: "off_blk j t t' \<Longrightarrow> set_at t' x = set_at t x"
  by (simp add: off_blk_def set_at_def)

lemma findVictim_last:
  assumes ok: "lru_ok b s k t"
  shows "\<exists>t'. findVictim cpus a t = Inr (last (sets t ! unat (extractSet t a)), t') \<and>
    off_blk (last (sets t ! unat (extractSet t a))) t t'"
proof -
  note si = set_index [OF ok, of a]
  let ?s = "sets t ! unat (extractSet t a)"
  have k: "length ?s = k" "unat (assoc t) = k" "0 < k" using lru_ok_set(3) [OF ok si(2)] ok by (auto simp: lru_ok_def)
  then have "assoc t \<noteq> 0" by auto
  then have "unat (assoc t - 1) = k - 1" using k by (simp add: unat_minus_one)
  moreover have "last ?s = ?s ! (k - 1)" using k by (metis last_conv_nth length_greater_0_conv)
  ultimately show ?thesis
    using si(1) k by (auto simp: findVictim_def Let_def intro!: off_blk_intros)
qed

lemma insertBlock_front:
  assumes "set_at t (extractSet t a) = Inr s" "j \<in> set s" "j < length (blks t)"
  shows "\<exists>t'. insertBlock cpus now a j src t = Inr (t'\<lparr>sets := (sets t)[unat (extractSet t a) := j # remove1 j s]\<rparr>) \<and>
    off_blk j t t' \<and> cb_tag (blks t' ! j) = extractTag t a"
proof -
  let ?t2 = "upd_blk j (\<lambda>b. b\<lparr>cb_contextSrc := src\<rparr>)
    (count_occupancy cpus src 1 (upd_blk j (\<lambda>b. b\<lparr>cb_tag := extractTag t a\<rparr>) (mark_touched now j t)))"
  have o: "off_blk j t ?t2" by (intro off_blk_intros)
  have "length (blks (mark_touched now j t)) = length (blks t)"
    by (simp add: mark_touched_def Let_def)
  then have "cb_tag (blks ?t2 ! j) = extractTag t a" using assms(3) by (simp add: count_occupancy_def)
  moreover have "set_at ?t2 (extractSet t a) = Inr s" "sets ?t2 = sets t"
    using off_blk_set_at [OF o] assms(1) o by (simp_all add: off_blk_def)
  ultimately show ?thesis using o moveToHead_remove [OF assms(2)]
    by (auto simp: insertBlock_def Let_def)
qed

lemma lru_fill_spec:
  assumes ok: "lru_ok b s k t" and miss: "extractTag t a \<notin> set (recent_tags t (unat (extractSet t a)))"
  shows "\<exists>t'. lru_fill cpus now src a t = Inr (last (sets t ! unat (extractSet t a)), t') \<and> lru_ok b s k t' \<and> same_shape t t' \<and>
    sets t' = (sets t)[unat (extractSet t a) := last (sets t ! unat (extractSet t a)) # butlast (sets t ! unat (extractSet t a))] \<and>
    (\<forall>x. x \<noteq> last (sets t ! unat (extractSet t a)) \<longrightarrow> blks t' ! x = blks t ! x) \<and>
    blk_isValid (blks t' ! last (sets t ! unat (extractSet t a))) \<and>
    recent_tags t' (unat (extractSet t a)) = extractTag t a # tags_of (blks t) (butlast (sets t ! unat (extractSet t a))) \<and>
    (\<forall>i. i \<noteq> unat (extractSet t a) \<longrightarrow> recent_tags t' i = recent_tags t i)"
proof -
  define i sq where "i = unat (extractSet t a)" and "sq = sets t ! i"
  define j where "j = last sq"
  note si = set_index [OF ok, of a, folded i_def, folded sq_def]
  note sq = lru_ok_set [OF ok si(2), folded sq_def]
  have ne: "sq \<noteq> []" using sq(3) ok by (auto simp: lru_ok_def)
  then have j: "j \<in> set sq" "j < length (blks t)" using sq(4) by (auto simp: j_def)
  obtain t1 where t1: "findVictim cpus a t = Inr (j, t1)" "off_blk j t t1"
    using findVictim_last [OF ok, of cpus a] by (auto simp: i_def sq_def j_def)
  have s1: "set_at t1 (extractSet t1 a) = Inr sq" "extractSet t1 a = extractSet t a" "extractTag t1 a = extractTag t a"
      "sets t1 = sets t" "length (blks t1) = length (blks t)"
    using t1(2) si same_shape_extract [of t t1] off_blk_set_at [OF t1(2)] by (auto simp: off_blk_def)
  obtain t2 where t2: "insertBlock cpus now a j src t1 = Inr (t2\<lparr>sets := (sets t)[i := j # remove1 j sq]\<rparr>)"
      "off_blk j t1 t2" "cb_tag (blks t2 ! j) = extractTag t a"
    using insertBlock_front [OF s1(1) j(1), of cpus now src] j(2) s1(2-5) by (auto simp: i_def)
  define t' where "t' = upd_blk j (\<lambda>b. b\<lparr>cb_status := BlkValid OR BlkReadable\<rparr>) (t2\<lparr>sets := (sets t)[i := j # remove1 j sq]\<rparr>)"
  have run: "lru_fill cpus now src a t = Inr (j, t')" using t1(1) t2(1) by (simp add: lru_fill_def t'_def)
  have rm: "remove1 j sq = butlast sq" and nj: "j \<notin> set (butlast sq)"
    using distinct_last [OF sq(2) ne] by (simp_all add: j_def)
  have sh: "same_shape t t'" using t1(2) t2(2) by (auto simp: off_blk_def t'_def same_shape_def upd_blk_def)
  have st: "sets t' = (sets t)[i := j # butlast sq]" by (simp add: t'_def rm)
  have bl: "length (blks t') = length (blks t)" "\<And>x. x \<noteq> j \<Longrightarrow> blks t' ! x = blks t ! x"
    using t1(2) t2(2) by (auto simp: off_blk_def t'_def)
  have new: "blk_isValid (blks t' ! j)" "cb_tag (blks t' ! j) = extractTag t a"
    using j(2) t1(2) t2(2,3) by (auto simp: t'_def off_blk_def blk_isValid_def BlkValid_def BlkReadable_def)
  have "tags_of (blks t') (butlast sq) = tags_of (blks t) (butlast sq)"
    using nj bl(2) by (intro tags_of_cong) metis
  then have rec: "tags_of (blks t') (j # butlast sq) = extractTag t a # tags_of (blks t) (butlast sq)"
    using new by (simp add: tags_of_Cons)
  have sub: "tags_of (blks t) sq = tags_of (blks t) (butlast sq) @ tags_of (blks t) [j]"
    using append_butlast_last_id [OF ne] unfolding j_def tags_of_def by (metis filter_append map_append)
  have len: "length (sets t) = 2 ^ s" "distinct (tags_of (blks t) sq)"
    using ok si(2) by (simp_all add: lru_ok_def sq_def)
  then have "distinct (tags_of (blks t') (j # butlast sq))"
    unfolding rec using miss si(2) sub by (auto simp: recent_tags_def i_def [symmetric] sq_def [symmetric])
  moreover have "mset (j # remove1 j sq) = mset sq" using j(1) by simp
  then have "mset (j # butlast sq) = mset (sets t ! i)" by (metis rm sq_def)
  ultimately show ?thesis
    using lru_ok_update [OF ok si(2) sh st _ bl(1)] bl(2) run sh st new(1) j(1) rec
    by (simp add: i_def [symmetric] sq_def [symmetric] j_def [symmetric]) (metis sq_def)
qed

subsection \<open>Least-recently-used replacement\<close>

definition lru_access :: "32 word \<Rightarrow> tick \<Rightarrow> 32 word \<Rightarrow> addr \<Rightarrow> lru \<Rightarrow> lru res" where
  "lru_access cpus now src a t = bindR (accessBlock now a t) (\<lambda>(bo, lat, t1).
     case bo of Some j \<Rightarrow> Inr t1 | None \<Rightarrow> bindR (lru_fill cpus now src a t1) (\<lambda>(j, t2). Inr t2))"

text \<open>
  Without invalidations the invalid blocks of a set are those that were never filled, at
  its end.
\<close>

definition valid_front :: "cache_blk list \<Rightarrow> nat list \<Rightarrow> bool" where
  "valid_front bs s \<longleftrightarrow> (\<exists>vs us. s = vs @ us \<and> (\<forall>j \<in> set vs. blk_isValid (bs ! j)) \<and>
     (\<forall>j \<in> set us. \<not> blk_isValid (bs ! j)))"

definition lru_packed :: "nat \<Rightarrow> nat \<Rightarrow> nat \<Rightarrow> lru \<Rightarrow> bool" where
  "lru_packed b s k t \<longleftrightarrow> lru_ok b s k t \<and> (\<forall>i < 2 ^ s. valid_front (blks t) (sets t ! i))"

lemma valid_front_cong:
  assumes "\<And>j. j \<in> set s \<Longrightarrow> blk_isValid (bs' ! j) = blk_isValid (bs ! j)"
  shows "valid_front bs' s = valid_front bs s"
  unfolding valid_front_def by (intro ex_cong1 conj_cong) (use assms in auto)

lemma valid_front_Cons: "blk_isValid (bs ! j) \<Longrightarrow> valid_front bs s \<Longrightarrow> valid_front bs (j # s)"
  unfolding valid_front_def by (metis append_Cons set_ConsD)

lemma valid_front_remove1: "valid_front bs s \<Longrightarrow> valid_front bs (remove1 j s)"
proof -
  assume "valid_front bs s"
  then obtain vs us where "s = vs @ us" "\<forall>j \<in> set vs. blk_isValid (bs ! j)" "\<forall>j \<in> set us. \<not> blk_isValid (bs ! j)"
    by (auto simp: valid_front_def)
  moreover have "remove1 j (vs @ us) = (if j \<in> set vs then remove1 j vs @ us else vs @ remove1 j us)"
    by (simp add: remove1_append)
  ultimately show ?thesis unfolding valid_front_def
    by (metis notin_set_remove1)
qed

lemma valid_front_full:
  assumes "valid_front bs s" "s \<noteq> []" "blk_isValid (bs ! last s)"
  shows "\<forall>j \<in> set s. blk_isValid (bs ! j)"
proof -
  obtain vs us where sp: "s = vs @ us" "\<forall>j \<in> set vs. blk_isValid (bs ! j)" "\<forall>j \<in> set us. \<not> blk_isValid (bs ! j)"
    using assms(1) by (auto simp: valid_front_def)
  have "us = []"
  proof (rule ccontr)
    assume "us \<noteq> []"
    then have "last s \<in> set us" using sp(1) by simp
    then show False using sp(3) assms(3) by blast
  qed
  then show ?thesis using sp by simp
qed

lemma lru_packed_update:
  assumes p: "lru_packed b s k t" and ok: "lru_ok b s k t'" and i: "i < 2 ^ s" and st: "sets t' = (sets t)[i := s']"
    and f: "valid_front (blks t') s'"
    and off: "\<And>x. x < length (blks t) \<Longrightarrow> x \<notin> set (sets t ! i) \<Longrightarrow> blk_isValid (blks t' ! x) = blk_isValid (blks t ! x)"
  shows "lru_packed b s k t'"
proof -
  have lok: "lru_ok b s k t" "length (sets t) = 2 ^ s" using p by (simp_all add: lru_packed_def lru_ok_def)
  have "valid_front (blks t') (sets t' ! x)" if x: "x < 2 ^ s" for x
  proof (cases "x = i")
    case False
    have "valid_front (blks t') (sets t ! x) = valid_front (blks t) (sets t ! x)"
      using lru_ok_disjoint [OF lok(1) i x] False off lru_ok_set(4) [OF lok(1) x] by (intro valid_front_cong) blast
    then show ?thesis using False p x by (simp add: st lru_packed_def)
  qed (use st f i lok(2) in simp)
  with ok show ?thesis by (simp add: lru_packed_def)
qed

lemma recent_length: "lru_ok b s k t \<Longrightarrow> length (recent_tags t i) \<le> k"
proof -
  assume ok: "lru_ok b s k t"
  have "length (tags_of (blks t) (sets t ! i)) \<le> length (sets t ! i)" by (simp add: tags_of_def)
  then show ?thesis using lru_ok_set(3) [OF ok, of i] ok by (auto simp: recent_tags_def lru_ok_def)
qed

lemma lru_access_hit:
  assumes p: "lru_packed b s k t" and hit: "extractTag t a \<in> set (recent_tags t (unat (extractSet t a)))"
  shows "\<exists>t'. lru_access cpus now src a t = Inr t' \<and> lru_packed b s k t' \<and> same_shape t t' \<and>
    (\<forall>i. recent_tags t' i = (if i = unat (extractSet t a)
       then take k (mru_step (extractTag t a) (recent_tags t i)) else recent_tags t i))"
proof -
  define i tg where "i = unat (extractSet t a)" and "tg = extractTag t a"
  have ok: "lru_ok b s k t" using p by (simp add: lru_packed_def)
  have i: "i < 2 ^ s" using set_index(2) [OF ok, of a] by (simp add: i_def)
  obtain j lat t' where r: "accessBlock now a t = Inr (Some j, lat, t')" "lru_ok b s k t'" "same_shape t t'"
      "sets t' = (sets t)[i := j # remove1 j (sets t ! i)]"
      "map blk_isValid (blks t') = map blk_isValid (blks t)" "blk_isValid (blks t ! j)"
      "recent_tags t' i = mru_step tg (recent_tags t i)" "\<And>x. x \<noteq> i \<Longrightarrow> recent_tags t' x = recent_tags t x"
      "j \<in> set (sets t ! i)"
    using accessBlock_hit [OF ok hit, of now] by (auto simp: i_def tg_def)
  have val: "blk_isValid (blks t' ! x) = blk_isValid (blks t ! x)" if "x < length (blks t)" for x
    using that r(5) by (metis length_map nth_map)
  have in_set: "x < length (blks t)" if "x \<in> set (sets t ! i)" for x using lru_ok_set(4) [OF ok i that] .
  have "length (mru_step tg (recent_tags t i)) \<le> k" using recent_length [OF r(2), of i] r(7) by simp
  moreover have "lru_packed b s k t'"
  proof (rule lru_packed_update [OF p r(2) i r(4)])
    have "valid_front (blks t) (j # remove1 j (sets t ! i))"
      using p i r(6) by (intro valid_front_Cons valid_front_remove1) (simp_all add: lru_packed_def)
    moreover have "set (j # remove1 j (sets t ! i)) \<subseteq> set (sets t ! i)" using r(9) set_remove1_subset [of j "sets t ! i"] by auto
    ultimately show "valid_front (blks t') (j # remove1 j (sets t ! i))"
      using valid_front_cong [of "j # remove1 j (sets t ! i)" "blks t'" "blks t"] val in_set by blast
  qed (rule val)
  ultimately show ?thesis using r(1,3,7,8) by (auto simp: lru_access_def i_def tg_def)
qed

lemma tags_of_butlast:
  assumes "valid_front bs s" "s \<noteq> []" "length s = k"
  shows "x # tags_of bs (butlast s) = take k (x # tags_of bs s)"
proof (cases "blk_isValid (bs ! last s)")
  case True
  then have all: "\<forall>j \<in> set s. blk_isValid (bs ! j)" using valid_front_full [OF assms(1,2)] by simp
  then have "tags_of bs s = map (\<lambda>j. cb_tag (bs ! j)) s" "tags_of bs (butlast s) = map (\<lambda>j. cb_tag (bs ! j)) (butlast s)"
    using in_set_butlastD [of _ s] by (simp_all add: tags_of_def)
  then show ?thesis using assms(2,3) by (cases k) (auto simp: butlast_conv_take take_map)
next
  case False
  have "tags_of bs s = tags_of bs (butlast s @ [last s])" using assms(2) by simp
  also have "\<dots> = tags_of bs (butlast s)" using False by (simp add: tags_of_def)
  finally have eq: "tags_of bs s = tags_of bs (butlast s)" .
  have "length (tags_of bs (butlast s)) \<le> k - 1" using assms(3) by (auto simp: tags_of_def intro: order_trans [OF length_filter_le])
  then show ?thesis using assms(2,3) eq by (cases k) auto
qed

lemma lru_access_miss:
  assumes p: "lru_packed b s k t" and miss: "extractTag t a \<notin> set (recent_tags t (unat (extractSet t a)))"
  shows "\<exists>t'. lru_access cpus now src a t = Inr t' \<and> lru_packed b s k t' \<and> same_shape t t' \<and>
    (\<forall>i. recent_tags t' i = (if i = unat (extractSet t a)
       then take k (mru_step (extractTag t a) (recent_tags t i)) else recent_tags t i))"
proof -
  define i sq where "i = unat (extractSet t a)" and "sq = sets t ! i"
  have ok: "lru_ok b s k t" "0 < k" "length (sets t) = 2 ^ s" using p by (simp_all add: lru_packed_def lru_ok_def)
  have i: "i < 2 ^ s" using set_index(2) [OF ok(1), of a] by (simp add: i_def)
  note sq = lru_ok_set [OF ok(1) i, folded sq_def]
  have ne: "sq \<noteq> []" using sq(3) ok(2) by auto
  have vf: "valid_front (blks t) sq" using p i by (simp add: lru_packed_def sq_def)
  obtain t' where r: "lru_fill cpus now src a t = Inr (last sq, t')" "lru_ok b s k t'" "same_shape t t'"
      "sets t' = (sets t)[i := last sq # butlast sq]" "\<And>x. x \<noteq> last sq \<Longrightarrow> blks t' ! x = blks t ! x"
      "blk_isValid (blks t' ! last sq)" "recent_tags t' i = extractTag t a # tags_of (blks t) (butlast sq)"
      "\<And>x. x \<noteq> i \<Longrightarrow> recent_tags t' x = recent_tags t x"
    using lru_fill_spec [OF ok(1) miss, of cpus now src] by (auto simp: i_def sq_def)
  have last: "last sq \<in> set sq" using ne by simp
  note bl = distinct_last [OF sq(2) ne]
  have "lru_packed b s k t'"
  proof (rule lru_packed_update [OF p r(2) i r(4)])
    have "valid_front (blks t) (butlast sq)" using valid_front_remove1 [OF vf] bl(2) by metis
    moreover have "valid_front (blks t') (butlast sq) = valid_front (blks t) (butlast sq)"
      using bl(1) r(5) by (intro valid_front_cong) metis
    ultimately show "valid_front (blks t') (last sq # butlast sq)" using r(6) by (simp add: valid_front_Cons)
    show "blk_isValid (blks t' ! x) = blk_isValid (blks t ! x)" if "x \<notin> set (sets t ! i)" for x
      using that last r(5) by (metis sq_def)
  qed
  moreover have "recent_tags t i = tags_of (blks t) sq" using i ok(3) by (simp add: recent_tags_def sq_def)
  then have "recent_tags t' i = take k (mru_step (extractTag t a) (recent_tags t i))"
    using miss r(7) tags_of_butlast [OF vf ne sq(3)] by (simp add: mru_step_def i_def [symmetric] removeAll_id)
  ultimately show ?thesis
    using r(1,3,8) accessBlock_miss [OF ok(1) miss, of now] by (auto simp: lru_access_def i_def)
qed

lemma lru_access_recent:
  assumes "lru_packed b s k t"
  shows "\<exists>t'. lru_access cpus now src a t = Inr t' \<and> lru_packed b s k t' \<and> same_shape t t' \<and>
    (\<forall>i. recent_tags t' i = (if i = unat (extractSet t a)
       then take k (mru_step (extractTag t a) (recent_tags t i)) else recent_tags t i))"
  using lru_access_hit [OF assms] lru_access_miss [OF assms] by blast

interpretation lru_tags: lru_store "\<lambda>t. lru_packed b s k t \<and> same_shape t0 t" recent_tags
    "\<lambda>a. unat (extractSet t0 a)" "extractTag t0" k "lru_access cpus now src" for b s k t0 cpus now src
proof
  fix t :: lru and a
  assume t: "lru_packed b s k t \<and> same_shape t0 t"
  have tr: "same_shape t0 t'" if "same_shape t t'" for t' using t that by (simp add: same_shape_def)
  have "extractSet t = extractSet t0" "extractTag t = extractTag t0" using t same_shape_extract by auto
  then show "\<exists>t'. lru_access cpus now src a t = Inr t' \<and> (lru_packed b s k t' \<and> same_shape t0 t') \<and>
    (\<forall>i. recent_tags t' i = (if i = unat (extractSet t0 a)
       then take k (mru_step (extractTag t0 a) (recent_tags t i)) else recent_tags t i))"
    using lru_access_recent [of b s k t cpus now src a] t tr by auto
qed

subsection \<open>Construction\<close>

lemma LRU_new_ok:
  assumes "LRU_new nsets blksz assc lat m = Inr (m', t)"
  shows "\<exists>b s. nsets = 2 ^ s \<and> blksz = 2 ^ b \<and> lru_packed b s (unat assc) t \<and> (\<forall>i. recent_tags t i = [])"
proof -
  have pw: "\<not> blksz < 4" "isPowerOf2 blksz" "nsets \<noteq> 0" "isPowerOf2 nsets" "assc \<noteq> 0"
    using assms by (auto simp: LRU_new_def split: if_splits)
  obtain b s where bs: "blksz = 2 ^ b" "b < 32" "nsets = 2 ^ s" "s < 32"
    using pw(2,4) by (auto simp: isPowerOf2_iff)
  have b2: "2 \<le> b"
  proof (rule ccontr)
    assume "\<not> 2 \<le> b"
    then have "b = 0 \<or> b = 1" by auto
    then show False using pw(1) bs(1) by auto
  qed
  let ?n = "unat nsets" and ?a = "unat assc"
  have n: "?n = 2 ^ s" "0 < ?a" using bs(3,4) pw(5) by (simp_all add: unat_exp unat_gt_0)
  obtain d where t: "t = \<lparr>numSets = nsets, blkSize = blksz, assoc = assc, hitLatency = lat,
          sets = map (\<lambda>i. [i * ?a..<i * ?a + ?a]) [0..<?n], blks = map (new_blk blksz d ?a) [0..<?n * ?a],
          setShift = b, tagShift = b + s, setMask = nsets - 1, blkMask = blksz - 1,
          warmupBound = nsets * assc, warmedUp = False, numBlocks = nsets * assc, replacements = 0, tagsInUse = 0,
          totalRefs = 0, sampledRefs = 0, warmupCycle = 0, occupancies = (\<lambda>_. 0)\<rparr>"
    using assms pw bs floorLog2_exp by (auto simp: LRU_new_def Let_def split: prod.splits if_splits)
  have geom: "lru_geom b s t" using bs b2 by (simp add: lru_geom_def t mask_eq_exp_minus_1)
  have st: "sets t ! i = [i * ?a..<i * ?a + ?a]" if "i < 2 ^ s" for i using that n by (simp add: t)
  have inv: "\<not> blk_isValid (blks t ! j)" if "j \<in> set (sets t ! i)" "i < 2 ^ s" for i j
  proof -
    have "j < Suc i * ?a" using that st by auto
    also have "\<dots> \<le> 2 ^ s * ?a" using that(2) by (intro mult_right_mono) auto
    finally show ?thesis using n by (simp add: t new_blk_def blk_isValid_def)
  qed
  have tags: "tags_of (blks t) (sets t ! i) = []" if "i < 2 ^ s" for i
    using inv [OF _ that] by (simp add: tags_of_def filter_empty_conv)
  have len: "length (sets t) = 2 ^ s" "length (blks t) = 2 ^ s * ?a" "assoc t = assc" using n by (simp_all add: t)
  have "lru_ok b s ?a t" using geom len n st tags by (simp add: lru_ok_def)
  moreover have "valid_front (blks t) (sets t ! i)" if "i < 2 ^ s" for i
    unfolding valid_front_def using inv [OF _ that] by (metis append_Nil empty_iff list.set(1))
  ultimately have "lru_packed b s ?a t" by (simp add: lru_packed_def)
  moreover have "recent_tags t i = []" for i using tags len by (simp add: recent_tags_def)
  ultimately show ?thesis using bs by blast
qed

lemma LRU_new_runs:
  assumes "2 \<le> b" "b < 32" "s < 32" "assc \<noteq> 0" "lat \<noteq> 0" "2 ^ s * unat assc < 2 ^ 32"
  shows "\<exists>m' t. LRU_new (2 ^ s) (2 ^ b) assc lat m = Inr (m', t)"
proof -
  have u: "unat (2 ^ s :: 32 word) = 2 ^ s" "unat (2 ^ b :: 32 word) = 2 ^ b" using assms by (simp_all add: unat_exp)
  have "unat (2 ^ s * assc :: 32 word) = 2 ^ s * unat assc"
    using assms(6) u(1) unat_mult_lem [of "2 ^ s" assc] by simp
  moreover have "\<not> (2 ^ b :: 32 word) < 4"
    using power_increasing [OF assms(1), of "2 :: nat"] u(2) by (simp add: word_less_nat_alt)
  moreover have "isPowerOf2 (2 ^ b :: 32 word)" "isPowerOf2 (2 ^ s :: 32 word)" "(2 ^ s :: 32 word) \<noteq> 0"
    using assms u(1) by (auto simp: isPowerOf2_iff)
  ultimately show ?thesis
    using assms floorLog2_exp u by (simp add: LRU_new_def Let_def split: prod.splits)
qed

subsection \<open>Invalidation and lookup\<close>

lemma distinct_tags_filter:
  assumes "distinct (tags_of bs s)" "\<And>j. j \<in> set s \<Longrightarrow> blk_isValid (bs' ! j) \<Longrightarrow> bs' ! j = bs ! j"
  shows "distinct (tags_of bs' s)"
  using assms
proof (induction s)
  case (Cons j s)
  have d: "distinct (tags_of bs s)" using Cons.prems(1) by (auto simp: tags_of_Cons split: if_splits)
  have sub: "set (tags_of bs' s) \<subseteq> set (tags_of bs s)" using Cons.prems(2) by (force simp: tags_of_def)
  show ?case using Cons.IH [OF d] Cons.prems(1) Cons.prems(2) [of j] Cons.prems(2) sub
    by (auto simp: tags_of_Cons split: if_splits)
qed (simp add: tags_of_def)

lemma invalidateBlk_ok:
  assumes ok: "lru_ok b s k t" and j: "j < length (blks t)"
  shows "lru_ok b s k (invalidateBlk cpus (Some j) t)" "\<not> blk_isValid (blks (invalidateBlk cpus (Some j) t) ! j)"
    "same_shape t (invalidateBlk cpus (Some j) t)"
proof -
  define t' where "t' = invalidateBlk cpus (Some j) t"
  have o: "off_blk j t t'" unfolding t'_def invalidateBlk_def by (simp, intro off_blk_intros)
  show inv: "\<not> blk_isValid (blks (invalidateBlk cpus (Some j) t) ! j)"
    using j by (simp add: invalidateBlk_def count_occupancy_def clearLoadLocks_def blk_isValid_def)
  show "same_shape t (invalidateBlk cpus (Some j) t)" using o by (simp add: off_blk_def t'_def)
  have k: "0 < k" "length (blks t) = 2 ^ s * k" "length (sets t) = 2 ^ s" using ok by (simp_all add: lru_ok_def)
  have i: "j div k < 2 ^ s" using j k by (simp add: div_less_iff_less_mult)
  have "j \<in> {j div k * k..<j div k * k + k}"
    using div_mult_mod_eq [of j k] mod_less_divisor [OF k(1), of j] by (simp only: atLeastLessThan_iff) linarith
  then have js: "j \<in> set (sets t ! (j div k))" using lru_ok_set(1) [OF ok i] by simp
  have "distinct (tags_of (blks t') (sets t ! (j div k)))"
  proof (rule distinct_tags_filter)
    show "distinct (tags_of (blks t) (sets t ! (j div k)))" using ok i by (simp add: lru_ok_def)
    show "blks t' ! x = blks t ! x" if "blk_isValid (blks t' ! x)" for x
      using that o inv by (cases "x = j") (auto simp: off_blk_def t'_def)
  qed
  then show "lru_ok b s k (invalidateBlk cpus (Some j) t)"
    using o js by (intro lru_ok_update(1) [OF ok i, of _ "sets t ! (j div k)"]) (auto simp: off_blk_def t'_def)
qed

lemma findBlock_Some:
  assumes ok: "lru_ok b s k t" and f: "findBlock a t = Inr (Some j)"
  shows "j < length (blks t)" "blk_isValid (blks t ! j)" "cb_tag (blks t ! j) = extractTag t a"
  using set_index [OF ok, of a] f findBlk_tags(2) [of "blks t" "extractTag t a" "sets t ! unat (extractSet t a)" j]
    lru_ok_set(4) [OF ok set_index(2) [OF ok, of a], of j]
  by (auto simp: findBlock_def)

lemma findBlock_unique:
  assumes ok: "lru_ok b s k t" and j: "j \<in> set (sets t ! unat (extractSet t a))" "blk_isValid (blks t ! j)"
    "cb_tag (blks t ! j) = extractTag t a"
  shows "findBlock a t = Inr (Some j)"
proof -
  let ?s = "sets t ! unat (extractSet t a)"
  note si = set_index [OF ok, of a]
  have d: "distinct (tags_of (blks t) ?s)" using ok si(2) by (simp add: lru_ok_def)
  have "extractTag t a \<in> set (tags_of (blks t) ?s)" using j by (force simp: tags_of_def)
  then obtain j' where f: "findBlk (blks t) (extractTag t a) ?s = Some j'" using findBlk_tags(1) by fastforce
  then have "j' \<in> set ?s" "cb_tag (blks t ! j') = cb_tag (blks t ! j)" "blk_isValid (blks t ! j')"
    using findBlk_tags(2) j(3) by auto
  then have "j' = j" using d j(1,2) by (auto simp: tags_of_def distinct_map inj_on_def)
  then show ?thesis using f si(1) by (simp add: findBlock_def)
qed

subsection \<open>Properties\<close>

text \<open>
  Tag, set and offset determine the address and the other way round: in every tag store the
  constructor accepts, the block address is regenerated from tag and set, the offset gives
  the rest of the address, and two addresses have the same tag and set exactly when they
  are in the same block.
\<close>

theorem address_split:
  assumes "LRU_new nsets blksz assc lat m = Inr (m', t)"
  shows "regenerateBlkAddr t (extractTag t a) (extractSet t a) = blkAlign t a \<and>
    a = blkAlign t a OR ucast (extractBlkOffset t a) \<and> unat (extractSet t a) < unat nsets \<and>
    (blkAlign t a = blkAlign t a' \<longleftrightarrow> extractTag t a = extractTag t a' \<and> extractSet t a = extractSet t a')"
proof -
  obtain b s where bs: "nsets = 2 ^ s" "lru_packed b s (unat assc) t" using LRU_new_ok [OF assms] by blast
  then have g: "lru_geom b s t" by (simp add: lru_packed_def lru_ok_def)
  then have "unat nsets = 2 ^ s" using bs(1) by (simp add: unat_exp lru_geom_def)
  then show ?thesis
    using regenerate_extract [OF g] split_address [OF g, of a] extractSet_less [OF g, of a] same_block [OF g] by simp
qed

definition sample_heap :: bmem where
  "sample_heap = \<lparr>blocks = Map.empty, brk = 0, junk = \<lambda>_ _. 0\<rparr>"

lemma sample_lru: "\<exists>m' t. LRU_new 4 64 2 1 sample_heap = Inr (m', t)"
  using LRU_new_runs [of 6 2 2 1 sample_heap] by simp

theorem address_split_witness:
  "\<exists>m' t. LRU_new 4 64 2 1 sample_heap = Inr (m', t) \<and>
    regenerateBlkAddr t (extractTag t 0x12345) (extractSet t 0x12345) = blkAlign t 0x12345"
proof -
  obtain m' t where t: "LRU_new 4 64 2 1 sample_heap = Inr (m', t)" using sample_lru by blast
  then show ?thesis using address_split [OF t, of "0x12345" 0] by blast
qed

text \<open>
  C15: The tag store implements least-recently-used replacement: after any sequence of accesses,
  each filling the block on a miss, an address is found exactly when its tag is among the
  \<open>assoc\<close> most recent distinct tags accessed in its set.
\<close>

theorem lru_replacement:
  assumes "LRU_new nsets blksz assc lat m = Inr (m', t)"
  shows "\<exists>t'. run_touch (lru_access cpus now src) as t = Inr t' \<and> (\<exists>r. findBlock a t' = Inr r \<and>
    (r \<noteq> None \<longleftrightarrow> extractTag t a \<in> set (take (unat assc)
      (mru (map (extractTag t) (filter (\<lambda>x. extractSet t x = extractSet t a) as))))))"
proof -
  obtain b s where bs: "lru_packed b s (unat assc) t" "\<And>i. recent_tags t i = []"
    using LRU_new_ok [OF assms] by blast
  then have "lru_packed b s (unat assc) t \<and> same_shape t t" by simp
  from lru_tags.run_recent [OF this bs(2), where cpus = cpus and now = now and src = src and as = as]
  obtain t' where t': "run_touch (lru_access cpus now src) as t = Inr t'" "lru_packed b s (unat assc) t'" "same_shape t t'"
      "recent_tags t' (unat (extractSet t a)) = take (unat assc)
        (mru (map (extractTag t) (filter (\<lambda>x. unat (extractSet t x) = unat (extractSet t a)) as)))"
    by blast
  have ok': "lru_ok b s (unat assc) t'" using t'(2) by (simp add: lru_packed_def)
  show ?thesis
    using findBlock_recent [OF ok', of a] t'(1,4) same_shape_extract [OF t'(3)]
    by (auto simp: word_unat_eq_iff)
qed

theorem lru_replacement_witness:
  "\<exists>m' t t'. LRU_new 4 64 2 1 sample_heap = Inr (m', t) \<and>
    run_touch (lru_access 1 0 0) [0x000, 0x100, 0x000, 0x200] t = Inr t' \<and> (\<exists>r. findBlock 0 t' = Inr r)"
proof -
  obtain m' t where t: "LRU_new 4 64 2 1 sample_heap = Inr (m', t)" using sample_lru by blast
  then show ?thesis using lru_replacement [OF t, of 1 0 0 "[0x000, 0x100, 0x000, 0x200]" 0] by blast
qed

text \<open>
  C14: The invariant of the tag store, sets that are permutations of their blocks and at most one
  valid block per tag and set, is kept by accesses, fills and invalidations; a filled
  address is found in the block it was filled into, and an invalidated block is found by
  no address.
\<close>

theorem tag_store_invariant:
  assumes ok: "lru_ok b s k t"
  shows "(\<exists>r lat t'. accessBlock now a t = Inr (r, lat, t') \<and> findBlock a t = Inr r \<and> lru_ok b s k t') \<and>
    (findBlock a t = Inr None \<longrightarrow>
      (\<exists>j t'. lru_fill cpus now src a t = Inr (j, t') \<and> lru_ok b s k t' \<and> findBlock a t' = Inr (Some j))) \<and>
    (j < length (blks t) \<longrightarrow> lru_ok b s k (invalidateBlk cpus (Some j) t) \<and>
      findBlock a (invalidateBlk cpus (Some j) t) \<noteq> Inr (Some j))"
proof (intro conjI impI)
  let ?hit = "extractTag t a \<in> set (recent_tags t (unat (extractSet t a)))"
  have f: "findBlock a t = Inr None \<longleftrightarrow> \<not> ?hit" using findBlock_recent [OF ok, of a] by auto
  show "\<exists>r lat t'. accessBlock now a t = Inr (r, lat, t') \<and> findBlock a t = Inr r \<and> lru_ok b s k t'"
    using accessBlock_hit [OF ok, of a now] accessBlock_miss [OF ok, of a now] f ok by (cases ?hit) blast+
  show "\<exists>j t'. lru_fill cpus now src a t = Inr (j, t') \<and> lru_ok b s k t' \<and> findBlock a t' = Inr (Some j)"
    if none: "findBlock a t = Inr None"
  proof -
    let ?s = "sets t ! unat (extractSet t a)"
    note si = set_index [OF ok, of a]
    obtain t' where t': "lru_fill cpus now src a t = Inr (last ?s, t')" "lru_ok b s k t'" "same_shape t t'"
        "sets t' = (sets t)[unat (extractSet t a) := last ?s # butlast ?s]"
        "blk_isValid (blks t' ! last ?s)" "recent_tags t' (unat (extractSet t a)) = extractTag t a # tags_of (blks t) (butlast ?s)"
      using lru_fill_spec [OF ok, of a cpus now src] f none by auto
    have len: "length (sets t) = 2 ^ s" using ok by (simp add: lru_ok_def)
    then have "cb_tag (blks t' ! last ?s) = extractTag t a"
      using t'(4-6) si(2) by (simp add: recent_tags_def tags_of_Cons)
    then have "findBlock a t' = Inr (Some (last ?s))"
      using findBlock_unique [OF t'(2), of "last ?s" a] same_shape_extract [OF t'(3)] t'(4,5) si(2) len by simp
    with t' show ?thesis by blast
  qed
  assume j: "j < length (blks t)"
  show "lru_ok b s k (invalidateBlk cpus (Some j) t)" using invalidateBlk_ok(1) [OF ok j] .
  show "findBlock a (invalidateBlk cpus (Some j) t) \<noteq> Inr (Some j)"
    using findBlock_Some(2) [OF invalidateBlk_ok(1) [OF ok j]] invalidateBlk_ok(2) [OF ok j] by blast
qed

theorem tag_store_invariant_witness:
  "\<exists>m' t. LRU_new 4 64 2 1 sample_heap = Inr (m', t) \<and>
    (\<exists>r lat t'. accessBlock 0 0x40 t = Inr (r, lat, t') \<and> findBlock 0x40 t = Inr r \<and> lru_ok 6 2 2 t')"
proof -
  obtain m' t where t: "LRU_new 4 64 2 1 sample_heap = Inr (m', t)" using sample_lru by blast
  obtain b s where bs: "(4 :: 32 word) = 2 ^ s" "(64 :: 32 word) = 2 ^ b" "lru_ok b s 2 t"
    using LRU_new_ok [OF t] by (auto simp: lru_packed_def)
  have "b < 32" "s < 32" using bs(3) by (simp_all add: lru_ok_def lru_geom_def)
  then have "(2 :: nat) ^ b = 2 ^ 6" "(2 :: nat) ^ s = 2 ^ 2"
    using arg_cong [OF bs(1), of unat] arg_cong [OF bs(2), of unat] by (simp_all add: unat_exp)
  then have "b = 6" "s = 2" by (simp_all only: power_inject_exp one_less_numeral_iff semiring_norm)
  then show ?thesis using tag_store_invariant [OF bs(3), of 0 "0x40" 1 0 0] t by blast
qed

end
