(* ===== verification/Mshr.thy ===== *)
theory Mshr
  imports Packet
begin

section \<open>Miss status holding registers\<close>

text \<open>
  Model of \<^verbatim>\<open>src/src/mem/cache/mshr.hh\<close> and \<^verbatim>\<open>src/src/mem/cache/mshr.cc\<close>. A register collects
  the requests (targets) that wait for one block. Packets and registers are objects that
  refer to each other: a target holds a packet, and the sender state of a packet may be a
  register of the cache above, reached by a dynamic cast. The state is therefore a store of
  packets, requests and registers; the sender state of a packet is a register exactly when
  its address is that of one. A copied packet gets the next free address.

  The lemmas show that no request is lost or reordered inside a register, when a snoop is
  answered by it, and that clearing the pending marks along the chain of caches ends and clears
  the marks of exactly the registers on the chain.
\<close>

datatype source = FromCPU | FromSnoop | FromPrefetcher

record target =
  t_recvTime :: tick
  t_readyTime :: tick
  t_order :: "64 word"
  t_pkt :: nat
  t_source :: source
  t_markedPending :: bool

record target_list =
  tl_items :: "target list"
  tl_needsExclusive :: bool
  tl_hasUpgrade :: bool

record mshr =
  m_readyTime :: tick
  m_order :: "64 word"
  m_addr :: addr
  m_size :: "32 word"
  m_inService :: bool
  m_isForward :: bool
  m_isUncacheable :: bool
  m_downstreamPending :: bool
  m_pendingInvalidate :: bool
  m_pendingShared :: bool
  m_threadNum :: int16
  m_ntargets :: "16 word"
  m_data :: "ptr option"
  m_targets :: target_list
  m_deferred :: target_list

record msys =
  ms_now :: tick
  ms_pkts :: "nat \<Rightarrow> packet option"
  ms_reqs :: "nat \<Rightarrow> request option"
  ms_mshrs :: "nat \<Rightarrow> mshr option"
  ms_next :: nat
  ms_raw :: packet
  ms_bufs :: bmem

subsection \<open>Target lists\<close>

definition get_pkt :: "msys \<Rightarrow> nat \<Rightarrow> packet res" where
  "get_pkt w p = (case ms_pkts w p of None \<Rightarrow> Inl BadPtr | Some x \<Rightarrow> Inr x)"

definition get_mshr :: "msys \<Rightarrow> nat \<Rightarrow> mshr res" where
  "get_mshr w m = (case ms_mshrs w m of None \<Rightarrow> Inl BadPtr | Some x \<Rightarrow> Inr x)"

definition upd_pkt :: "nat \<Rightarrow> (packet \<Rightarrow> packet) \<Rightarrow> msys \<Rightarrow> msys" where
  "upd_pkt p f w = w\<lparr>ms_pkts := (ms_pkts w)(p := map_option f (ms_pkts w p))\<rparr>"

definition upd_mshr :: "nat \<Rightarrow> (mshr \<Rightarrow> mshr) \<Rightarrow> msys \<Rightarrow> msys" where
  "upd_mshr m f w = w\<lparr>ms_mshrs := (ms_mshrs w)(m := map_option f (ms_mshrs w m))\<rparr>"

definition sender_mshr :: "msys \<Rightarrow> packet \<Rightarrow> nat option" where
  "sender_mshr w pkt = (case pk_senderState pkt of None \<Rightarrow> None
     | Some s \<Rightarrow> if ms_mshrs w s = None then None else Some s)"

definition TargetList_new :: target_list where
  "TargetList_new = \<lparr>tl_items = [], tl_needsExclusive = False, tl_hasUpgrade = False\<rparr>"

definition resetFlags :: "target_list \<Rightarrow> target_list" where
  "resetFlags l = l\<lparr>tl_needsExclusive := False, tl_hasUpgrade := False\<rparr>"

definition isReset :: "target_list \<Rightarrow> bool" where
  "isReset l \<longleftrightarrow> \<not> tl_needsExclusive l \<and> \<not> tl_hasUpgrade l"

definition mark_upstream :: "packet \<Rightarrow> msys \<Rightarrow> msys res" where
  "mark_upstream pkt w = (case sender_mshr w pkt of None \<Rightarrow> Inr w
     | Some s \<Rightarrow> bindR (get_mshr w s) (\<lambda>x.
         bindR (assertR (\<not> m_downstreamPending x) ''!mshr->downstreamPending'') (\<lambda>_.
         Inr (upd_mshr s (\<lambda>x. x\<lparr>m_downstreamPending := True\<rparr>) w))))"

definition note_flags :: "source \<Rightarrow> packet \<Rightarrow> target_list \<Rightarrow> target_list" where
  "note_flags src pkt l = (if src \<noteq> FromSnoop
     then l\<lparr>tl_needsExclusive := tl_needsExclusive l \<or> needsExclusive (pk_cmd pkt),
            tl_hasUpgrade := tl_hasUpgrade l \<or> pk_cmd pkt = UpgradeReq\<rparr>
     else l)"

definition tl_add :: "nat \<Rightarrow> tick \<Rightarrow> 64 word \<Rightarrow> source \<Rightarrow> bool \<Rightarrow> target_list \<Rightarrow> msys \<Rightarrow>
    (target_list \<times> msys) res" where
  "tl_add p rdy ord src markPending l w = bindR (get_pkt w p) (\<lambda>pkt.
     bindR (if markPending then mark_upstream pkt w else Inr w) (\<lambda>w1.
     let l1 = note_flags src pkt l in
     Inr (l1\<lparr>tl_items := tl_items l1 @ [\<lparr>t_recvTime = ms_now w, t_readyTime = rdy, t_order = ord, t_pkt = p,
            t_source = src, t_markedPending = markPending\<rparr>]\<rparr>, w1)))"

definition upgrade_to_readex :: "packet \<Rightarrow> packet" where
  "upgrade_to_readex pkt = (if pk_cmd pkt = UpgradeReq then pkt\<lparr>pk_cmd := ReadExReq\<rparr> else pkt)"

fun replace_all :: "target list \<Rightarrow> msys \<Rightarrow> msys res" where
  "replace_all [] w = Inr w"
| "replace_all (t # ts) w = bindR (get_pkt w (t_pkt t)) (\<lambda>_.
     replace_all ts (upd_pkt (t_pkt t) upgrade_to_readex w))"

definition replaceUpgrades :: "target_list \<Rightarrow> msys \<Rightarrow> (target_list \<times> msys) res" where
  "replaceUpgrades l w = (if \<not> tl_hasUpgrade l then Inr (l, w)
     else bindR (replace_all (tl_items l) w) (\<lambda>w1. Inr (l\<lparr>tl_hasUpgrade := False\<rparr>, w1)))"

text \<open>
  The two functions \<open>clearDownstreamPending\<close>, of a list and of a register, call each other.
  The list of targets still to be visited is the argument; a register met on the way puts
  its own targets in front of it.
\<close>

partial_function (option) clear_pending :: "target list \<Rightarrow> msys \<Rightarrow> msys comp" where
  "clear_pending ts w = (case ts of [] \<Rightarrow> ret w
     | t # rest \<Rightarrow>
         if \<not> t_markedPending t then clear_pending rest w
         else (case ms_pkts w (t_pkt t) of None \<Rightarrow> fail BadPtr
           | Some pkt \<Rightarrow> (case sender_mshr w pkt of None \<Rightarrow> clear_pending rest w
               | Some s \<Rightarrow> (case ms_mshrs w s of None \<Rightarrow> fail BadPtr
                   | Some x \<Rightarrow> if \<not> m_downstreamPending x then fail (Assert ''downstreamPending'')
                       else clear_pending (tl_items (m_targets x) @ rest)
                              (upd_mshr s (\<lambda>x. x\<lparr>m_downstreamPending := False\<rparr>) w)))))"

definition mshr_clearDownstreamPending :: "nat \<Rightarrow> msys \<Rightarrow> msys comp" where
  "mshr_clearDownstreamPending m w = bindC (liftC (get_mshr w m)) (\<lambda>x.
     if \<not> m_downstreamPending x then fail (Assert ''downstreamPending'')
     else clear_pending (tl_items (m_targets x)) (upd_mshr m (\<lambda>x. x\<lparr>m_downstreamPending := False\<rparr>) w))"

fun tl_checkFunctional :: "printable \<Rightarrow> target list \<Rightarrow> nat \<Rightarrow> msys \<Rightarrow> print_req option \<Rightarrow>
    (bool \<times> msys \<times> print_req option) res" where
  "tl_checkFunctional obj [] p w prs = Inr (False, w, prs)"
| "tl_checkFunctional obj (t # ts) p w prs = bindR (get_pkt w p) (\<lambda>pkt. bindR (get_pkt w (t_pkt t)) (\<lambda>other.
     bindR (checkFunctional_pkt obj other pkt (ms_bufs w) prs) (\<lambda>(done, pkt', bufs, prs').
     let w1 = upd_pkt p (\<lambda>_. pkt') (w\<lparr>ms_bufs := bufs\<rparr>) in
     if done then Inr (True, w1, prs') else tl_checkFunctional obj ts p w1 prs')))"

subsection \<open>Registers\<close>

definition MSHR_new :: "mshr \<Rightarrow> mshr" where
  "MSHR_new raw = raw\<lparr>m_inService := False, m_ntargets := 0, m_threadNum := - 1, m_targets := TargetList_new,
     m_deferred := TargetList_new\<rparr>"

definition req_uncacheable :: "msys \<Rightarrow> packet \<Rightarrow> bool res" where
  "req_uncacheable w pkt = (case pk_req pkt of None \<Rightarrow> Inl BadPtr
     | Some r \<Rightarrow> (case ms_reqs w r of None \<Rightarrow> Inl BadPtr | Some rq \<Rightarrow> Inr (isUncacheable rq)))"

definition mshr_allocate :: "nat \<Rightarrow> addr \<Rightarrow> 32 word \<Rightarrow> nat \<Rightarrow> tick \<Rightarrow> 64 word \<Rightarrow> msys \<Rightarrow> msys res" where
  "mshr_allocate m a sz p whenReady ord w = bindR (get_mshr w m) (\<lambda>x. bindR (get_pkt w p) (\<lambda>pkt.
     bindR (req_uncacheable w pkt) (\<lambda>unc.
     let w1 = upd_mshr m (\<lambda>x. x\<lparr>m_addr := a, m_size := sz, m_readyTime := whenReady, m_order := ord,
                m_isForward := False, m_isUncacheable := unc, m_inService := False,
                m_downstreamPending := False, m_threadNum := 0, m_ntargets := 1\<rparr>) w;
         src = (if pk_cmd pkt = HardPFReq then FromPrefetcher else FromCPU) in
     bindR (assertR (isReset (m_targets x)) ''targets->isReset()'') (\<lambda>_.
     bindR (tl_add p whenReady ord src True (m_targets x) w1) (\<lambda>(l, w2).
     bindR (assertR (isReset (m_deferred x)) ''deferredTargets->isReset()'') (\<lambda>_.
     Inr (upd_mshr m (\<lambda>x. x\<lparr>m_targets := l, m_pendingInvalidate := False, m_pendingShared := False,
            m_data := None\<rparr>) w2)))))))"

definition getNumTargets :: "mshr \<Rightarrow> nat" where
  "getNumTargets x = unat (m_ntargets x)"

definition hasTargets :: "mshr \<Rightarrow> bool" where
  "hasTargets x \<longleftrightarrow> tl_items (m_targets x) \<noteq> []"

definition getTarget :: "mshr \<Rightarrow> target res" where
  "getTarget x = bindR (assertR (hasTargets x) ''hasTargets()'') (\<lambda>_. Inr (hd (tl_items (m_targets x))))"

definition popTarget :: "mshr \<Rightarrow> mshr res" where
  "popTarget x = (case tl_items (m_targets x) of [] \<Rightarrow> Inl BadPtr
     | _ # ts \<Rightarrow> Inr (x\<lparr>m_ntargets := m_ntargets x - 1, m_targets := (m_targets x)\<lparr>tl_items := ts\<rparr>\<rparr>))"

definition isForwardNoResponse :: "msys \<Rightarrow> mshr \<Rightarrow> bool res" where
  "isForwardNoResponse w x = (if getNumTargets x \<noteq> 1 then Inr False
     else bindR (getTarget x) (\<lambda>t. if t_source t \<noteq> FromCPU then Inr False
       else bindR (get_pkt w (t_pkt t)) (\<lambda>pkt. Inr (\<not> needsResponse (pk_cmd pkt)))))"

definition mshr_markInService :: "nat \<Rightarrow> msys \<Rightarrow> (bool \<times> msys) comp" where
  "mshr_markInService m w = bindC (liftC (get_mshr w m)) (\<lambda>x.
     if m_inService x then fail (Assert ''!inService'')
     else bindC (liftC (isForwardNoResponse w x)) (\<lambda>fwd.
       if fwd then bindC (liftC (popTarget x)) (\<lambda>x'. ret (True, upd_mshr m (\<lambda>_. x') w))
       else let w1 = upd_mshr m (\<lambda>x. x\<lparr>m_inService := True\<rparr>) w in
         if m_downstreamPending x then ret (False, w1)
         else bindC (clear_pending (tl_items (m_targets x)) w1) (\<lambda>w2. ret (False, w2))))"

definition mshr_deallocate :: "nat \<Rightarrow> msys \<Rightarrow> msys res" where
  "mshr_deallocate m w = bindR (get_mshr w m) (\<lambda>x.
     bindR (assertR (tl_items (m_targets x) = []) ''targets->empty()'') (\<lambda>_.
     bindR (assertR (isReset (m_deferred x)) ''deferredTargets->isReset()'') (\<lambda>_.
     bindR (assertR (m_ntargets x = 0) ''ntargets == 0'') (\<lambda>_.
     Inr (upd_mshr m (\<lambda>x. x\<lparr>m_targets := resetFlags (m_targets x), m_inService := False\<rparr>) w)))))"

definition mshr_allocateTarget :: "nat \<Rightarrow> nat \<Rightarrow> tick \<Rightarrow> 64 word \<Rightarrow> msys \<Rightarrow> msys res" where
  "mshr_allocateTarget m p whenReady ord w = bindR (get_mshr w m) (\<lambda>x. bindR (get_pkt w p) (\<lambda>pkt.
     bindR (assertR (pk_cmd pkt \<noteq> HardPFReq) ''pkt->cmd != HardPFReq'') (\<lambda>_.
     if m_inService x \<and> (tl_items (m_deferred x) \<noteq> [] \<or> m_pendingInvalidate x \<or>
          (\<not> tl_needsExclusive (m_targets x) \<and> needsExclusive (pk_cmd pkt)))
     then bindR (tl_add p whenReady ord FromCPU True (m_deferred x) w) (\<lambda>(l, w1).
          Inr (upd_mshr m (\<lambda>x. x\<lparr>m_deferred := l, m_ntargets := m_ntargets x + 1\<rparr>) w1))
     else bindR (tl_add p whenReady ord FromCPU (\<not> m_inService x) (m_targets x) w) (\<lambda>(l, w1).
          Inr (upd_mshr m (\<lambda>x. x\<lparr>m_targets := l, m_ntargets := m_ntargets x + 1\<rparr>) w1)))))"

definition new_copy :: "packet \<Rightarrow> msys \<Rightarrow> nat \<times> msys" where
  "new_copy pkt w = (ms_next w, w\<lparr>ms_pkts := (ms_pkts w)(ms_next w \<mapsto> Packet_copy (ms_raw w) (ms_now w) pkt True),
     ms_next := Suc (ms_next w)\<rparr>)"

definition snoop_record :: "nat \<Rightarrow> nat \<Rightarrow> 64 word \<Rightarrow> mshr \<Rightarrow> msys \<Rightarrow> msys res" where
  "snoop_record m p ord x w = bindR (get_pkt w p) (\<lambda>pkt.
     (let excl = tl_needsExclusive (m_targets x); (cp, w1) = new_copy pkt w in
      bindR (tl_add cp (ms_now w) ord FromSnoop (m_downstreamPending x \<and> excl) (m_targets x) w1) (\<lambda>(l, w2).
      let w3 = (if excl then upd_pkt p (\<lambda>q. setSupplyExclusive (assertMemInhibit q)) w2
                else upd_pkt cp (\<lambda>q. q\<lparr>pk_req := None\<rparr>) w2) in
      Inr (upd_mshr m (\<lambda>x. x\<lparr>m_targets := l, m_ntargets := m_ntargets x + 1,
             m_pendingInvalidate := m_pendingInvalidate x \<or> needsExclusive (pk_cmd pkt)\<rparr>) w3))))"

definition mshr_handleSnoop :: "nat \<Rightarrow> nat \<Rightarrow> 64 word \<Rightarrow> msys \<Rightarrow> (bool \<times> msys) res" where
  "mshr_handleSnoop m p ord w = bindR (get_mshr w m) (\<lambda>x. bindR (get_pkt w p) (\<lambda>pkt.
     let excl = needsExclusive (pk_cmd pkt) in
     if \<not> m_inService x \<or> (isExpressSnoop pkt \<and> m_downstreamPending x)
     then if excl
          then bindR (replaceUpgrades (m_targets x) w) (\<lambda>(l, w1). bindR (replaceUpgrades (m_deferred x) w1) (\<lambda>(d, w2).
               Inr (False, upd_mshr m (\<lambda>x. x\<lparr>m_targets := l, m_deferred := d\<rparr>) w2)))
          else Inr (False, w)
     else
       bindR (if excl then bindR (replaceUpgrades (m_deferred x) w) (\<lambda>(d, w1).
                Inr (upd_mshr m (\<lambda>x. x\<lparr>m_deferred := d\<rparr>) w1))
              else Inr w) (\<lambda>w1.
       if m_pendingInvalidate x then Inr (True, w1)
       else if tl_needsExclusive (m_targets x) \<or> excl
       then bindR (snoop_record m p ord x w1) (\<lambda>w2. Inr (True, w2))
       else Inr (True, upd_pkt p assertShared (upd_mshr m (\<lambda>x. x\<lparr>m_pendingShared := True\<rparr>) w1)))))"

definition mshr_promoteDeferredTargets :: "nat \<Rightarrow> msys \<Rightarrow> (bool \<times> msys) res" where
  "mshr_promoteDeferredTargets m w = bindR (get_mshr w m) (\<lambda>x.
     bindR (assertR (tl_items (m_targets x) = []) ''targets->empty()'') (\<lambda>_.
     case tl_items (m_deferred x) of [] \<Rightarrow> Inr (False, w)
     | t # ts \<Rightarrow>
         bindR (assertR (length (t # ts) = unat (m_ntargets x)) ''targets->size() == ntargets'') (\<lambda>_.
         Inr (True, upd_mshr m (\<lambda>x. x\<lparr>m_targets := m_deferred x, m_deferred := resetFlags (m_targets x),
            m_pendingInvalidate := False, m_pendingShared := False, m_order := t_order t,
            m_readyTime := (if ms_now w <s t_readyTime t then t_readyTime t else ms_now w)\<rparr>) w))))"

definition mshr_handleFill :: "nat \<Rightarrow> nat \<Rightarrow> msys \<Rightarrow> msys comp" where
  "mshr_handleFill m p w = bindC (liftC (get_mshr w m)) (\<lambda>x.
     let w1 = (if m_pendingShared x then upd_pkt p assertShared w else w) in
     bindC (liftC (get_pkt w1 p)) (\<lambda>pkt.
     if \<not> sharedAsserted pkt \<and> \<not> m_pendingInvalidate x \<and> tl_needsExclusive (m_deferred x)
     then if tl_needsExclusive (m_targets x) then fail (Assert ''!targets->needsExclusive'')
       else if m_downstreamPending x then fail (Assert ''!downstreamPending'')
       else bindC (clear_pending (tl_items (m_deferred x)) w1) (\<lambda>w2.
         ret (upd_mshr m (\<lambda>x. x\<lparr>m_targets := (m_targets x)\<lparr>tl_needsExclusive := True,
                 tl_items := tl_items (m_targets x) @ tl_items (m_deferred x)\<rparr>,
               m_deferred := TargetList_new\<rparr>) w2))
     else ret w1))"

definition mshr_checkFunctional :: "printable \<Rightarrow> nat \<Rightarrow> nat \<Rightarrow> msys \<Rightarrow> print_req option \<Rightarrow>
    (bool \<times> msys \<times> print_req option) res" where
  "mshr_checkFunctional obj m p w prs = bindR (get_mshr w m) (\<lambda>x. bindR (get_pkt w p) (\<lambda>pkt.
     if isPrint (pk_cmd pkt)
     then bindR (checkFunctional obj (m_addr x) (m_size x) None pkt (ms_bufs w) prs) (\<lambda>(_, pkt', bufs, prs').
          Inr (False, upd_pkt p (\<lambda>_. pkt') (w\<lparr>ms_bufs := bufs\<rparr>), prs'))
     else bindR (tl_checkFunctional obj (tl_items (m_targets x)) p w prs) (\<lambda>(done, w1, prs1).
          if done then Inr (True, w1, prs1)
          else tl_checkFunctional obj (tl_items (m_deferred x)) p w1 prs1)))"

subsection \<open>Stores\<close>

lemma upd_simps [simp]:
  "ms_mshrs (upd_pkt p f w) = ms_mshrs w" "ms_pkts (upd_mshr m g w) = ms_pkts w"
  "ms_mshrs (upd_mshr m g w) = (ms_mshrs w)(m := map_option g (ms_mshrs w m))"
  "ms_pkts (upd_pkt p f w) = (ms_pkts w)(p := map_option f (ms_pkts w p))"
  "ms_now (upd_pkt p f w) = ms_now w" "ms_now (upd_mshr m g w) = ms_now w"
  "ms_next (upd_pkt p f w) = ms_next w" "ms_next (upd_mshr m g w) = ms_next w"
  "ms_reqs (upd_pkt p f w) = ms_reqs w" "ms_reqs (upd_mshr m g w) = ms_reqs w"
  "ms_raw (upd_mshr m g w) = ms_raw w" "ms_bufs (upd_mshr m g w) = ms_bufs w"
  by (simp_all add: upd_pkt_def upd_mshr_def)

lemma get_simps [simp]:
  "ms_mshrs w m = Some x \<Longrightarrow> get_mshr w m = Inr x" "ms_pkts w p = Some pkt \<Longrightarrow> get_pkt w p = Inr pkt"
  by (simp_all add: get_mshr_def get_pkt_def)

lemma get_Inr [simp]:
  "get_mshr w m = Inr x \<longleftrightarrow> ms_mshrs w m = Some x" "get_pkt w p = Inr pkt \<longleftrightarrow> ms_pkts w p = Some pkt"
  by (auto simp: get_mshr_def get_pkt_def split: option.splits)

text \<open>Marking and clearing change the field \<open>downstreamPending\<close> of registers and nothing else.\<close>

definition pending_only :: "msys \<Rightarrow> msys \<Rightarrow> bool" where
  "pending_only w w' \<longleftrightarrow> ms_pkts w' = ms_pkts w \<and> ms_now w' = ms_now w \<and> ms_reqs w' = ms_reqs w \<and> ms_next w' = ms_next w \<and>
     ms_raw w' = ms_raw w \<and> ms_bufs w' = ms_bufs w \<and> (\<forall>m. map_option (\<lambda>x. x\<lparr>m_downstreamPending := False\<rparr>) (ms_mshrs w' m) =
          map_option (\<lambda>x. x\<lparr>m_downstreamPending := False\<rparr>) (ms_mshrs w m))"

lemma pending_only_refl [simp]: "pending_only w w"
  by (simp add: pending_only_def)

lemma pending_only_trans: "pending_only w w' \<Longrightarrow> pending_only w' w'' \<Longrightarrow> pending_only w w''"
  by (simp add: pending_only_def)

lemma pending_only_upd [simp]: "pending_only w (upd_mshr m (\<lambda>x. x\<lparr>m_downstreamPending := b\<rparr>) w)"
  by (auto simp: pending_only_def option.map_comp comp_def)

lemma pending_only_mshr:
  assumes "pending_only w w'" "ms_mshrs w m = Some x"
  shows "\<exists>b. ms_mshrs w' m = Some (x\<lparr>m_downstreamPending := b\<rparr>)"
proof -
  have "map_option (\<lambda>x. x\<lparr>m_downstreamPending := False\<rparr>) (ms_mshrs w' m) = Some (x\<lparr>m_downstreamPending := False\<rparr>)"
    using assms by (simp add: pending_only_def)
  then obtain y where y: "ms_mshrs w' m = Some y" "y\<lparr>m_downstreamPending := False\<rparr> = x\<lparr>m_downstreamPending := False\<rparr>"
    by auto
  then have "y = x\<lparr>m_downstreamPending := m_downstreamPending y\<rparr>" by (cases y; cases x) simp
  with y(1) show ?thesis by metis
qed

lemma mark_upstream_pending: "mark_upstream pkt w = Inr w' \<Longrightarrow> pending_only w w'"
  by (auto simp: mark_upstream_def split: option.splits)

lemma tl_add_spec:
  assumes "tl_add p rdy ord src mk l w = Inr (l', w')"
  shows "\<exists>pkt. ms_pkts w p = Some pkt \<and> pending_only w w' \<and>
    l' = (note_flags src pkt l)\<lparr>tl_items := tl_items l @ [\<lparr>t_recvTime = ms_now w, t_readyTime = rdy, t_order = ord, t_pkt = p,
            t_source = src, t_markedPending = mk\<rparr>]\<rparr>"
  using assms by (auto simp: tl_add_def Let_def note_flags_def split: if_splits dest: mark_upstream_pending)

subsection \<open>Clearing pending marks ends\<close>

definition pending_set :: "msys \<Rightarrow> nat set" where
  "pending_set w = {m. \<exists>x. ms_mshrs w m = Some x \<and> m_downstreamPending x}"

lemma clear_pending_total:
  assumes "finite (pending_set w)"
  shows "clear_pending ts w \<noteq> None"
  using assms
proof (induction "(w, ts)" arbitrary: w ts rule: wf_induct_rule [OF wf_measures
      [of "[\<lambda>(w, ts). card (pending_set w), \<lambda>(w, ts). length ts]"]])
  case (1 w ts)
  have rec: "clear_pending rest w' \<noteq> None"
    if "finite (pending_set w')" "card (pending_set w') < card (pending_set w) \<or>
      card (pending_set w') = card (pending_set w) \<and> length rest < length ts" for rest w'
    using that by (intro "1.hyps") auto
  show ?case
  proof (cases ts)
    case (Cons t rest)
    have same: "clear_pending rest w \<noteq> None" using Cons "1.prems" by (intro rec) simp_all
    have "clear_pending (tl_items (m_targets x) @ rest) (upd_mshr s (\<lambda>x. x\<lparr>m_downstreamPending := False\<rparr>) w) \<noteq> None"
      if s: "ms_mshrs w s = Some x" "m_downstreamPending x" for s x
    proof -
      have "pending_set (upd_mshr s (\<lambda>x. x\<lparr>m_downstreamPending := False\<rparr>) w) = pending_set w - {s}"
        by (auto simp: pending_set_def split: if_splits)
      moreover have "card (pending_set w - {s}) < card (pending_set w)"
        using s "1.prems" by (intro card_Diff1_less) (auto simp: pending_set_def)
      ultimately show ?thesis using "1.prems" by (intro rec) simp_all
    qed
    with same Cons show ?thesis
      by (subst clear_pending.simps) (auto simp: fail_def split: option.splits)
  qed (subst clear_pending.simps, simp add: ret_def)
qed

lemma clear_pending_only:
  assumes "clear_pending ts w = ret w'"
  shows "pending_only w w'"
proof -
  have "\<forall>w'. y = Inr w' \<longrightarrow> pending_only w w'" if "clear_pending ts w = Some y" for y
  proof (rule clear_pending.raw_induct [where P = "\<lambda>ts w y. \<forall>w'. y = Inr w' \<longrightarrow> pending_only w w'", OF _ that])
    fix loop :: "target list \<Rightarrow> msys \<Rightarrow> msys comp" and ts w y
    assume IH: "\<And>ts w y. loop ts w = Some y \<Longrightarrow> \<forall>w'. y = Inr w' \<longrightarrow> pending_only w w'"
    have IH': "pending_only w (w' :: msys)" if "loop ts (upd_mshr s (\<lambda>x. x\<lparr>m_downstreamPending := False\<rparr>) w) = Some (Inr w')" for ts s w w'
      using IH [OF that] pending_only_trans [OF pending_only_upd] by blast
    assume "(case ts of [] \<Rightarrow> ret w
     | t # rest \<Rightarrow>
         if \<not> t_markedPending t then loop rest w
         else (case ms_pkts w (t_pkt t) of None \<Rightarrow> fail BadPtr
           | Some pkt \<Rightarrow> (case sender_mshr w pkt of None \<Rightarrow> loop rest w
               | Some s \<Rightarrow> (case ms_mshrs w s of None \<Rightarrow> fail BadPtr
                   | Some x \<Rightarrow> if \<not> m_downstreamPending x then fail (Assert ''downstreamPending'')
                       else loop (tl_items (m_targets x) @ rest)
                              (upd_mshr s (\<lambda>x. x\<lparr>m_downstreamPending := False\<rparr>) w))))) = Some y"
    then show "\<forall>w'. y = Inr w' \<longrightarrow> pending_only w w'"
      using IH IH' by (auto simp: ret_def fail_def split: list.splits if_splits option.splits)
  qed
  then show ?thesis using assms by (simp add: ret_def)
qed

subsection \<open>The registers that are cleared\<close>

text \<open>The registers of the caches above that the targets of a list lead to, in the order in which they are met.\<close>

definition up_of :: "msys \<Rightarrow> target \<Rightarrow> nat option res" where
  "up_of w t = (if \<not> t_markedPending t then Inr None
     else (case ms_pkts w (t_pkt t) of None \<Rightarrow> Inl BadPtr | Some pkt \<Rightarrow> Inr (sender_mshr w pkt)))"

definition upstream :: "msys \<Rightarrow> nat \<Rightarrow> nat \<Rightarrow> bool" where
  "upstream w m s \<longleftrightarrow> (\<exists>x t. ms_mshrs w m = Some x \<and> t \<in> set (tl_items (m_targets x)) \<and> up_of w t = Inr (Some s))"

inductive visits :: "msys \<Rightarrow> target list \<Rightarrow> nat list \<Rightarrow> bool" for w where
  visits_Nil: "visits w [] []"
| visits_skip: "up_of w t = Inr None \<Longrightarrow> visits w ts ds \<Longrightarrow> visits w (t # ts) ds"
| visits_step: "up_of w t = Inr (Some s) \<Longrightarrow> ms_mshrs w s = Some x \<Longrightarrow> visits w (tl_items (m_targets x)) as \<Longrightarrow>
    visits w ts bs \<Longrightarrow> visits w (t # ts) (s # as @ bs)"

definition unmark :: "nat list \<Rightarrow> msys \<Rightarrow> msys" where
  "unmark = fold (\<lambda>m. upd_mshr m (\<lambda>x. x\<lparr>m_downstreamPending := False\<rparr>))"

inductive_cases visits_ConsE: "visits w (t # ts) ds"

lemma clear_pending_Cons:
  "clear_pending (t # rest) w = (case up_of w t of Inl e \<Rightarrow> fail e | Inr None \<Rightarrow> clear_pending rest w
     | Inr (Some s) \<Rightarrow> (case ms_mshrs w s of None \<Rightarrow> fail BadPtr
        | Some x \<Rightarrow> if \<not> m_downstreamPending x then fail (Assert ''downstreamPending'')
            else clear_pending (tl_items (m_targets x) @ rest) (unmark [s] w)))"
  by (subst clear_pending.simps) (auto simp: up_of_def unmark_def split: option.splits)

lemma clear_pending_Nil: "clear_pending [] w = ret w"
  by (subst clear_pending.simps) simp

lemma unmark_Cons: "unmark (s # ds) w = unmark ds (unmark [s] w)" "unmark [] w = w" "unmark (as @ bs) w = unmark bs (unmark as w)"
  by (simp_all add: unmark_def)

lemma unmark_pending: "pending_set (unmark ds w) = pending_set w - set ds"
proof (induction ds arbitrary: w)
  case (Cons s ds)
  have "pending_set (unmark [s] w) = pending_set w - {s}" by (auto simp: unmark_def pending_set_def split: if_splits)
  then show ?case unfolding unmark_Cons(1) [of s ds] Cons.IH by auto
qed (simp add: unmark_Cons)

lemma unmark_only: "pending_only w (unmark ds w)"
proof (induction ds arbitrary: w)
  case (Cons s ds)
  then show ?case using pending_only_trans [OF pending_only_upd, of s False w] by (simp add: unmark_def)
qed (simp add: unmark_Cons)

lemma pending_only_up: "pending_only w w' \<Longrightarrow> up_of w' t = up_of w t"
proof -
  assume p: "pending_only w w'"
  have "ms_mshrs w' s = None \<longleftrightarrow> ms_mshrs w s = None" for s
    using p unfolding pending_only_def by (metis option.map_disc_iff)
  moreover have "ms_pkts w' = ms_pkts w" using p by (simp add: pending_only_def)
  ultimately show ?thesis by (auto simp: up_of_def sender_mshr_def split: option.splits)
qed

lemma pending_only_targets:
  assumes "pending_only w w'" "ms_mshrs w' s = Some x'"
  shows "\<exists>x. ms_mshrs w s = Some x \<and> m_targets x = m_targets x'"
proof -
  obtain x where x: "ms_mshrs w s = Some x" using assms unfolding pending_only_def by (metis option.map_disc_iff not_None_eq)
  then obtain b where "x' = x\<lparr>m_downstreamPending := b\<rparr>" using pending_only_mshr [OF assms(1) x] assms(2) by auto
  with x show ?thesis by simp
qed

lemma visits_only: "visits w' ts ds \<Longrightarrow> pending_only w w' \<Longrightarrow> visits w ts ds"
proof (induction rule: visits.induct)
  case (visits_step t s x' as ts bs)
  obtain x where "ms_mshrs w s = Some x" "m_targets x = m_targets x'" using pending_only_targets [OF visits_step.prems visits_step.hyps(2)] by blast
  with visits_step show ?case using pending_only_up [OF visits_step.prems] visits.visits_step [of w t s x as ts bs] by simp
qed (use pending_only_up in \<open>auto intro: visits.intros\<close>)

lemma visits_append: "visits w (ts @ us) ds \<Longrightarrow> \<exists>as bs. ds = as @ bs \<and> visits w ts as \<and> visits w us bs"
proof (induction ts arbitrary: ds)
  case (Cons t ts)
  from Cons.prems have "visits w (t # (ts @ us)) ds" by simp
  then show ?case
  proof (rule visits_ConsE)
    assume "up_of w t = Inr None" "visits w (ts @ us) ds"
    then show ?thesis using Cons.IH visits_skip by blast
  next
    fix s x as bs
    assume v: "ds = s # as @ bs" "up_of w t = Inr (Some s)" "ms_mshrs w s = Some x" "visits w (tl_items (m_targets x)) as" "visits w (ts @ us) bs"
    obtain b1 b2 where "bs = b1 @ b2" "visits w ts b1" "visits w us b2" using Cons.IH [OF v(5)] by blast
    moreover from this(2) have "visits w (t # ts) (s # as @ b1)" by (rule visits_step [OF v(2-4)])
    moreover have "ds = (s # as @ b1) @ b2" using v(1) calculation(1) by simp
    ultimately show ?thesis by blast
  qed
qed (auto intro: visits_Nil)

text \<open>A traversal that meets only marked registers, none of them twice, runs to its end.\<close>

lemma visits_run:
  assumes "visits w0 ts ds"
  shows "pending_only w0 w \<Longrightarrow> distinct ds \<Longrightarrow> set ds \<subseteq> pending_set w \<Longrightarrow> clear_pending (ts @ rest) w = clear_pending rest (unmark ds w)"
  using assms
proof (induction arbitrary: w rest rule: visits.induct)
  case (visits_skip t ts ds)
  then show ?case using pending_only_up [OF visits_skip.prems(1)] by (simp add: clear_pending_Cons)
next
  case (visits_step t s x as ts bs)
  obtain b where x': "ms_mshrs w s = Some (x\<lparr>m_downstreamPending := b\<rparr>)"
    using pending_only_mshr [OF visits_step.prems(1) visits_step.hyps(2)] by blast
  have b: "b" using visits_step.prems(3) x' by (auto simp: pending_set_def)
  have w1: "pending_only w0 (unmark [s] w)" using visits_step.prems(1) unmark_only pending_only_trans by blast
  have w2: "pending_only w0 (unmark as (unmark [s] w))" using w1 unmark_only pending_only_trans by blast
  have "clear_pending (tl_items (m_targets x) @ (ts @ rest)) (unmark [s] w) = clear_pending (ts @ rest) (unmark as (unmark [s] w))"
    using visits_step.prems(2,3) by (intro visits_step.IH(1) [OF w1]) (auto simp: unmark_pending)
  also have "\<dots> = clear_pending rest (unmark bs (unmark as (unmark [s] w)))"
    using visits_step.prems(2,3) by (intro visits_step.IH(2) [OF w2]) (auto simp: unmark_pending)
  finally show ?case
    using x' b pending_only_up [OF visits_step.prems(1)] visits_step.hyps(1) unmark_Cons(1) [of s "as @ bs"] unmark_Cons(3)
    by (simp add: clear_pending_Cons)
qed (simp add: unmark_Cons)

text \<open>Conversely, a run that ends well is such a traversal.\<close>

lemma run_visits:
  assumes "clear_pending ts w = ret w'"
  shows "\<exists>ds. visits w ts ds \<and> distinct ds \<and> set ds \<subseteq> pending_set w \<and> w' = unmark ds w"
proof -
  let ?P = "\<lambda>ts w w'. \<exists>ds. visits w ts ds \<and> distinct ds \<and> set ds \<subseteq> pending_set w \<and> w' = unmark ds w"
  have "\<forall>w'. y = Inr w' \<longrightarrow> ?P ts w w'" if "clear_pending ts w = Some y" for y
  proof (rule clear_pending.raw_induct [where P = "\<lambda>ts w y. \<forall>w'. y = Inr w' \<longrightarrow> ?P ts w w'", OF _ that])
    fix loop :: "target list \<Rightarrow> msys \<Rightarrow> msys comp" and ts w y
    assume IH: "\<And>ts w y. loop ts w = Some y \<Longrightarrow> \<forall>w'. y = Inr w' \<longrightarrow> ?P ts w w'"
    assume run: "(case ts of [] \<Rightarrow> ret w
     | t # rest \<Rightarrow>
         if \<not> t_markedPending t then loop rest w
         else (case ms_pkts w (t_pkt t) of None \<Rightarrow> fail BadPtr
           | Some pkt \<Rightarrow> (case sender_mshr w pkt of None \<Rightarrow> loop rest w
               | Some s \<Rightarrow> (case ms_mshrs w s of None \<Rightarrow> fail BadPtr
                   | Some x \<Rightarrow> if \<not> m_downstreamPending x then fail (Assert ''downstreamPending'')
                       else loop (tl_items (m_targets x) @ rest)
                              (upd_mshr s (\<lambda>x. x\<lparr>m_downstreamPending := False\<rparr>) w))))) = Some y"
    show "\<forall>w'. y = Inr w' \<longrightarrow> ?P ts w w'"
    proof (intro allI impI)
      fix w' assume y: "y = Inr w'"
      consider (nil) "ts = []" "w' = w" | (skip) t rest where "ts = t # rest" "up_of w t = Inr None" "loop rest w = Some (Inr w')"
        | (step) t rest s x where "ts = t # rest" "up_of w t = Inr (Some s)" "ms_mshrs w s = Some x" "m_downstreamPending x"
            "loop (tl_items (m_targets x) @ rest) (unmark [s] w) = Some (Inr w')"
        using run y by (auto simp: up_of_def unmark_def ret_def fail_def split: list.splits if_splits option.splits)
      then show "?P ts w w'"
      proof cases
        case nil
        then show ?thesis using visits_Nil [of w] by (intro exI [of _ "[]"]) (simp add: unmark_Cons)
      next
        case skip
        then show ?thesis using IH [OF skip(3)] visits_skip by blast
      next
        case step
        obtain ds where ds: "visits (unmark [s] w) (tl_items (m_targets x) @ rest) ds" "distinct ds" "set ds \<subseteq> pending_set (unmark [s] w)"
            "w' = unmark ds (unmark [s] w)" using IH [OF step(5)] by blast
        obtain as bs where ab: "ds = as @ bs" "visits w (tl_items (m_targets x)) as" "visits w rest bs"
          using visits_append [OF visits_only [OF ds(1) unmark_only]] by blast
        have "s \<in> pending_set w" using step(3,4) by (simp add: pending_set_def)
        moreover have "w' = unmark (s # ds) w" using ds(4) by (simp add: unmark_Cons(1) [of s ds])
        ultimately show ?thesis
          using visits_step [OF step(2,3) ab(2,3)] ds(2,3) step(1) ab(1) by (intro exI [of _ "s # ds"]) (auto simp: unmark_pending)
      qed
    qed
  qed
  then show ?thesis using assms by (simp add: ret_def)
qed

lemma reach_step:
  assumes "ms_mshrs w m = Some x"
    and ds: "set ds = {s. \<exists>t r. t \<in> set (tl_items (m_targets x)) \<and> up_of w t = Inr (Some r) \<and> (upstream w)\<^sup>*\<^sup>* r s}"
  shows "set (m # ds) = {s. (upstream w)\<^sup>*\<^sup>* m s}"
proof -
  have up: "upstream w m r \<longleftrightarrow> (\<exists>t \<in> set (tl_items (m_targets x)). up_of w t = Inr (Some r))" for r using assms(1) by (auto simp: upstream_def)
  have "(upstream w)\<^sup>*\<^sup>* m s \<longleftrightarrow> s = m \<or> (\<exists>r. upstream w m r \<and> (upstream w)\<^sup>*\<^sup>* r s)" for s
    by (metis converse_rtranclp_into_rtranclp converse_rtranclpE rtranclp.rtrancl_refl)
  then have "{s. (upstream w)\<^sup>*\<^sup>* m s} = insert m {s. \<exists>r. upstream w m r \<and> (upstream w)\<^sup>*\<^sup>* r s}" by blast
  moreover have "set ds = {s. \<exists>r. upstream w m r \<and> (upstream w)\<^sup>*\<^sup>* r s}" unfolding ds up by blast
  ultimately show ?thesis by simp
qed

lemma visits_reach:
  assumes "visits w ts ds"
  shows "set ds = {s. \<exists>t r. t \<in> set ts \<and> up_of w t = Inr (Some r) \<and> (upstream w)\<^sup>*\<^sup>* r s}"
  using assms
proof (induction rule: visits.induct)
  case (visits_step t s x as ts bs)
  then have "set (s # as) = {r. (upstream w)\<^sup>*\<^sup>* s r}" by (intro reach_step) auto
  then have "set (s # as @ bs) = {r. (upstream w)\<^sup>*\<^sup>* s r} \<union> set bs" by auto
  then show ?case using visits_step.hyps(1) visits_step.IH(2) by auto
qed auto

lemma register_reach: "ms_mshrs w m = Some x \<Longrightarrow> visits w (tl_items (m_targets x)) ds \<Longrightarrow> set (m # ds) = {s. (upstream w)\<^sup>*\<^sup>* m s}"
  using reach_step [OF _ visits_reach] .

subsection \<open>Targets of a register\<close>

definition targets_of :: "mshr \<Rightarrow> target list" where
  "targets_of x = tl_items (m_targets x) @ tl_items (m_deferred x)"

definition mshr_wf :: "mshr \<Rightarrow> bool" where
  "mshr_wf x \<longleftrightarrow> unat (m_ntargets x) = length (targets_of x) \<and> (tl_items (m_deferred x) \<noteq> [] \<longrightarrow> m_inService x)"

lemma pending_targets [simp]:
  "targets_of (x\<lparr>m_downstreamPending := b\<rparr>) = targets_of x" "mshr_wf (x\<lparr>m_downstreamPending := b\<rparr>) = mshr_wf x"
  by (simp_all add: targets_of_def mshr_wf_def)

lemma items_note_flags [simp]: "tl_items (note_flags src pkt l) = tl_items l"
  by (simp add: note_flags_def)

lemma unat_Suc16: "unat (n :: 16 word) < 65535 \<Longrightarrow> unat (n + 1) = unat n + 1"
  by (subst unat_add_lem [THEN iffD1]) simp_all

lemma allocateTarget_appends:
  assumes run: "mshr_allocateTarget m p whenReady ord w = Inr w'" and x: "ms_mshrs w m = Some x" "mshr_wf x"
    and room: "getNumTargets x < 65535"
  shows "\<exists>x' t. ms_mshrs w' m = Some x' \<and> targets_of x' = targets_of x @ [t] \<and> t_pkt t = p \<and> t_order t = ord \<and>
    t_source t = FromCPU \<and> mshr_wf x'"
proof -
  obtain pkt where pkt: "ms_pkts w p = Some pkt" "pk_cmd pkt \<noteq> HardPFReq"
    using run x by (auto simp: mshr_allocateTarget_def)
  have n: "unat (m_ntargets x + 1) = unat (m_ntargets x) + 1" using room by (simp add: getNumTargets_def unat_Suc16)
  let ?d = "m_inService x \<and> (tl_items (m_deferred x) \<noteq> [] \<or> m_pendingInvalidate x \<or>
          (\<not> tl_needsExclusive (m_targets x) \<and> needsExclusive (pk_cmd pkt)))"
  let ?src = "if ?d then m_deferred x else m_targets x"
  obtain l w1 where add: "tl_add p whenReady ord FromCPU (?d \<or> \<not> m_inService x) ?src w = Inr (l, w1)"
      and w': "w' = upd_mshr m (\<lambda>x. if ?d then x\<lparr>m_deferred := l, m_ntargets := m_ntargets x + 1\<rparr>
        else x\<lparr>m_targets := l, m_ntargets := m_ntargets x + 1\<rparr>) w1"
    using run x pkt by (cases ?d) (auto simp: mshr_allocateTarget_def)
  obtain t where t: "tl_items l = tl_items ?src @ [t]" "t_pkt t = p" "t_order t = ord" "t_source t = FromCPU"
    using tl_add_spec [OF add] by (auto simp: note_flags_def)
  obtain b where "ms_mshrs w1 m = Some (x\<lparr>m_downstreamPending := b\<rparr>)"
    using pending_only_mshr [of w w1 m x] tl_add_spec [OF add] x by blast
  then show ?thesis using t n x(2) by (cases ?d) (auto simp: w' targets_of_def mshr_wf_def)
qed

lemma popTarget_drops:
  assumes "popTarget x = Inr x'" "mshr_wf x"
  shows "targets_of x = hd (tl_items (m_targets x)) # targets_of x'" "mshr_wf x'"
proof -
  obtain t ts where t: "tl_items (m_targets x) = t # ts"
      "x' = x\<lparr>m_ntargets := m_ntargets x - 1, m_targets := (m_targets x)\<lparr>tl_items := ts\<rparr>\<rparr>"
    using assms(1) by (auto simp: popTarget_def split: list.splits)
  have "m_ntargets x \<noteq> 0" using assms(2) t(1) by (auto simp: mshr_wf_def targets_of_def)
  then have "unat (m_ntargets x - 1) = unat (m_ntargets x) - 1" by (rule unat_minus_one)
  then show "targets_of x = hd (tl_items (m_targets x)) # targets_of x'" "mshr_wf x'"
    using t assms(2) by (auto simp: targets_of_def mshr_wf_def)
qed

lemma promote_keeps:
  assumes "mshr_promoteDeferredTargets m w = Inr (r, w')" "ms_mshrs w m = Some x" "mshr_wf x"
  shows "\<exists>x'. ms_mshrs w' m = Some x' \<and> targets_of x' = targets_of x \<and> mshr_wf x' \<and> tl_items (m_deferred x') = [] \<and>
    (r \<longleftrightarrow> targets_of x \<noteq> []) \<and> (r \<longrightarrow> m_order x' = t_order (hd (targets_of x)))"
  using assms
  by (auto simp: mshr_promoteDeferredTargets_def targets_of_def mshr_wf_def resetFlags_def split: list.splits)

lemma handleFill_keeps:
  assumes run: "mshr_handleFill m p w = ret w'" and x: "ms_mshrs w m = Some x" "mshr_wf x"
  shows "\<exists>x'. ms_mshrs w' m = Some x' \<and> targets_of x' = targets_of x \<and> mshr_wf x'"
proof -
  let ?w1 = "if m_pendingShared x then upd_pkt p assertShared w else w"
  have x1: "ms_mshrs ?w1 m = Some x" using x by simp
  obtain pkt where pkt: "ms_pkts ?w1 p = Some pkt"
    using run x by (cases "get_pkt ?w1 p") (auto simp: mshr_handleFill_def liftC_def Let_def ret_def)
  show ?thesis
  proof (cases "\<not> sharedAsserted pkt \<and> \<not> m_pendingInvalidate x \<and> tl_needsExclusive (m_deferred x)")
    case True
    then obtain w2 where w2: "clear_pending (tl_items (m_deferred x)) ?w1 = ret w2" "w' = upd_mshr m
        (\<lambda>x. x\<lparr>m_targets := (m_targets x)\<lparr>tl_needsExclusive := True,
           tl_items := tl_items (m_targets x) @ tl_items (m_deferred x)\<rparr>, m_deferred := TargetList_new\<rparr>) w2"
      using run x pkt
      by (auto simp: mshr_handleFill_def liftC_def Let_def elim!: bindC_ret_elim split: if_splits)
    obtain b where "ms_mshrs w2 m = Some (x\<lparr>m_downstreamPending := b\<rparr>)"
      using pending_only_mshr [OF clear_pending_only [OF w2(1)] x1] by blast
    then show ?thesis using w2(2) x(2) by (auto simp: targets_of_def mshr_wf_def TargetList_new_def)
  next
    case False
    then have "w' = ?w1" using run x pkt by (auto simp: mshr_handleFill_def liftC_def Let_def split: if_splits)
    then show ?thesis using x1 x(2) by auto
  qed
qed

subsection \<open>Snoops\<close>

lemma upgrade_idem [simp]: "upgrade_to_readex (upgrade_to_readex k) = upgrade_to_readex k"
  by (simp add: upgrade_to_readex_def)

lemma upgrade_cmd [simp]:
  "needsExclusive (pk_cmd (upgrade_to_readex k)) = needsExclusive (pk_cmd k)" "pk_cmd (upgrade_to_readex k) \<noteq> UpgradeReq"
  by (simp_all add: upgrade_to_readex_def cmd_attr)

lemma replace_all_spec:
  assumes "replace_all ts w = Inr w'"
  shows "w' = w\<lparr>ms_pkts := (\<lambda>q. if q \<in> t_pkt ` set ts then map_option upgrade_to_readex (ms_pkts w q) else ms_pkts w q)\<rparr>"
  using assms
proof (induction ts arbitrary: w)
  case (Cons t ts)
  then obtain k where k: "ms_pkts w (t_pkt t) = Some k" "replace_all ts (upd_pkt (t_pkt t) upgrade_to_readex w) = Inr w'"
    by auto
  show ?case using Cons.IH [OF k(2)] k(1) by (auto simp: upd_pkt_def fun_eq_iff option.map_comp comp_def)
qed simp

lemma replaceUpgrades_spec:
  assumes "replaceUpgrades l w = Inr (l', w')"
  shows "l' = l\<lparr>tl_hasUpgrade := False\<rparr>"
    and "w' = w\<lparr>ms_pkts := (\<lambda>q. if tl_hasUpgrade l \<and> q \<in> t_pkt ` set (tl_items l)
           then map_option upgrade_to_readex (ms_pkts w q) else ms_pkts w q)\<rparr>"
  using assms by (auto simp: replaceUpgrades_def dest!: replace_all_spec split: if_splits)

text \<open>The flag \<open>hasUpgrade\<close> covers the upgrade requests of a list that did not come from a snoop.\<close>

definition upgrades_noted :: "msys \<Rightarrow> target_list \<Rightarrow> bool" where
  "upgrades_noted w l \<longleftrightarrow> (\<forall>t \<in> set (tl_items l). \<forall>k. t_source t \<noteq> FromSnoop \<longrightarrow> ms_pkts w (t_pkt t) = Some k \<longrightarrow>
     pk_cmd k = UpgradeReq \<longrightarrow> tl_hasUpgrade l)"

definition no_upgrades :: "msys \<Rightarrow> target_list \<Rightarrow> bool" where
  "no_upgrades w l \<longleftrightarrow> (\<forall>t \<in> set (tl_items l). \<forall>k. t_source t \<noteq> FromSnoop \<longrightarrow> ms_pkts w (t_pkt t) = Some k \<longrightarrow>
     pk_cmd k \<noteq> UpgradeReq)"

lemma replaceUpgrades_none:
  assumes "replaceUpgrades l w = Inr (l', w')" "upgrades_noted w l"
  shows "no_upgrades w' l'"
  using assms(2) unfolding replaceUpgrades_spec [OF assms(1)] upgrades_noted_def no_upgrades_def
  by (auto simp: split: if_splits)

lemma replaceUpgrades_mono:
  assumes "replaceUpgrades l w = Inr (l', w')" "no_upgrades w d"
  shows "no_upgrades w' d"
  using assms(2) unfolding replaceUpgrades_spec [OF assms(1)] no_upgrades_def
  by (auto simp: split: if_splits)

lemma replaceUpgrades_noted:
  assumes "replaceUpgrades l w = Inr (l', w')" "upgrades_noted w d"
  shows "upgrades_noted w' d"
  using assms(2) unfolding replaceUpgrades_spec [OF assms(1)] upgrades_noted_def
  by (auto simp: split: if_splits)

lemma snoop_before_request:
  assumes run: "mshr_handleSnoop m p ord w = Inr (False, w')" and x: "ms_mshrs w m = Some x" "ms_pkts w p = Some pkt"
    and ex: "needsExclusive (pk_cmd pkt)" and noted: "upgrades_noted w (m_targets x)" "upgrades_noted w (m_deferred x)"
  shows "\<exists>x'. ms_mshrs w' m = Some x' \<and> targets_of x' = targets_of x \<and>
    no_upgrades w' (m_targets x') \<and> no_upgrades w' (m_deferred x')"
proof -
  have "\<not> m_inService x \<or> (isExpressSnoop pkt \<and> m_downstreamPending x)"
    using run x by (auto simp: mshr_handleSnoop_def Let_def split: if_splits)
  then obtain l w1 d w2 where l: "replaceUpgrades (m_targets x) w = Inr (l, w1)" "replaceUpgrades (m_deferred x) w1 = Inr (d, w2)"
      and w': "w' = upd_mshr m (\<lambda>x. x\<lparr>m_targets := l, m_deferred := d\<rparr>) w2"
    using run x ex by (auto simp: mshr_handleSnoop_def Let_def)
  have "no_upgrades w2 l" using replaceUpgrades_mono [OF l(2)] replaceUpgrades_none [OF l(1) noted(1)] .
  moreover have "no_upgrades w2 d" using replaceUpgrades_none [OF l(2)] replaceUpgrades_noted [OF l(1) noted(2)] .
  moreover have "ms_mshrs w2 m = Some x" "tl_items l = tl_items (m_targets x)" "tl_items d = tl_items (m_deferred x)"
    using x(1) replaceUpgrades_spec [OF l(1)] replaceUpgrades_spec [OF l(2)] by simp_all
  ultimately show ?thesis by (simp add: w' targets_of_def no_upgrades_def)
qed

lemma snoop_flags [simp]:
  "memInhibitAsserted (setSupplyExclusive (assertMemInhibit k))" "isSupplyExclusive (setSupplyExclusive (assertMemInhibit k))"
  "sharedAsserted (assertShared k)"
  by (simp_all add: memInhibitAsserted_def isSupplyExclusive_def sharedAsserted_def setSupplyExclusive_def
      assertMemInhibit_def assertShared_def pk_bits)

lemma snoop_record_spec:
  assumes run: "snoop_record m p ord x w = Inr w'" and x: "ms_mshrs w m = Some x'" "ms_pkts w p = Some pkt"
    and fresh: "ms_pkts w (ms_next w) = None"
  shows "\<exists>b l. ms_mshrs w' m = Some (x'\<lparr>m_downstreamPending := b, m_targets := l, m_ntargets := m_ntargets x' + 1,
      m_pendingInvalidate := m_pendingInvalidate x' \<or> needsExclusive (pk_cmd pkt)\<rparr>) \<and>
    ms_pkts w' p = Some (if tl_needsExclusive (m_targets x) then setSupplyExclusive (assertMemInhibit pkt) else pkt)"
proof -
  let ?cp = "ms_next w" and ?w1 = "snd (new_copy pkt w)" and ?ex = "tl_needsExclusive (m_targets x)"
  have pc: "p \<noteq> ?cp" using fresh x(2) by auto
  obtain l w2 where add: "tl_add ?cp (ms_now w) ord FromSnoop (m_downstreamPending x \<and> ?ex) (m_targets x) ?w1 = Inr (l, w2)"
      and w': "w' = upd_mshr m (\<lambda>x. x\<lparr>m_targets := l, m_ntargets := m_ntargets x + 1,
             m_pendingInvalidate := m_pendingInvalidate x \<or> needsExclusive (pk_cmd pkt)\<rparr>)
        (if ?ex then upd_pkt p (\<lambda>q. setSupplyExclusive (assertMemInhibit q)) w2
                else upd_pkt ?cp (\<lambda>q. q\<lparr>pk_req := None\<rparr>) w2)"
    using run x(2) by (auto simp: snoop_record_def Let_def new_copy_def)
  have po: "pending_only ?w1 w2" using tl_add_spec [OF add] by blast
  have "ms_mshrs ?w1 m = Some x'" "ms_pkts ?w1 p = Some pkt" using x pc by (simp_all add: new_copy_def)
  moreover from this obtain b where "ms_mshrs w2 m = Some (x'\<lparr>m_downstreamPending := b\<rparr>)"
    using pending_only_mshr [OF po] by blast
  moreover have "ms_pkts w2 = ms_pkts ?w1" using po by (simp add: pending_only_def)
  ultimately show ?thesis using pc by (auto simp: w')
qed

lemma snoop_after_request:
  assumes run: "mshr_handleSnoop m p ord w = Inr (True, w')" and x: "ms_mshrs w m = Some x" "ms_pkts w p = Some pkt"
    and fresh: "ms_pkts w (ms_next w) = None"
  shows "m_inService x" "\<exists>x' k. ms_mshrs w' m = Some x' \<and> ms_pkts w' p = Some k \<and>
    m_pendingInvalidate x' = (m_pendingInvalidate x \<or> needsExclusive (pk_cmd pkt)) \<and>
    (\<not> m_pendingInvalidate x \<and> tl_needsExclusive (m_targets x) \<longrightarrow> memInhibitAsserted k \<and> isSupplyExclusive k) \<and>
    (\<not> m_pendingInvalidate x \<and> \<not> tl_needsExclusive (m_targets x) \<and> \<not> needsExclusive (pk_cmd pkt) \<longrightarrow>
       m_pendingShared x' \<and> sharedAsserted k)"
proof -
  let ?ex = "needsExclusive (pk_cmd pkt)"
  have ser: "m_inService x" "\<not> (isExpressSnoop pkt \<and> m_downstreamPending x)"
    using run x by (auto simp: mshr_handleSnoop_def Let_def split: if_splits)
  then show "m_inService x" by simp
  obtain w1 where w1: "(if ?ex then bindR (replaceUpgrades (m_deferred x) w) (\<lambda>(d, w1).
                Inr (upd_mshr m (\<lambda>x. x\<lparr>m_deferred := d\<rparr>) w1)) else Inr w) = Inr w1"
      "(if m_pendingInvalidate x then Inr (True, w1)
       else if tl_needsExclusive (m_targets x) \<or> ?ex
       then bindR (snoop_record m p ord x w1) (\<lambda>w2. Inr (True, w2))
       else Inr (True, upd_pkt p assertShared (upd_mshr m (\<lambda>x. x\<lparr>m_pendingShared := True\<rparr>) w1))) = Inr (True, w')"
    using run x ser by (auto simp: mshr_handleSnoop_def Let_def)
  obtain d k where s1: "ms_mshrs w1 m = Some (x\<lparr>m_deferred := d\<rparr>)" "ms_pkts w1 p = Some k"
      "needsExclusive (pk_cmd k) = ?ex" "ms_pkts w1 (ms_next w1) = None"
  proof (cases ?ex)
    case True
    then obtain d w0 where d: "replaceUpgrades (m_deferred x) w = Inr (d, w0)" "w1 = upd_mshr m (\<lambda>x. x\<lparr>m_deferred := d\<rparr>) w0"
      using w1(1) by auto
    note sp = replaceUpgrades_spec(2) [OF d(1)]
    have "\<exists>k. ms_pkts w0 p = Some k \<and> needsExclusive (pk_cmd k) = ?ex" using x(2) by (simp add: sp)
    then obtain k where "ms_pkts w0 p = Some k" "needsExclusive (pk_cmd k) = ?ex" by blast
    moreover have "ms_mshrs w0 m = Some x" "ms_pkts w0 (ms_next w0) = None" using x(1) fresh by (simp_all add: sp)
    ultimately show ?thesis by (intro that [of d k]) (simp_all add: d(2))
  next
    case False
    then have "w1 = w" using w1(1) by simp
    then show ?thesis using x fresh by (intro that [of "m_deferred x" pkt]) simp_all
  qed
  consider "m_pendingInvalidate x" "w' = w1"
    | "\<not> m_pendingInvalidate x" "tl_needsExclusive (m_targets x) \<or> ?ex" "snoop_record m p ord x w1 = Inr w'"
    | "\<not> m_pendingInvalidate x" "\<not> (tl_needsExclusive (m_targets x) \<or> ?ex)"
        "w' = upd_pkt p assertShared (upd_mshr m (\<lambda>x. x\<lparr>m_pendingShared := True\<rparr>) w1)"
    using w1(2) by (auto split: if_splits)
  then show "\<exists>x' k. ms_mshrs w' m = Some x' \<and> ms_pkts w' p = Some k \<and>
    m_pendingInvalidate x' = (m_pendingInvalidate x \<or> needsExclusive (pk_cmd pkt)) \<and>
    (\<not> m_pendingInvalidate x \<and> tl_needsExclusive (m_targets x) \<longrightarrow> memInhibitAsserted k \<and> isSupplyExclusive k) \<and>
    (\<not> m_pendingInvalidate x \<and> \<not> tl_needsExclusive (m_targets x) \<and> \<not> needsExclusive (pk_cmd pkt) \<longrightarrow>
       m_pendingShared x' \<and> sharedAsserted k)"
  proof cases
    case 2
    then show ?thesis using snoop_record_spec [OF 2(3) s1(1,2,4)] s1(3) by auto
  qed (use s1 in auto)
qed

subsection \<open>Properties\<close>

text \<open>
  A sample register: one target, in service or not, with a second packet that arrives later.
\<close>

definition sample_mshr :: "bool \<Rightarrow> mshr" where
  "sample_mshr srv = \<lparr>m_readyTime = 0, m_order = 0, m_addr = 0, m_size = 64, m_inService = srv, m_isForward = False,
     m_isUncacheable = False, m_downstreamPending = False, m_pendingInvalidate = False, m_pendingShared = False,
     m_threadNum = 0, m_ntargets = 1, m_data = None,
     m_targets = \<lparr>tl_items = [\<lparr>t_recvTime = 0, t_readyTime = 0, t_order = 0, t_pkt = 0, t_source = FromCPU,
       t_markedPending = True\<rparr>], tl_needsExclusive = False, tl_hasUpgrade = False\<rparr>,
     m_deferred = TargetList_new\<rparr>"

definition sample_msys :: "bool \<Rightarrow> mem_cmd \<Rightarrow> msys" where
  "sample_msys srv c = \<lparr>ms_now = 5, ms_pkts = [0 \<mapsto> sample_packet ReadReq 1, 1 \<mapsto> sample_packet c 1],
     ms_reqs = [0 \<mapsto> sample_request], ms_mshrs = [10 \<mapsto> sample_mshr srv], ms_next = 2, ms_raw = sample_packet ReadReq 1,
     ms_bufs = sample_bytes\<rparr>"

lemma sample_msys_fields:
  "ms_mshrs (sample_msys srv c) 10 = Some (sample_mshr srv)" "ms_pkts (sample_msys srv c) 1 = Some (sample_packet c 1)"
  "ms_pkts (sample_msys srv c) (ms_next (sample_msys srv c)) = None" "mshr_wf (sample_mshr srv)"
  "getNumTargets (sample_mshr srv) = 1" "pk_senderState (sample_packet c b) = None"
  by (simp_all add: sample_msys_def mshr_wf_def sample_mshr_def targets_of_def TargetList_new_def getNumTargets_def
      sample_packet_def)

text \<open>
  C18: A register loses and reorders no request: a new request is appended after all others,
  deferred or not; promoting the deferred targets and handling the fill keep the sequence
  of targets, and the target count stays right.
\<close>

theorem requests_in_order:
  assumes x: "ms_mshrs w m = Some x" "mshr_wf x" and room: "getNumTargets x < 65535"
  shows "(mshr_allocateTarget m p whenReady ord w = Inr w1 \<longrightarrow> (\<exists>x' t. ms_mshrs w1 m = Some x' \<and> mshr_wf x' \<and>
       targets_of x' = targets_of x @ [t] \<and> t_pkt t = p \<and> t_order t = ord)) \<and>
    (mshr_promoteDeferredTargets m w = Inr (r, w2) \<longrightarrow> (\<exists>x'. ms_mshrs w2 m = Some x' \<and> mshr_wf x' \<and>
       targets_of x' = targets_of x \<and> tl_items (m_deferred x') = [] \<and> (r \<longleftrightarrow> targets_of x \<noteq> []))) \<and>
    (mshr_handleFill m p w = ret w3 \<longrightarrow> (\<exists>x'. ms_mshrs w3 m = Some x' \<and> mshr_wf x' \<and> targets_of x' = targets_of x))"
  using allocateTarget_appends [OF _ x room, of p whenReady ord w1] promote_keeps [OF _ x, of r w2]
    handleFill_keeps [OF _ x, of p w3] by blast

theorem requests_in_order_witness:
  "\<exists>w1. mshr_allocateTarget 10 1 6 7 (sample_msys True WriteReq) = Inr w1 \<and>
    (\<exists>x' t. ms_mshrs w1 10 = Some x' \<and> targets_of x' = targets_of (sample_mshr True) @ [t] \<and> t_pkt t = 1)"
proof -
  have "\<exists>w1. mshr_allocateTarget 10 1 6 7 (sample_msys True WriteReq) = Inr w1"
    using sample_msys_fields(1,2,6)
    by (simp add: mshr_allocateTarget_def tl_add_def mark_upstream_def sender_mshr_def Let_def)
  then obtain w1 where w1: "mshr_allocateTarget 10 1 6 7 (sample_msys True WriteReq) = Inr w1" by blast
  then show ?thesis
    using requests_in_order [OF sample_msys_fields(1,4), of True 1 6 7 WriteReq w1 False w1 w1] sample_msys_fields(5)
    by auto
qed

text \<open>
  C19: Snoops and the request of a register: the register takes part in a snoop exactly when its
  request precedes the snoop. Then a snoop that needs an exclusive copy leaves the register
  with a pending invalidation, a register that waits for an exclusive copy becomes the
  supplier, and two readers share. Otherwise an exclusive snoop turns the upgrades that
  wait in the register into read-exclusive requests.
\<close>

theorem snoop_order:
  assumes run: "mshr_handleSnoop m p ord w = Inr (r, w')" and x: "ms_mshrs w m = Some x" "ms_pkts w p = Some pkt"
    and fresh: "ms_pkts w (ms_next w) = None"
    and noted: "upgrades_noted w (m_targets x)" "upgrades_noted w (m_deferred x)"
  shows "(r \<longleftrightarrow> m_inService x \<and> \<not> (isExpressSnoop pkt \<and> m_downstreamPending x)) \<and>
    (\<exists>x' k. ms_mshrs w' m = Some x' \<and> (r \<longrightarrow> ms_pkts w' p = Some k) \<and>
      (r \<and> needsExclusive (pk_cmd pkt) \<longrightarrow> m_pendingInvalidate x') \<and>
      (r \<and> \<not> m_pendingInvalidate x \<and> tl_needsExclusive (m_targets x) \<longrightarrow> memInhibitAsserted k \<and> isSupplyExclusive k) \<and>
      (r \<and> \<not> m_pendingInvalidate x \<and> \<not> tl_needsExclusive (m_targets x) \<and> \<not> needsExclusive (pk_cmd pkt) \<longrightarrow>
        m_pendingShared x' \<and> sharedAsserted k) \<and>
      (\<not> r \<and> needsExclusive (pk_cmd pkt) \<longrightarrow> no_upgrades w' (m_targets x') \<and> no_upgrades w' (m_deferred x')))"
proof -
  have r: "r \<longleftrightarrow> m_inService x \<and> \<not> (isExpressSnoop pkt \<and> m_downstreamPending x)"
    using run x by (auto simp: mshr_handleSnoop_def Let_def split: if_splits)
  show ?thesis
  proof (cases r)
    case True
    then show ?thesis using snoop_after_request(2) [OF _ x fresh, of ord w'] run r by auto
  next
    case False
    have "w' = w" if "\<not> needsExclusive (pk_cmd pkt)"
      using that run x r False by (auto simp: mshr_handleSnoop_def Let_def split: if_splits)
    then show ?thesis using snoop_before_request [OF _ x _ noted, of ord w'] run r False x(1) by auto
  qed
qed

theorem snoop_order_witness:
  "\<exists>w' x'. mshr_handleSnoop 10 1 7 (sample_msys True ReadExReq) = Inr (True, w') \<and>
    ms_mshrs w' 10 = Some x' \<and> m_pendingInvalidate x'"
proof -
  have ex: "needsExclusive ReadExReq" by (simp add: cmd_attr)
  have ns: "\<not> isExpressSnoop (sample_packet c b)" for c b
    by (simp add: isExpressSnoop_def pk_bits sample_packet_def)
  have "\<exists>y. mshr_handleSnoop 10 1 7 (sample_msys True ReadExReq) = Inr y"
    using sample_msys_fields(1,2) ex ns
    by (auto simp: mshr_handleSnoop_def Let_def sample_mshr_def replaceUpgrades_def TargetList_new_def snoop_record_def
        new_copy_def tl_add_def)
  then obtain r w' where run: "mshr_handleSnoop 10 1 7 (sample_msys True ReadExReq) = Inr (r, w')" by auto
  have "upgrades_noted (sample_msys True ReadExReq) (m_targets (sample_mshr True))"
    "upgrades_noted (sample_msys True ReadExReq) (m_deferred (sample_mshr True))"
    by (simp_all add: upgrades_noted_def sample_mshr_def TargetList_new_def sample_msys_def)
  from snoop_order [OF run sample_msys_fields(1-3) this] ex ns run show ?thesis
    by (auto simp: sample_mshr_def)
qed

text \<open>Two registers in a chain, both marked: the packet of the first one comes from the second.\<close>

definition chain_msys :: msys where
  "chain_msys = (sample_msys True ReadReq)\<lparr>ms_pkts := [0 \<mapsto> (sample_packet ReadReq 1)\<lparr>pk_senderState := Some 11\<rparr>],
     ms_mshrs := [10 \<mapsto> (sample_mshr True)\<lparr>m_downstreamPending := True\<rparr>,
       11 \<mapsto> (sample_mshr True)\<lparr>m_downstreamPending := True, m_targets := TargetList_new\<rparr>]\<rparr>"

text \<open>
  C20: Clearing the pending marks of a register and of the registers of the caches above always
  ends when finitely many are marked. It succeeds exactly when the walk along the marked
  targets meets only marked registers and none of them twice; then every register that
  can be reached from the first one has lost its mark, every other register keeps its mark,
  and nothing else in the system has changed.
\<close>

theorem clear_downstream_ends:
  assumes "finite (pending_set w)"
  shows "\<exists>y. mshr_clearDownstreamPending m w = Some y \<and>
    (\<forall>w'. y = Inr w' \<longleftrightarrow> (\<exists>x ds. ms_mshrs w m = Some x \<and> visits w (tl_items (m_targets x)) ds \<and>
       distinct (m # ds) \<and> set (m # ds) \<subseteq> pending_set w \<and> w' = unmark (m # ds) w)) \<and>
    (\<forall>w'. y = Inr w' \<longrightarrow> pending_only w w' \<and> pending_set w' = pending_set w - {s. (upstream w)\<^sup>*\<^sup>* m s})"
proof -
  let ?w = "unmark [m] w"
  have fin: "finite (pending_set ?w)" using assms by (simp add: unmark_pending)
  have clr: "mshr_clearDownstreamPending m w = (case ms_mshrs w m of None \<Rightarrow> fail BadPtr
      | Some x \<Rightarrow> if m_downstreamPending x then clear_pending (tl_items (m_targets x)) ?w else fail (Assert ''downstreamPending''))"
    by (simp add: mshr_clearDownstreamPending_def get_mshr_def liftC_def unmark_def fail_def split: option.splits)
  have "mshr_clearDownstreamPending m w \<noteq> None"
    using clear_pending_total [OF fin] unfolding clr by (auto simp: fail_def split: option.splits)
  then obtain y where y: "mshr_clearDownstreamPending m w = Some y" by blast
  have iff: "y = Inr w' \<longleftrightarrow> (\<exists>x ds. ms_mshrs w m = Some x \<and> visits w (tl_items (m_targets x)) ds \<and>
       distinct (m # ds) \<and> set (m # ds) \<subseteq> pending_set w \<and> w' = unmark (m # ds) w)" (is "_ \<longleftrightarrow> ?R") for w'
  proof
    assume r: "y = Inr w'"
    then obtain x where x: "ms_mshrs w m = Some x" "m_downstreamPending x" "clear_pending (tl_items (m_targets x)) ?w = ret w'"
      using y unfolding clr by (auto simp: fail_def ret_def split: option.splits if_splits)
    obtain ds where ds: "visits ?w (tl_items (m_targets x)) ds" "distinct ds" "set ds \<subseteq> pending_set ?w" "w' = unmark ds ?w"
      using run_visits [OF x(3)] by blast
    have "m \<in> pending_set w" using x(1,2) by (simp add: pending_set_def)
    with ds x(1) visits_only [OF ds(1) unmark_only] unmark_Cons(1) [of m ds w] show ?R by (auto simp: unmark_pending)
  next
    assume ?R
    then obtain x ds where x: "ms_mshrs w m = Some x" "visits w (tl_items (m_targets x)) ds" "distinct (m # ds)"
      "set (m # ds) \<subseteq> pending_set w" "w' = unmark (m # ds) w" by blast
    have "clear_pending (tl_items (m_targets x) @ []) ?w = clear_pending [] (unmark ds ?w)"
      using x(3,4) by (intro visits_run [OF x(2) unmark_only]) (auto simp: unmark_pending)
    then show "y = Inr w'" using y x(1,4,5) unmark_Cons(1) [of m ds w] unfolding clr
      by (auto simp: clear_pending_Nil pending_set_def ret_def)
  qed
  have "pending_only w w' \<and> pending_set w' = pending_set w - {s. (upstream w)\<^sup>*\<^sup>* m s}" if r: "y = Inr w'" for w'
  proof -
    obtain x ds where x: "ms_mshrs w m = Some x" "visits w (tl_items (m_targets x)) ds" "w' = unmark (m # ds) w" using iff [of w'] r by blast
    have "set (m # ds) = {s. (upstream w)\<^sup>*\<^sup>* m s}" by (rule register_reach [OF x(1,2)])
    with x(3) unmark_only show ?thesis by (simp add: unmark_pending)
  qed
  then have "\<forall>w'. y = Inr w' \<longrightarrow> pending_only w w' \<and> pending_set w' = pending_set w - {s. (upstream w)\<^sup>*\<^sup>* m s}" by blast
  then show ?thesis by (intro exI [of _ y] conjI [OF y] conjI [OF allI [OF iff]])
qed

theorem clear_downstream_ends_witness:
  "\<exists>w'. mshr_clearDownstreamPending 10 chain_msys = ret w' \<and> w' = unmark [10, 11] chain_msys \<and> pending_set w' = {}"
proof -
  have p: "pending_set chain_msys = {10, 11}" by (auto simp: pending_set_def chain_msys_def split: if_splits)
  let ?x = "(sample_mshr True)\<lparr>m_downstreamPending := True\<rparr>"
  have x: "ms_mshrs chain_msys 10 = Some ?x" by (simp add: chain_msys_def)
  have u: "up_of chain_msys (hd (tl_items (m_targets ?x))) = Inr (Some 11)"
    by (simp add: up_of_def chain_msys_def sample_mshr_def sender_mshr_def)
  have "visits chain_msys [hd (tl_items (m_targets ?x))] (11 # [] @ [])"
    using visits_step [OF u, of "(sample_mshr True)\<lparr>m_downstreamPending := True, m_targets := TargetList_new\<rparr>" "[]" "[]" "[]"] visits_Nil [of chain_msys]
    by (simp add: chain_msys_def TargetList_new_def)
  then have v: "visits chain_msys (tl_items (m_targets ?x)) [11]" by (simp add: sample_mshr_def)
  have fin: "finite (pending_set chain_msys)" using p by simp
  obtain y where y: "mshr_clearDownstreamPending 10 chain_msys = Some y"
      "\<And>x ds. ms_mshrs chain_msys 10 = Some x \<Longrightarrow> visits chain_msys (tl_items (m_targets x)) ds \<Longrightarrow> distinct (10 # ds) \<Longrightarrow>
        set (10 # ds) \<subseteq> pending_set chain_msys \<Longrightarrow> y = Inr (unmark (10 # ds) chain_msys)"
    using clear_downstream_ends [OF fin, of 10] by blast
  have "y = Inr (unmark [10, 11] chain_msys)" by (rule y(2) [OF x v]) (simp_all add: p)
  with y(1) show ?thesis using p by (simp add: ret_def unmark_pending)
qed

end
