(* ===== verification/Mshr_Queue.thy ===== *)
theory Mshr_Queue
  imports Mshr "HOL-Library.Multiset"
begin

section \<open>The queue of miss status holding registers\<close>

text \<open>
  Model of \<^verbatim>\<open>src/src/mem/cache/mshr_queue.hh\<close> and \<^verbatim>\<open>src/src/mem/cache/mshr_queue.cc\<close>. The queue
  owns an array of registers and keeps three lists of pointers to them: the free ones, the
  allocated ones, and the allocated ones that have not been sent, in the order of the
  time they are ready. A register stores its iterators into the lists; erasing through an
  iterator removes the register from the list, and is an invalid access when the register
  is not in it. The counters and sizes, of type \<^verbatim>\<open>int\<close> in the code, are integers: they are
  bounded by the number of registers, which is a parameter of the cache.

  The lemmas show that every operation keeps the three lists consistent with each other,
  with the state of the registers and with the two counters, that a register is taken from
  the ready list in the order of its time, and that squashing a thread ends.
\<close>

record mshrq =
  q_label :: string
  q_registers :: "nat list"
  allocatedList :: "nat list"
  readyList :: "nat list"
  freeList :: "nat list"
  numEntries :: int
  numReserve :: int
  allocated :: int
  inServiceEntries :: int
  q_index :: int

definition erase_iter :: "nat \<Rightarrow> nat list \<Rightarrow> nat list res" where
  "erase_iter m xs = (if m \<in> set xs then Inr (remove1 m xs) else Inl BadPtr)"

definition MSHRQueue_new :: "string \<Rightarrow> int \<Rightarrow> int \<Rightarrow> int \<Rightarrow> nat \<Rightarrow> (nat \<Rightarrow> mshr) \<Rightarrow> msys \<Rightarrow> mshrq \<times> msys" where
  "MSHRQueue_new lbl num_entries reserve idx base raw w =
     (let regs = [base..<base + nat (num_entries + reserve - 1)] in
      (\<lparr>q_label = lbl, q_registers = regs, allocatedList = [], readyList = [], freeList = regs,
         numEntries = num_entries + reserve - 1, numReserve = reserve, allocated = 0, inServiceEntries = 0,
         q_index = idx\<rparr>,
       w\<lparr>ms_mshrs := (\<lambda>m. if m \<in> set regs then Some (MSHR_new (raw m)) else ms_mshrs w m)\<rparr>))"

definition has_addr :: "msys \<Rightarrow> addr \<Rightarrow> nat \<Rightarrow> bool" where
  "has_addr w a m \<longleftrightarrow> map_option m_addr (ms_mshrs w m) = Some a"

definition q_findMatch :: "addr \<Rightarrow> mshrq \<Rightarrow> msys \<Rightarrow> nat option" where
  "q_findMatch a q w = find (has_addr w a) (allocatedList q)"

definition q_findMatches :: "addr \<Rightarrow> nat list \<Rightarrow> mshrq \<Rightarrow> msys \<Rightarrow> (bool \<times> nat list) res" where
  "q_findMatches a matches q w = bindR (assertR (matches = []) ''matches.empty()'') (\<lambda>_.
     let ms = filter (has_addr w a) (allocatedList q) in Inr (ms \<noteq> [], matches @ ms))"

fun check_registers :: "printable \<Rightarrow> addr \<Rightarrow> nat list \<Rightarrow> nat \<Rightarrow> msys \<Rightarrow> print_req option \<Rightarrow>
    (bool \<times> msys \<times> print_req option) res" where
  "check_registers obj a [] p w prs = Inr (False, w, prs)"
| "check_registers obj a (m # ms) p w prs =
     (if has_addr w a m
      then bindR (mshr_checkFunctional obj m p w prs) (\<lambda>(done, w1, prs1).
           if done then Inr (True, w1, prs1) else check_registers obj a ms p w1 prs1)
      else check_registers obj a ms p w prs)"

definition q_checkFunctional :: "printable \<Rightarrow> nat \<Rightarrow> addr \<Rightarrow> mshrq \<Rightarrow> msys \<Rightarrow> print_req option \<Rightarrow>
    (bool \<times> msys \<times> print_req option) res" where
  "q_checkFunctional obj p a q w prs = bindR (get_pkt w p) (\<lambda>pkt. bindR (pk_pushLabel (q_label q) pkt prs) (\<lambda>prs1.
     bindR (check_registers obj a (allocatedList q) p w prs1) (\<lambda>(done, w1, prs2).
     bindR (get_pkt w1 p) (\<lambda>pkt1. bindR (pk_popLabel pkt1 prs2) (\<lambda>prs3. Inr (done, w1, prs3))))))"

definition overlaps_pending :: "addr \<Rightarrow> 32 word \<Rightarrow> mshr \<Rightarrow> bool" where
  "overlaps_pending a sz x \<longleftrightarrow> (if m_addr x < a then m_addr x + scast (m_size x) > a else a + scast sz > m_addr x)"

definition q_findPending :: "addr \<Rightarrow> 32 word \<Rightarrow> mshrq \<Rightarrow> msys \<Rightarrow> nat option" where
  "q_findPending a sz q w =
     find (\<lambda>m. case ms_mshrs w m of None \<Rightarrow> False | Some x \<Rightarrow> overlaps_pending a sz x) (readyList q)"

definition ready_time :: "msys \<Rightarrow> nat \<Rightarrow> int" where
  "ready_time w m = (case ms_mshrs w m of None \<Rightarrow> 0 | Some x \<Rightarrow> sint (m_readyTime x))"

fun insert_ready :: "(nat \<Rightarrow> int) \<Rightarrow> nat \<Rightarrow> nat list \<Rightarrow> nat list res" where
  "insert_ready f m [] = Inl (Assert ''false'')"
| "insert_ready f m (y # ys) =
     (if f y > f m then Inr (m # y # ys) else bindR (insert_ready f m ys) (\<lambda>zs. Inr (y # zs)))"

definition addToReadyList :: "nat \<Rightarrow> mshrq \<Rightarrow> msys \<Rightarrow> mshrq res" where
  "addToReadyList m q w = (let f = ready_time w; r = readyList q in
     if r = [] \<or> f (last r) \<le> f m then Inr (q\<lparr>readyList := r @ [m]\<rparr>)
     else bindR (insert_ready f m r) (\<lambda>r'. Inr (q\<lparr>readyList := r'\<rparr>)))"

definition q_allocate :: "addr \<Rightarrow> 32 word \<Rightarrow> nat \<Rightarrow> tick \<Rightarrow> 64 word \<Rightarrow> mshrq \<Rightarrow> msys \<Rightarrow>
    (nat \<times> mshrq \<times> msys) res" where
  "q_allocate a sz p whn ord q w = (case freeList q of [] \<Rightarrow> Inl (Assert ''!freeList.empty()'')
     | m # fs \<Rightarrow> bindR (get_mshr w m) (\<lambda>x.
         bindR (assertR (getNumTargets x = 0) ''mshr->getNumTargets() == 0'') (\<lambda>_.
         bindR (mshr_allocate m a sz p whn ord w) (\<lambda>w1.
         bindR (addToReadyList m (q\<lparr>freeList := fs, allocatedList := allocatedList q @ [m]\<rparr>) w1) (\<lambda>q1.
         Inr (m, q1\<lparr>allocated := allocated q1 + 1\<rparr>, w1))))))"

definition q_deallocateOne :: "nat \<Rightarrow> mshrq \<Rightarrow> msys \<Rightarrow> (mshrq \<times> msys) res" where
  "q_deallocateOne m q w = bindR (erase_iter m (allocatedList q)) (\<lambda>as.
     let q1 = q\<lparr>allocatedList := as, freeList := m # freeList q, allocated := allocated q - 1\<rparr> in
     bindR (get_mshr w m) (\<lambda>x.
     bindR (if m_inService x then Inr (q1\<lparr>inServiceEntries := inServiceEntries q1 - 1\<rparr>)
            else bindR (erase_iter m (readyList q1)) (\<lambda>rs. Inr (q1\<lparr>readyList := rs\<rparr>))) (\<lambda>q2.
     bindR (mshr_deallocate m w) (\<lambda>w1. Inr (q2, w1)))))"

definition q_deallocate :: "nat \<Rightarrow> mshrq \<Rightarrow> msys \<Rightarrow> (mshrq \<times> msys) res" where
  "q_deallocate m q w = q_deallocateOne m q w"

definition q_moveToFront :: "nat \<Rightarrow> mshrq \<Rightarrow> msys \<Rightarrow> mshrq res" where
  "q_moveToFront m q w = bindR (get_mshr w m) (\<lambda>x.
     if m_inService x then Inr q
     else bindR (erase_iter m (readyList q)) (\<lambda>rs. Inr (q\<lparr>readyList := m # rs\<rparr>)))"

definition q_markInService :: "nat \<Rightarrow> mshrq \<Rightarrow> msys \<Rightarrow> (mshrq \<times> msys) comp" where
  "q_markInService m q w = bindC (mshr_markInService m w) (\<lambda>(gone, w1).
     if gone then liftC (q_deallocate m q w1)
     else bindC (liftC (erase_iter m (readyList q))) (\<lambda>rs.
       ret (q\<lparr>readyList := rs, inServiceEntries := inServiceEntries q + 1\<rparr>, w1)))"

definition q_markPending :: "nat \<Rightarrow> mshrq \<Rightarrow> msys \<Rightarrow> (mshrq \<times> msys) res" where
  "q_markPending m q w = bindR (get_mshr w m) (\<lambda>x.
     bindR (assertR (m_inService x) ''mshr->inService'') (\<lambda>_.
     let w1 = upd_mshr m (\<lambda>x. x\<lparr>m_inService := False\<rparr>) w in
     bindR (addToReadyList m (q\<lparr>inServiceEntries := inServiceEntries q - 1\<rparr>) w1) (\<lambda>q1. Inr (q1, w1))))"

fun pop_targets :: "int \<Rightarrow> target list \<Rightarrow> mshr \<Rightarrow> mshr res" where
  "pop_targets tn [] x = Inr x"
| "pop_targets tn (t # ts) x = bindR (popTarget x) (\<lambda>x'.
     bindR (assertR (0 = tn) ''0 == threadNum'') (\<lambda>_. pop_targets tn ts x'))"

fun squash_loop :: "int \<Rightarrow> nat list \<Rightarrow> mshrq \<Rightarrow> msys \<Rightarrow> (mshrq \<times> msys) res" where
  "squash_loop tn [] q w = Inr (q, w)"
| "squash_loop tn (m # ms) q w = bindR (get_mshr w m) (\<lambda>x.
     if sint (m_threadNum x) = tn
     then bindR (pop_targets tn (tl_items (m_targets x)) x) (\<lambda>x'.
          bindR (assertR (\<not> hasTargets x') ''!mshr->hasTargets()'') (\<lambda>_.
          bindR (assertR (m_ntargets x' = 0) ''mshr->ntargets==0'') (\<lambda>_.
          let w1 = upd_mshr m (\<lambda>_. x') w in
          if m_inService x' then squash_loop tn ms q w1
          else bindR (q_deallocateOne m q w1) (\<lambda>(q1, w2). squash_loop tn ms q1 w2))))
     else squash_loop tn ms q w)"

definition q_squash :: "int \<Rightarrow> mshrq \<Rightarrow> msys \<Rightarrow> (mshrq \<times> msys) res" where
  "q_squash tn q w = squash_loop tn (allocatedList q) q w"

definition q_havePending :: "mshrq \<Rightarrow> bool" where
  "q_havePending q \<longleftrightarrow> readyList q \<noteq> []"

definition q_isFull :: "mshrq \<Rightarrow> bool" where
  "q_isFull q \<longleftrightarrow> allocated q > numEntries q - numReserve q"

definition q_getNextMSHR :: "mshrq \<Rightarrow> msys \<Rightarrow> nat option" where
  "q_getNextMSHR q w = (case readyList q of [] \<Rightarrow> None
     | m # _ \<Rightarrow> if ready_time w m > sint (ms_now w) then None else Some m)"

definition q_nextMSHRReadyTime :: "mshrq \<Rightarrow> msys \<Rightarrow> int" where
  "q_nextMSHRReadyTime q w = (case readyList q of [] \<Rightarrow> sint MaxTick | m # _ \<Rightarrow> ready_time w m)"

subsection \<open>The invariant of the queue\<close>

definition in_service :: "msys \<Rightarrow> nat \<Rightarrow> bool" where
  "in_service w m \<longleftrightarrow> (\<exists>x. ms_mshrs w m = Some x \<and> m_inService x)"

definition idle :: "msys \<Rightarrow> nat \<Rightarrow> bool" where
  "idle w m \<longleftrightarrow> (\<exists>x. ms_mshrs w m = Some x \<and> getNumTargets x = 0 \<and> tl_items (m_targets x) = [] \<and>
     isReset (m_targets x) \<and> isReset (m_deferred x) \<and> \<not> m_inService x)"

definition queue_wf :: "mshrq \<Rightarrow> msys \<Rightarrow> bool" where
  "queue_wf q w \<longleftrightarrow>
     distinct (allocatedList q @ freeList q) \<and> set (allocatedList q @ freeList q) = set (q_registers q) \<and>
     distinct (q_registers q) \<and> numEntries q = int (length (q_registers q)) \<and>
     (\<forall>m \<in> set (q_registers q). ms_mshrs w m \<noteq> None) \<and>
     distinct (readyList q) \<and> set (readyList q) = {m \<in> set (allocatedList q). \<not> in_service w m} \<and>
     allocated q = int (length (allocatedList q)) \<and>
     inServiceEntries q = int (length (filter (in_service w) (allocatedList q))) \<and>
     (\<forall>m \<in> set (freeList q). idle w m)"

text \<open>What the queue reads of a register, and stores that agree on it.\<close>

definition same_reg :: "msys \<Rightarrow> msys \<Rightarrow> nat \<Rightarrow> bool" where
  "same_reg w w' k \<longleftrightarrow> in_service w' k = in_service w k \<and> idle w' k = idle w k \<and> ready_time w' k = ready_time w k \<and>
     (ms_mshrs w' k = None \<longleftrightarrow> ms_mshrs w k = None)"

lemma same_reg_pending: "pending_only w w' \<Longrightarrow> same_reg w w' k"
proof (cases "ms_mshrs w k")
  case None
  moreover assume "pending_only w w'"
  then have "map_option (\<lambda>x. x\<lparr>m_downstreamPending := False\<rparr>) (ms_mshrs w' k) =
      map_option (\<lambda>x. x\<lparr>m_downstreamPending := False\<rparr>) (ms_mshrs w k)" by (simp add: pending_only_def)
  ultimately show ?thesis by (simp add: same_reg_def in_service_def idle_def ready_time_def)
next
  case (Some x)
  moreover assume "pending_only w w'"
  ultimately obtain b where "ms_mshrs w' k = Some (x\<lparr>m_downstreamPending := b\<rparr>)" using pending_only_mshr by blast
  with Some show ?thesis by (simp add: same_reg_def in_service_def idle_def ready_time_def getNumTargets_def)
qed

lemma same_reg_trans: "same_reg w w' k \<Longrightarrow> same_reg w' w'' k \<Longrightarrow> same_reg w w'' k"
  by (simp add: same_reg_def)

lemma same_reg_upd [simp]: "k \<noteq> m \<Longrightarrow> same_reg w (upd_mshr m f w) k"
  by (simp add: same_reg_def in_service_def idle_def ready_time_def)

lemma queue_wf_frame:
  assumes "queue_wf q w" "\<And>k. k \<in> set (allocatedList q) \<Longrightarrow> in_service w' k = in_service w k"
    "\<And>k. k \<in> set (freeList q) \<Longrightarrow> idle w k \<Longrightarrow> idle w' k" "\<And>k. ms_mshrs w' k = None \<Longrightarrow> ms_mshrs w k = None"
  shows "queue_wf q w'"
proof -
  have "filter (in_service w') (allocatedList q) = filter (in_service w) (allocatedList q)"
    using assms(2) by (intro filter_cong) auto
  moreover have "{m \<in> set (allocatedList q). \<not> in_service w' m} = {m \<in> set (allocatedList q). \<not> in_service w m}"
    using assms(2) by auto
  ultimately show ?thesis using assms(1,3,4) unfolding queue_wf_def by metis
qed

subsection \<open>The ready list\<close>

lemma insert_ready_eq:
  "(\<exists>y \<in> set ys. f y > f m) \<Longrightarrow>
     insert_ready f m ys = Inr (takeWhile (\<lambda>y. f y \<le> f m) ys @ m # dropWhile (\<lambda>y. f y \<le> f m) ys)"
  by (induction ys) auto

lemma addToReadyList_spec:
  "\<exists>r. addToReadyList m q w = Inr (q\<lparr>readyList := r\<rparr>) \<and> mset r = add_mset m (mset (readyList q)) \<and>
     (sorted (map (ready_time w) (readyList q)) \<longrightarrow>
        r = takeWhile (\<lambda>y. ready_time w y \<le> ready_time w m) (readyList q) @ m #
            dropWhile (\<lambda>y. ready_time w y \<le> ready_time w m) (readyList q))"
proof (cases "readyList q = [] \<or> ready_time w (last (readyList q)) \<le> ready_time w m")
  case True
  have tw: "takeWhile (\<lambda>y. ready_time w y \<le> ready_time w m) (readyList q) = readyList q"
    if s: "sorted (map (ready_time w) (readyList q))"
  proof (rule takeWhile_eq_all_conv [THEN iffD2], rule ballI)
    fix y assume y: "y \<in> set (readyList q)"
    then have ne: "readyList q \<noteq> []" by auto
    from y obtain us vs where "readyList q = us @ y # vs" by (meson split_list)
    with s have "ready_time w y \<le> ready_time w (last (readyList q))"
      by (cases "vs = []") (auto simp: sorted_append)
    with True ne show "ready_time w y \<le> ready_time w m" by auto
  qed
  have dw: "dropWhile (\<lambda>y. ready_time w y \<le> ready_time w m) (readyList q) = []"
    if "sorted (map (ready_time w) (readyList q))"
    using takeWhile_dropWhile_id [of "\<lambda>y. ready_time w y \<le> ready_time w m" "readyList q"] tw [OF that]
    by (metis append_self_conv)
  show ?thesis
    by (intro exI [of _ "readyList q @ [m]"] conjI impI) (use True in \<open>simp_all add: addToReadyList_def Let_def tw dw\<close>)
next
  case False
  then have ex: "\<exists>y \<in> set (readyList q). ready_time w y > ready_time w m"
    by (intro bexI [of _ "last (readyList q)"]) auto
  have "mset (takeWhile P ys @ m # dropWhile P ys) = add_mset m (mset ys)" for P and ys :: "nat list"
    by (metis add_mset_add_single mset.simps(2) mset_append takeWhile_dropWhile_id union_mset_add_mset_right)
  with False insert_ready_eq [OF ex] show ?thesis by (auto simp: addToReadyList_def Let_def)
qed

lemma sorted_insert_between:
  assumes "sorted (map f xs @ map f ys)" "\<And>x. x \<in> set xs \<Longrightarrow> f x \<le> f m" "\<And>y. y \<in> set ys \<Longrightarrow> f m \<le> f y"
  shows "sorted (map f (xs @ m # ys))"
  using assms by (auto simp: sorted_append)

lemma sorted_split_insert:
  assumes "sorted (map f ys)"
  shows "sorted (map f (takeWhile (\<lambda>y. f y \<le> f m) ys @ m # dropWhile (\<lambda>y. f y \<le> f m) ys))"
proof -
  let ?P = "\<lambda>y. f y \<le> f m"
  have st: "sorted (map f (takeWhile ?P ys) @ map f (dropWhile ?P ys))"
    by (metis assms map_append takeWhile_dropWhile_id)
  note s = st [unfolded sorted_append]
  have "f m \<le> f y" if "y \<in> set (dropWhile ?P ys)" for y
  proof -
    have "dropWhile ?P ys \<noteq> []" using that by (metis empty_iff list.set(1))
    then obtain z zs where z: "dropWhile ?P ys = z # zs" by (meson neq_Nil_conv)
    then have "f m < f z" by (metis hd_dropWhile linorder_not_le list.sel(1) list.distinct(1))
    moreover have "f z \<le> f y" using s that unfolding z by auto
    ultimately show ?thesis by simp
  qed
  then show ?thesis using st set_takeWhileD [of _ ?P ys] by (intro sorted_insert_between) auto
qed

subsection \<open>Every operation keeps the invariant\<close>

lemma mshr_allocate_effect:
  assumes "mshr_allocate m a sz p whn ord w = Inr w'"
  shows "k \<noteq> m \<Longrightarrow> same_reg w w' k"
    and "\<exists>x. ms_mshrs w' m = Some x \<and> \<not> m_inService x \<and> m_readyTime x = whn \<and> m_addr x = a \<and> m_ntargets x = 1"
proof -
  obtain x unc l w2 and pkt :: packet where x: "ms_mshrs w m = Some x"
    and add: "tl_add p whn ord (if pk_cmd pkt = HardPFReq then FromPrefetcher else FromCPU) True (m_targets x)
      (upd_mshr m (\<lambda>x. x\<lparr>m_addr := a, m_size := sz, m_readyTime := whn, m_order := ord,
                m_isForward := False, m_isUncacheable := unc, m_inService := False,
                m_downstreamPending := False, m_threadNum := 0, m_ntargets := 1\<rparr>) w) = Inr (l, w2)"
    and w': "w' = upd_mshr m (\<lambda>x. x\<lparr>m_targets := l, m_pendingInvalidate := False, m_pendingShared := False,
            m_data := None\<rparr>) w2"
    using assms by (clarsimp simp: mshr_allocate_def Let_def)
  let ?w1 = "upd_mshr m (\<lambda>x. x\<lparr>m_addr := a, m_size := sz, m_readyTime := whn, m_order := ord,
                m_isForward := False, m_isUncacheable := unc, m_inService := False,
                m_downstreamPending := False, m_threadNum := 0, m_ntargets := 1\<rparr>) w"
  have po: "pending_only ?w1 w2" using tl_add_spec [OF add] by blast
  show "k \<noteq> m \<Longrightarrow> same_reg w w' k"
    unfolding w' by (meson po same_reg_pending same_reg_trans same_reg_upd)
  define y where "y = x\<lparr>m_addr := a, m_size := sz, m_readyTime := whn, m_order := ord, m_isForward := False,
    m_isUncacheable := unc, m_inService := False, m_downstreamPending := False, m_threadNum := 0, m_ntargets := 1\<rparr>"
  obtain b where "ms_mshrs w2 m = Some (y\<lparr>m_downstreamPending := b\<rparr>)"
    using pending_only_mshr [OF po, of m y] x by (auto simp: y_def)
  then show "\<exists>x. ms_mshrs w' m = Some x \<and> \<not> m_inService x \<and> m_readyTime x = whn \<and> m_addr x = a \<and> m_ntargets x = 1"
    by (simp add: w' y_def)
qed

lemma distinct_mset_cong: "mset xs = mset ys \<Longrightarrow> distinct xs \<longleftrightarrow> distinct ys"
  by (metis mset_eq_imp_distinct_iff)

lemma q_allocate_wf:
  assumes wf: "queue_wf q w" and run: "q_allocate a sz p whn ord q w = Inr (m, q', w')"
  shows "queue_wf q' w'" "m \<in> set (freeList q)" "allocatedList q' = allocatedList q @ [m]" "freeList q = m # freeList q'"
    "\<exists>x. ms_mshrs w' m = Some x \<and> m_readyTime x = whn \<and> m_addr x = a" "\<And>k. k \<noteq> m \<Longrightarrow> same_reg w w' k"
proof -
  obtain q1 fs where f: "freeList q = m # fs" and al: "mshr_allocate m a sz p whn ord w = Inr w'"
    and q1: "addToReadyList m (q\<lparr>freeList := fs, allocatedList := allocatedList q @ [m]\<rparr>) w' = Inr q1"
    and q': "q' = q1\<lparr>allocated := allocated q1 + 1\<rparr>"
    using run addToReadyList_spec [of m "q\<lparr>freeList := tl (freeList q), allocatedList := allocatedList q @ [m]\<rparr>" w']
    by (cases "freeList q") (fastforce simp: q_allocate_def)+
  note eff = mshr_allocate_effect [OF al]
  obtain r where r: "q1 = q\<lparr>freeList := fs, allocatedList := allocatedList q @ [m], readyList := r\<rparr>"
      "mset r = add_mset m (mset (readyList q))"
    using addToReadyList_spec [of m "q\<lparr>freeList := fs, allocatedList := allocatedList q @ [m]\<rparr>" w'] q1
    by auto
  have fresh: "m \<notin> set (allocatedList q)" "m \<notin> set (fs)" using wf f by (auto simp: queue_wf_def)
  then have srv: "filter (in_service w') (allocatedList q) = filter (in_service w) (allocatedList q)"
      "{k \<in> set (allocatedList q). \<not> in_service w' k} = {k \<in> set (allocatedList q). \<not> in_service w k}"
    using eff(1) by (auto simp: same_reg_def intro!: filter_cong) metis+
  have free: "\<not> in_service w' m" using eff(2) by (auto simp: in_service_def)
  have ready: "set r = insert m (set (readyList q))" "distinct r"
    using r(2) fresh wf mset_eq_setD [of r "m # readyList q"] distinct_mset_cong [of r "m # readyList q"]
    by (auto simp: queue_wf_def)
  then have "set r = {k \<in> set (allocatedList q @ [m]). \<not> in_service w' k}" using free srv(2) wf by (auto simp: queue_wf_def)
  moreover have "\<forall>k \<in> set (fs). idle w' k" using wf fresh(2) eff(1) f by (auto simp: queue_wf_def same_reg_def) metis
  moreover have "\<forall>k \<in> set (q_registers q). ms_mshrs w' k \<noteq> None"
    using wf eff unfolding queue_wf_def same_reg_def by (metis option.distinct(1))
  moreover have "set (allocatedList q @ [m] @ fs) = set (q_registers q)"
      "distinct (allocatedList q @ [m] @ fs)" using wf f by (auto simp: queue_wf_def)
  ultimately show "queue_wf q' w'" using wf srv(1) free ready(2) by (simp add: queue_wf_def q' r(1))
  show "m \<in> set (freeList q)" "allocatedList q' = allocatedList q @ [m]" "freeList q = m # freeList q'"
    using f by (simp_all add: q' r(1))
  show "\<exists>x. ms_mshrs w' m = Some x \<and> m_readyTime x = whn \<and> m_addr x = a" using eff(2) by blast
  show "\<And>k. k \<noteq> m \<Longrightarrow> same_reg w w' k" by (rule eff(1))
qed

lemma q_deallocate_wf:
  assumes wf: "queue_wf q w" and run: "q_deallocateOne m q w = Inr (q', w')"
  shows "queue_wf q' w'" "allocatedList q' = remove1 m (allocatedList q)" "freeList q' = m # freeList q"
    "readyList q' = remove1 m (readyList q)" "m \<in> set (allocatedList q)" "k \<noteq> m \<Longrightarrow> ms_mshrs w' k = ms_mshrs w k"
proof -
  obtain x where x: "ms_mshrs w m = Some x" and m: "m \<in> set (allocatedList q)"
    and t: "tl_items (m_targets x) = []" "isReset (m_deferred x)" "m_ntargets x = 0"
    and w': "w' = upd_mshr m (\<lambda>x. x\<lparr>m_targets := resetFlags (m_targets x), m_inService := False\<rparr>) w"
    and q': "allocatedList q' = remove1 m (allocatedList q)" "freeList q' = m # freeList q" "allocated q' = allocated q - 1"
       "inServiceEntries q' = inServiceEntries q - (if in_service w m then 1 else 0)"
       "readyList q' = (if in_service w m then readyList q else remove1 m (readyList q))"
       "q_registers q' = q_registers q" "numEntries q' = numEntries q"
  proof -
    obtain x where x: "ms_mshrs w m = Some x" using run by (auto simp: q_deallocateOne_def Let_def)
    show thesis
      by (rule that [OF x]; cases "m_inService x")
        (use run x in \<open>auto simp: q_deallocateOne_def mshr_deallocate_def erase_iter_def Let_def in_service_def split: if_splits\<close>)
  qed
  have eff: "k \<noteq> m \<Longrightarrow> same_reg w w' k" for k by (simp add: w')
  have idle: "idle w' m" using x t by (simp add: w' idle_def isReset_def resetFlags_def getNumTargets_def)
  have d: "distinct (allocatedList q)" "distinct (readyList q)" using wf by (simp_all add: queue_wf_def)
  have f: "length (filter (in_service w') (remove1 m (allocatedList q))) =
      length (filter (in_service w) (allocatedList q)) - (if in_service w m then 1 else 0)"
  proof -
    have "filter (in_service w') (remove1 m (allocatedList q)) = filter (in_service w) (remove1 m (allocatedList q))"
      using d eff by (intro filter_cong) (auto simp: same_reg_def)
    also have "\<dots> = remove1 m (filter (in_service w) (allocatedList q))" by (simp add: filter_remove1)
    finally show ?thesis using m by (simp add: length_remove1)
  qed
  have len: "length (allocatedList q) = Suc (length (remove1 m (allocatedList q)))"
    using length_pos_if_in_set [OF m] by (simp only: length_remove1 m if_True)
  have srv: "inServiceEntries q = int (length (filter (in_service w) (allocatedList q)))" using wf by (simp add: queue_wf_def)
  have pos: "in_service w m \<Longrightarrow> 0 < length (filter (in_service w) (allocatedList q))" using m by (auto simp: filter_empty_conv)
  have "m \<notin> set (readyList q)" if "in_service w m" using wf that by (auto simp: queue_wf_def)
  then show r: "readyList q' = remove1 m (readyList q)" by (auto simp: q' remove1_idem)
  have "set (readyList q') = {k \<in> set (allocatedList q'). \<not> in_service w' k}"
    unfolding r using wf d eff by (auto simp: q' queue_wf_def same_reg_def)
  moreover have "\<forall>k \<in> set (freeList q). idle w' k" using wf m eff idle unfolding queue_wf_def same_reg_def by (metis)
  moreover have "\<forall>k \<in> set (q_registers q). ms_mshrs w' k \<noteq> None" using wf by (simp add: queue_wf_def w')
  moreover have "int (length (remove1 m (allocatedList q))) = allocated q - 1" using wf len by (simp add: queue_wf_def)
  moreover have "int (length (filter (in_service w') (remove1 m (allocatedList q)))) = inServiceEntries q'"
    using pos unfolding q'(4) f srv by (auto simp: of_nat_diff Suc_le_eq)
  moreover have "set (allocatedList q' @ freeList q') = set (q_registers q)" "distinct (allocatedList q' @ freeList q')"
    using wf m d by (auto simp: q' queue_wf_def)
  ultimately show "queue_wf q' w'" using wf idle r d by (simp add: queue_wf_def q')
  show "allocatedList q' = remove1 m (allocatedList q)" "freeList q' = m # freeList q" "m \<in> set (allocatedList q)"
    "k \<noteq> m \<Longrightarrow> ms_mshrs w' k = ms_mshrs w k"
    using m by (simp_all add: q' w')
qed

lemma in_service_upd:
  "in_service (upd_mshr m f w) k = (if k = m then \<exists>x. ms_mshrs w m = Some x \<and> m_inService (f x) else in_service w k)"
  by (auto simp: in_service_def)

lemma idle_upd [simp]: "k \<noteq> m \<Longrightarrow> idle (upd_mshr m f w) k = idle w k"
  by (simp add: idle_def)

lemma idle_free_upd: "queue_wf q w \<Longrightarrow> m \<in> set (allocatedList q) \<Longrightarrow> k \<in> set (freeList q) \<Longrightarrow> idle (upd_mshr m f w) k"
  by (cases "k = m") (auto simp: queue_wf_def)

lemma queue_wf_upd:
  assumes "queue_wf q w" "m \<in> set (allocatedList q)" "ms_mshrs w m = Some x" "m_inService (f x) = m_inService x"
  shows "queue_wf q (upd_mshr m f w)"
proof (rule queue_wf_frame [OF assms(1)])
  show "in_service (upd_mshr m f w) k = in_service w k" for k
    using assms(3,4) unfolding in_service_upd by (simp add: in_service_def)
  show "idle (upd_mshr m f w) k" if "k \<in> set (freeList q)" "idle w k" for k
    using that assms(1,2) by (simp add: idle_free_upd)
  show "ms_mshrs w k = None" if "ms_mshrs (upd_mshr m f w) k = None" for k
    using that by (simp split: if_splits)
qed

lemma length_filter_insert:
  assumes "distinct xs" "m \<in> set xs" "\<not> P m"
  shows "length (filter (\<lambda>k. k = m \<or> P k) xs) = Suc (length (filter P xs))"
proof -
  obtain us vs where "xs = us @ m # vs" using assms(2) by (meson split_list)
  moreover from this assms have "filter (\<lambda>k. k = m \<or> P k) us = filter P us" "filter (\<lambda>k. k = m \<or> P k) vs = filter P vs"
    by (auto intro!: filter_cong)
  ultimately show ?thesis using assms(3) by simp
qed

lemma q_moveToFront_wf:
  assumes wf: "queue_wf q w" and run: "q_moveToFront m q w = Inr q'"
  shows "queue_wf q' w" "\<not> in_service w m \<Longrightarrow> readyList q' = m # remove1 m (readyList q)"
proof -
  obtain x where x: "ms_mshrs w m = Some x" using run by (auto simp: q_moveToFront_def)
  show "queue_wf q' w"
    using run x wf by (auto simp: q_moveToFront_def erase_iter_def queue_wf_def split: if_splits)
  show "\<not> in_service w m \<Longrightarrow> readyList q' = m # remove1 m (readyList q)"
    using run x by (auto simp: q_moveToFront_def erase_iter_def in_service_def split: if_splits)
qed

lemma mshr_markInService_effect:
  assumes "mshr_markInService m w = ret (gone, w')"
  shows "\<exists>x. ms_mshrs w m = Some x \<and> \<not> m_inService x \<and>
    (if gone then \<exists>x'. w' = upd_mshr m (\<lambda>_. x') w \<and> \<not> m_inService x'
     else pending_only (upd_mshr m (\<lambda>x. x\<lparr>m_inService := True\<rparr>) w) w')"
proof -
  obtain x where x: "ms_mshrs w m = Some x" "\<not> m_inService x"
    using assms by (cases "get_mshr w m") (auto simp: mshr_markInService_def liftC_def ret_def split: if_splits)
  then obtain fwd where fwd: "isForwardNoResponse w x = Inr fwd"
    using assms by (cases "isForwardNoResponse w x") (auto simp: mshr_markInService_def liftC_def ret_def)
  show ?thesis
  proof (cases fwd)
    case True
    then obtain x' where x': "popTarget x = Inr x'" "gone" "w' = upd_mshr m (\<lambda>_. x') w"
      using assms x fwd by (cases "popTarget x") (auto simp: mshr_markInService_def liftC_def ret_def)
    have "\<not> m_inService x'" using x' x(2) by (auto simp: popTarget_def split: list.splits)
    with x x' show ?thesis by auto
  next
    case False
    let ?w1 = "upd_mshr m (\<lambda>x. x\<lparr>m_inService := True\<rparr>) w"
    have "\<not> gone" "w' = ?w1 \<or> clear_pending (tl_items (m_targets x)) ?w1 = ret w'"
      using assms x fwd False by (auto simp: mshr_markInService_def liftC_def Let_def split: if_splits elim!: bindC_ret_elim)
    then show ?thesis using x clear_pending_only by auto
  qed
qed

lemma q_markInService_wf:
  assumes wf: "queue_wf q w" and run: "q_markInService m q w = ret (q', w')"
  shows "queue_wf q' w'" "m \<notin> set (readyList q')" "m \<in> set (allocatedList q)"
proof -
  obtain gone w1 where mark: "mshr_markInService m w = ret (gone, w1)"
    and cont: "(if gone then liftC (q_deallocate m q w1) else bindC (liftC (erase_iter m (readyList q))) (\<lambda>rs.
       ret (q\<lparr>readyList := rs, inServiceEntries := inServiceEntries q + 1\<rparr>, w1))) = ret (q', w')"
    using run unfolding q_markInService_def by (elim bindC_ret_elim) auto
  obtain x where x: "ms_mshrs w m = Some x" "\<not> m_inService x" and eff: "if gone then \<exists>x'. w1 = upd_mshr m (\<lambda>_. x') w \<and> \<not> m_inService x'
     else pending_only (upd_mshr m (\<lambda>x. x\<lparr>m_inService := True\<rparr>) w) w1"
    using mshr_markInService_effect [OF mark] by blast
  have "queue_wf q' w' \<and> m \<notin> set (readyList q') \<and> m \<in> set (allocatedList q)"
  proof (cases gone)
    case True
    obtain x' where w1: "w1 = upd_mshr m (\<lambda>_. x') w" "\<not> m_inService x'" using eff True by auto
    have de: "q_deallocateOne m q w1 = Inr (q', w')" using cont True by (auto simp: liftC_def q_deallocate_def ret_def)
    then have m: "m \<in> set (allocatedList q)" by (auto simp: q_deallocateOne_def erase_iter_def split: if_splits)
    have "queue_wf q w1" unfolding w1(1) by (rule queue_wf_upd [OF wf m x(1)]) (simp add: x w1)
    from q_deallocate_wf [OF this de] m show ?thesis
      using wf by (auto simp: queue_wf_def)
  next
    case False
    have m: "m \<in> set (readyList q)" and q': "q' = q\<lparr>readyList := remove1 m (readyList q), inServiceEntries := inServiceEntries q + 1\<rparr>"
        "w' = w1" using cont False by (auto simp: liftC_def erase_iter_def ret_def split: if_splits)
    have ma: "m \<in> set (allocatedList q)" using m wf by (auto simp: queue_wf_def)
    have po: "pending_only (upd_mshr m (\<lambda>x. x\<lparr>m_inService := True\<rparr>) w) w1" using eff False by simp
    let ?w = "upd_mshr m (\<lambda>x. x\<lparr>m_inService := True\<rparr>) w"
    have srv: "in_service ?w k = (k = m \<or> in_service w k)" for k unfolding in_service_upd using x by (simp add: in_service_def)
    have "filter (in_service ?w) (allocatedList q) = filter (\<lambda>k. k = m \<or> in_service w k) (allocatedList q)"
      using srv by (intro filter_cong) auto
    moreover have "length (filter (\<lambda>k. k = m \<or> in_service w k) (allocatedList q)) = Suc (length (filter (in_service w) (allocatedList q)))"
      using ma wf x by (intro length_filter_insert) (auto simp: queue_wf_def in_service_def)
    ultimately have "queue_wf q' ?w"
      using wf m srv idle_free_upd [OF wf ma] by (auto simp: queue_wf_def q' split: if_splits)
    then have "queue_wf q' w'" unfolding q'(2)
      by (rule queue_wf_frame) (use same_reg_pending [OF po] in \<open>auto simp: same_reg_def\<close>)
    with ma wf show ?thesis by (auto simp: q' queue_wf_def)
  qed
  then show "queue_wf q' w'" "m \<notin> set (readyList q')" "m \<in> set (allocatedList q)" by auto
qed

lemma q_markPending_wf:
  assumes wf: "queue_wf q w" and run: "q_markPending m q w = Inr (q', w')" and m: "m \<in> set (q_registers q)"
  shows "queue_wf q' w'" "set (readyList q') = insert m (set (readyList q))"
proof -
  let ?w = "upd_mshr m (\<lambda>x. x\<lparr>m_inService := False\<rparr>) w"
  let ?q = "q\<lparr>inServiceEntries := inServiceEntries q - 1\<rparr>"
  obtain r where r: "addToReadyList m ?q ?w = Inr (?q\<lparr>readyList := r\<rparr>)" "mset r = add_mset m (mset (readyList q))"
    using addToReadyList_spec [of m ?q ?w] by auto
  obtain x where x: "ms_mshrs w m = Some x" "m_inService x" and w': "w' = ?w" and q': "q' = ?q\<lparr>readyList := r\<rparr>"
    using run r(1) by (auto simp: q_markPending_def Let_def)
  have "\<not> idle w m" using x by (simp add: idle_def)
  then have ma: "m \<in> set (allocatedList q)" using m wf unfolding queue_wf_def set_append by blast
  have srv: "in_service ?w k = (k \<noteq> m \<and> in_service w k)" for k unfolding in_service_upd by (simp add: in_service_def)
  have "Suc (length (filter (in_service ?w) (allocatedList q))) = length (filter (\<lambda>k. k = m \<or> in_service ?w k) (allocatedList q))"
    using ma wf by (intro length_filter_insert [symmetric]) (auto simp: queue_wf_def srv)
  moreover have "filter (\<lambda>k. k = m \<or> in_service ?w k) (allocatedList q) = filter (in_service w) (allocatedList q)"
    using x by (intro filter_cong) (auto simp: srv in_service_def)
  ultimately have cnt: "int (length (filter (in_service ?w) (allocatedList q))) = inServiceEntries q - 1"
    using wf by (simp add: queue_wf_def)
  have nr: "m \<notin> set (readyList q)" using x wf by (auto simp: queue_wf_def in_service_def)
  then have r': "set r = insert m (set (readyList q))" "distinct r"
    using r(2) wf mset_eq_setD [of r "m # readyList q"] distinct_mset_cong [of r "m # readyList q"] by (auto simp: queue_wf_def)
  have "\<forall>k \<in> set (freeList q). idle ?w k" using idle_free_upd [OF wf ma] by blast
  then show "queue_wf q' w'" using wf cnt ma r' unfolding w' q' by (auto simp: queue_wf_def srv split: if_splits)
  show "set (readyList q') = insert m (set (readyList q))" using r'(1) by (simp add: q')
qed

subsection \<open>Squashing\<close>

lemma pop_targets_spec:
  "pop_targets tn (tl_items (m_targets x)) x = Inr x' \<Longrightarrow>
     tl_items (m_targets x') = [] \<and> m_inService x' = m_inService x \<and> m_threadNum x' = m_threadNum x \<and>
     (tl_items (m_targets x) \<noteq> [] \<longrightarrow> tn = 0)"
proof (induction "tl_items (m_targets x)" arbitrary: x)
  case Nil
  then show ?case by simp
next
  case (Cons t ts)
  let ?x = "x\<lparr>m_ntargets := m_ntargets x - 1, m_targets := (m_targets x)\<lparr>tl_items := ts\<rparr>\<rparr>"
  have "popTarget x = Inr ?x" using Cons.hyps(2) [symmetric] by (simp add: popTarget_def)
  then have "pop_targets tn ts ?x = Inr x'" "tn = 0"
    using Cons.prems unfolding Cons.hyps(2) [symmetric] by auto
  then show ?case using Cons.hyps(1) [of ?x] by simp
qed

definition thread_squashed :: "int \<Rightarrow> msys \<Rightarrow> nat \<Rightarrow> bool" where
  "thread_squashed tn w k \<longleftrightarrow> (\<exists>x. ms_mshrs w k = Some x \<and> (sint (m_threadNum x) = tn \<longrightarrow> m_inService x \<and> \<not> hasTargets x))"

lemma squash_step:
  assumes wf: "queue_wf q w" and m: "m \<in> set (allocatedList q)"
    and run: "squash_loop tn (m # ms) q w = Inr (q', w')"
  obtains q1 w1 where "squash_loop tn ms q1 w1 = Inr (q', w')" "queue_wf q1 w1"
    "set (allocatedList q1) \<subseteq> set (allocatedList q)" "set (allocatedList q) \<subseteq> insert m (set (allocatedList q1))"
    "m \<in> set (allocatedList q1) \<Longrightarrow> thread_squashed tn w1 m" "\<And>k. k \<noteq> m \<Longrightarrow> ms_mshrs w1 k = ms_mshrs w k"
proof -
  obtain x where x: "ms_mshrs w m = Some x" using run by auto
  show thesis
  proof (cases "sint (m_threadNum x) = tn")
    case False
    then show thesis using run x wf by (intro that [of q w]) (auto simp: thread_squashed_def)
  next
    case True
    obtain x' where pop: "pop_targets tn (tl_items (m_targets x)) x = Inr x'"
      and rest: "(if m_inService x' then squash_loop tn ms q (upd_mshr m (\<lambda>_. x') w)
          else bindR (q_deallocateOne m q (upd_mshr m (\<lambda>_. x') w)) (\<lambda>(q1, w2). squash_loop tn ms q1 w2)) = Inr (q', w')"
      using run x True by (auto simp: Let_def)
    note p = pop_targets_spec [OF pop]
    have wf1: "queue_wf q (upd_mshr m (\<lambda>_. x') w)" by (rule queue_wf_upd [OF wf m x]) (simp add: p)
    show thesis
    proof (cases "m_inService x'")
      case srv: True
      with rest wf1 x p show thesis
        by (intro that [of q "upd_mshr m (\<lambda>_. x') w"]) (auto simp: thread_squashed_def hasTargets_def)
    next
      case False
      then obtain q1 w2 where d: "q_deallocateOne m q (upd_mshr m (\<lambda>_. x') w) = Inr (q1, w2)"
          "squash_loop tn ms q1 w2 = Inr (q', w')" using rest by auto
      have di: "distinct (allocatedList q)" using wf by (simp add: queue_wf_def)
      show thesis
        by (rule that [OF d(2) q_deallocate_wf(1) [OF wf1 d(1)]])
          (use q_deallocate_wf(2,6) [OF wf1 d(1)] di in auto)
    qed
  qed
qed

lemma squash_loop_spec:
  assumes "squash_loop tn ms q w = Inr (q', w')" "queue_wf q w" "distinct ms" "set ms \<subseteq> set (allocatedList q)"
  shows "queue_wf q' w' \<and> set (allocatedList q') \<subseteq> set (allocatedList q) \<and>
    (\<forall>k \<in> set ms \<inter> set (allocatedList q'). thread_squashed tn w' k) \<and> (\<forall>k. k \<notin> set ms \<longrightarrow> ms_mshrs w' k = ms_mshrs w k)"
  using assms
proof (induction ms arbitrary: q w)
  case Nil
  then show ?case by simp
next
  case (Cons m ms)
  from Cons.prems(4) have m: "m \<in> set (allocatedList q)" by simp
  from squash_step [OF Cons.prems(2) m Cons.prems(1)] obtain q1 w1 where
    s: "squash_loop tn ms q1 w1 = Inr (q', w')" "queue_wf q1 w1"
    "set (allocatedList q1) \<subseteq> set (allocatedList q)" "set (allocatedList q) \<subseteq> insert m (set (allocatedList q1))"
    "m \<in> set (allocatedList q1) \<Longrightarrow> thread_squashed tn w1 m" "\<And>k. k \<noteq> m \<Longrightarrow> ms_mshrs w1 k = ms_mshrs w k" by blast
  have IH: "queue_wf q' w' \<and> set (allocatedList q') \<subseteq> set (allocatedList q1) \<and>
    (\<forall>k \<in> set ms \<inter> set (allocatedList q'). thread_squashed tn w' k) \<and> (\<forall>k. k \<notin> set ms \<longrightarrow> ms_mshrs w' k = ms_mshrs w1 k)"
    using Cons.prems(3,4) s(4) by (intro Cons.IH [OF s(1,2)]) auto
  then have "m \<in> set (allocatedList q') \<Longrightarrow> thread_squashed tn w' m"
    using s(5) Cons.prems(3) unfolding thread_squashed_def by auto
  with IH s(3,6) show ?case by auto
qed

text \<open>The registers that squashing can release: their count is right and no target is deferred.\<close>

definition releasable :: "msys \<Rightarrow> nat \<Rightarrow> bool" where
  "releasable w k \<longleftrightarrow> (\<exists>x. ms_mshrs w k = Some x \<and> mshr_wf x \<and> tl_items (m_deferred x) = [] \<and> isReset (m_deferred x))"

lemma pop_targets_total:
  "mshr_wf x \<Longrightarrow> \<exists>x'. pop_targets 0 (tl_items (m_targets x)) x = Inr x' \<and> mshr_wf x' \<and> m_deferred x' = m_deferred x"
proof (induction "tl_items (m_targets x)" arbitrary: x)
  case Nil
  then show ?case by simp
next
  case (Cons t ts)
  let ?x = "x\<lparr>m_ntargets := m_ntargets x - 1, m_targets := (m_targets x)\<lparr>tl_items := ts\<rparr>\<rparr>"
  have pop: "popTarget x = Inr ?x" using Cons.hyps(2) [symmetric] by (simp add: popTarget_def)
  then have "\<exists>x'. pop_targets 0 ts ?x = Inr x' \<and> mshr_wf x' \<and> m_deferred x' = m_deferred x"
    using Cons.hyps(1) [of ?x] popTarget_drops(2) [OF pop Cons.prems] by simp
  with pop show ?case unfolding Cons.hyps(2) [symmetric] by simp
qed

lemma squash_step_total:
  assumes wf: "queue_wf q w" and m: "m \<in> set (allocatedList q)" and rel: "releasable w m"
  obtains q1 w1 where "squash_loop 0 (m # ms) q w = squash_loop 0 ms q1 w1" "queue_wf q1 w1"
    "set (allocatedList q) \<subseteq> insert m (set (allocatedList q1))" "\<And>k. k \<noteq> m \<Longrightarrow> ms_mshrs w1 k = ms_mshrs w k"
proof -
  obtain x where x: "ms_mshrs w m = Some x" "mshr_wf x" "tl_items (m_deferred x) = []" "isReset (m_deferred x)"
    using rel by (auto simp: releasable_def)
  obtain x' where pop: "pop_targets 0 (tl_items (m_targets x)) x = Inr x'" "mshr_wf x'" "m_deferred x' = m_deferred x"
    using pop_targets_total [OF x(2)] by blast
  note p = pop_targets_spec [OF pop(1)]
  have e: "m_ntargets x' = 0" using pop p x(3) by (simp add: mshr_wf_def targets_of_def unat_eq_0)
  let ?w = "upd_mshr m (\<lambda>_. x') w"
  have wf1: "queue_wf q ?w" by (rule queue_wf_upd [OF wf m x(1)]) (simp add: p)
  show thesis
  proof (cases "sint (m_threadNum x) = 0 \<and> \<not> m_inService x'")
    case False
    with x wf wf1 p pop e show thesis
      by (intro that [of "q" "if sint (m_threadNum x) = 0 then ?w else w"]) (auto simp: Let_def hasTargets_def)
  next
    case True
    have "m \<in> set (readyList q)" using wf1 m True x(1) by (auto simp: queue_wf_def in_service_def)
    then have "\<exists>y. q_deallocateOne m q ?w = Inr y"
      using x m True p pop e by (simp add: q_deallocateOne_def erase_iter_def mshr_deallocate_def Let_def)
    then obtain q1 w1 where d: "q_deallocateOne m q ?w = Inr (q1, w1)" by auto
    have di: "distinct (allocatedList q)" using wf by (simp add: queue_wf_def)
    show thesis
      by (rule that [OF _ q_deallocate_wf(1) [OF wf1 d]])
        (use q_deallocate_wf(2,6) [OF wf1 d] di d x(1) True p pop e in \<open>auto simp: Let_def hasTargets_def\<close>)
  qed
qed

lemma squash_loop_total:
  assumes "queue_wf q w" "distinct ms" "set ms \<subseteq> set (allocatedList q)" "\<And>k. k \<in> set ms \<Longrightarrow> releasable w k"
  shows "\<exists>y. squash_loop 0 ms q w = Inr y"
  using assms
proof (induction ms arbitrary: q w)
  case (Cons m ms)
  from Cons.prems have m: "m \<in> set (allocatedList q)" "releasable w m" by auto
  from squash_step_total [OF Cons.prems(1) m] obtain q1 w1 where
    s: "squash_loop 0 (m # ms) q w = squash_loop 0 ms q1 w1" "queue_wf q1 w1"
    "set (allocatedList q) \<subseteq> insert m (set (allocatedList q1))" "\<And>k. k \<noteq> m \<Longrightarrow> ms_mshrs w1 k = ms_mshrs w k" by blast
  have "releasable w1 k" if k: "k \<in> set ms" for k
  proof -
    have "k \<noteq> m" using Cons.prems(2) k by auto
    then show ?thesis using Cons.prems(4) [of k] k s(4) by (simp add: releasable_def)
  qed
  then show ?case unfolding s(1) using Cons.prems(2,3) s(3) by (intro Cons.IH [OF s(2)]) auto
qed simp

subsection \<open>The room of the queue\<close>

lemma queue_room:
  assumes "queue_wf q w"
  shows "int (length (freeList q)) = numEntries q - allocated q" "0 \<le> inServiceEntries q" "inServiceEntries q \<le> allocated q"
proof -
  have "card (set (allocatedList q @ freeList q)) = length (allocatedList q @ freeList q)"
    by (rule distinct_card) (use assms in \<open>simp add: queue_wf_def\<close>)
  moreover have "card (set (q_registers q)) = length (q_registers q)"
    by (rule distinct_card) (use assms in \<open>simp add: queue_wf_def\<close>)
  ultimately show "int (length (freeList q)) = numEntries q - allocated q" using assms by (simp add: queue_wf_def)
  show "0 \<le> inServiceEntries q" "inServiceEntries q \<le> allocated q" using assms by (simp_all add: queue_wf_def)
qed

lemma q_allocate_returns:
  assumes wf: "queue_wf q w" and free: "freeList q \<noteq> []"
    and pkt: "ms_pkts w p = Some pkt" "pk_req pkt = Some r" "ms_reqs w r = Some rq"
    and up: "\<And>s x. pk_senderState pkt = Some s \<Longrightarrow> ms_mshrs w s = Some x \<Longrightarrow> \<not> m_downstreamPending x"
  shows "\<exists>y. q_allocate a sz p whn ord q w = Inr y"
proof -
  obtain m fs where f: "freeList q = m # fs" using free by (cases "freeList q") auto
  then have "idle w m" using wf by (simp add: queue_wf_def)
  then obtain x where x: "ms_mshrs w m = Some x" "getNumTargets x = 0" "isReset (m_targets x)" "isReset (m_deferred x)"
    by (auto simp: idle_def)
  have "\<exists>w'. mark_upstream pkt (upd_mshr m g w) = Inr w'" if "\<And>x. \<not> m_downstreamPending (g x)" for g
    using up that by (auto simp: mark_upstream_def sender_mshr_def get_mshr_def split: option.splits)
  then have "\<exists>w'. mshr_allocate m a sz p whn ord w = Inr w'"
    using x pkt by (auto simp: mshr_allocate_def Let_def req_uncacheable_def tl_add_def)
  then obtain w' where w': "mshr_allocate m a sz p whn ord w = Inr w'" by blast
  obtain q1 where "addToReadyList m (q\<lparr>freeList := fs, allocatedList := allocatedList q @ [m]\<rparr>) w' = Inr q1"
    using addToReadyList_spec by blast
  with w' f x show ?thesis by (simp add: q_allocate_def)
qed

lemma MSHRQueue_new_wf:
  assumes "MSHRQueue_new lbl n rsv idx base raw w = (q, w')" "0 \<le> n + rsv - 1"
  shows "queue_wf q w'" "allocatedList q = []" "length (freeList q) = nat (n + rsv - 1)" "ms_pkts w' = ms_pkts w" "ms_reqs w' = ms_reqs w"
  using assms
  by (auto simp: MSHRQueue_new_def Let_def queue_wf_def idle_def MSHR_new_def TargetList_new_def isReset_def getNumTargets_def)

lemma sorted_ready_frame:
  assumes "sorted (map (ready_time w) xs)" "\<And>k. k \<in> set xs \<Longrightarrow> ready_time w' k = ready_time w k"
  shows "sorted (map (ready_time w') xs)"
  using assms by (metis (no_types, lifting) map_eq_conv)

lemma q_allocate_order:
  assumes wf: "queue_wf q w" and run: "q_allocate a sz p whn ord q w = Inr (m, q', w')"
    and sorted: "sorted (map (ready_time w) (readyList q))"
  shows "readyList q' = takeWhile (\<lambda>y. ready_time w' y \<le> sint whn) (readyList q) @ m #
      dropWhile (\<lambda>y. ready_time w' y \<le> sint whn) (readyList q)" "sorted (map (ready_time w') (readyList q'))"
proof -
  note al = q_allocate_wf [OF wf run]
  have "m \<notin> set (readyList q)" using al(2) wf by (auto simp: queue_wf_def)
  then have "ready_time w' k = ready_time w k" if "k \<in> set (readyList q)" for k
    using al(6) [of k] that by (auto simp: same_reg_def)
  then have s: "sorted (map (ready_time w') (readyList q))" by (rule sorted_ready_frame [OF sorted])
  have t: "ready_time w' m = sint whn" using al(5) by (auto simp: ready_time_def)
  obtain q1 fs where q1: "addToReadyList m (q\<lparr>freeList := fs, allocatedList := allocatedList q @ [m]\<rparr>) w' = Inr q1"
      "readyList q' = readyList q1"
    using run al(4) by (auto simp: q_allocate_def)
  show r: "readyList q' = takeWhile (\<lambda>y. ready_time w' y \<le> sint whn) (readyList q) @ m #
      dropWhile (\<lambda>y. ready_time w' y \<le> sint whn) (readyList q)"
    using addToReadyList_spec [of m "q\<lparr>freeList := fs, allocatedList := allocatedList q @ [m]\<rparr>" w'] q1 s t
    by auto
  show "sorted (map (ready_time w') (readyList q'))"
    unfolding r using sorted_split_insert [OF s, of m] t by simp
qed

lemma getNextMSHR_least:
  assumes "sorted (map (ready_time w) (readyList q))"
  shows "q_getNextMSHR q w = Some k \<Longrightarrow> k \<in> set (readyList q) \<and> ready_time w k \<le> sint (ms_now w) \<and>
      (\<forall>j \<in> set (readyList q). ready_time w k \<le> ready_time w j)"
    and "q_getNextMSHR q w = None \<Longrightarrow> (\<forall>j \<in> set (readyList q). sint (ms_now w) < ready_time w j)"
  using assms by (cases "readyList q"; force simp: q_getNextMSHR_def split: if_splits)+

subsection \<open>Properties\<close>

definition sample_queue :: "mshrq \<times> msys" where
  "sample_queue = MSHRQueue_new ''mshrs'' 4 2 0 20 (\<lambda>_. sample_mshr True) (sample_msys True ReadReq)"

lemma sample_queue_wf: "queue_wf (fst sample_queue) (snd sample_queue)"
  using MSHRQueue_new_wf(1) [of "''mshrs''" 4 2 0 20 "\<lambda>_. sample_mshr True" "sample_msys True ReadReq"]
  by (cases sample_queue) (auto simp: sample_queue_def)

text \<open>
  C16: The lists of the queue stay consistent: the constructor establishes and every operation
  keeps that each register is on exactly one of the free and the allocated list, that the
  ready list holds exactly the allocated registers not in service, that the two counters
  are the numbers of allocated and of in-service registers, and that every free register is
  without targets and out of service.
\<close>

theorem queue_invariant:
  "(0 \<le> n + rsv - 1 \<longrightarrow> (case MSHRQueue_new lbl n rsv idx base raw w of (q0, w0) \<Rightarrow> queue_wf q0 w0)) \<and>
   (queue_wf q w \<longrightarrow>
     (q_allocate a sz p whn ord q w = Inr (k, q', w') \<longrightarrow> queue_wf q' w' \<and> allocatedList q' = allocatedList q @ [k]) \<and>
     (q_deallocate m q w = Inr (q', w') \<longrightarrow> queue_wf q' w' \<and> allocatedList q' = remove1 m (allocatedList q)) \<and>
     (q_moveToFront m q w = Inr q' \<longrightarrow> queue_wf q' w) \<and>
     (q_markInService m q w = ret (q', w') \<longrightarrow> queue_wf q' w' \<and> m \<notin> set (readyList q')) \<and>
     (q_markPending m q w = Inr (q', w') \<and> m \<in> set (q_registers q) \<longrightarrow> queue_wf q' w' \<and> m \<in> set (readyList q')) \<and>
     (q_squash tn q w = Inr (q', w') \<longrightarrow> queue_wf q' w'))"
proof (intro conjI impI)
  show "case MSHRQueue_new lbl n rsv idx base raw w of (q0, w0) \<Rightarrow> queue_wf q0 w0" if "0 \<le> n + rsv - 1"
    using MSHRQueue_new_wf(1) that by (auto split: prod.splits)
  assume wf: "queue_wf q w"
  show "queue_wf q' w'" "allocatedList q' = allocatedList q @ [k]" if "q_allocate a sz p whn ord q w = Inr (k, q', w')"
    using q_allocate_wf(1,3) [OF wf that] by auto
  show "queue_wf q' w'" "allocatedList q' = remove1 m (allocatedList q)" if "q_deallocate m q w = Inr (q', w')"
    using q_deallocate_wf(1,2) [OF wf] that by (auto simp: q_deallocate_def)
  show "queue_wf q' w" if "q_moveToFront m q w = Inr q'" using q_moveToFront_wf(1) [OF wf that] .
  show "queue_wf q' w'" "m \<notin> set (readyList q')" if "q_markInService m q w = ret (q', w')"
    using q_markInService_wf [OF wf that] by auto
  show "queue_wf q' w'" "m \<in> set (readyList q')" if "q_markPending m q w = Inr (q', w') \<and> m \<in> set (q_registers q)"
    using q_markPending_wf(1,2) [OF wf] that by auto
  show "queue_wf q' w'" if "q_squash tn q w = Inr (q', w')"
    using squash_loop_spec [of tn "allocatedList q" q w q' w'] that wf by (auto simp: q_squash_def queue_wf_def)
qed

theorem queue_invariant_witness:
  "\<exists>k q' w'. q_allocate 64 64 1 9 3 (fst sample_queue) (snd sample_queue) = Inr (k, q', w') \<and> queue_wf q' w'"
proof -
  have "\<exists>y. q_allocate 64 64 1 9 3 (fst sample_queue) (snd sample_queue) = Inr y"
    by (rule q_allocate_returns [OF sample_queue_wf, where pkt = "sample_packet ReadReq 1"])
      (auto simp: sample_queue_def MSHRQueue_new_def sample_msys_def sample_packet_def Let_def)
  then obtain k q' w' where run: "q_allocate 64 64 1 9 3 (fst sample_queue) (snd sample_queue) = Inr (k, q', w')"
    by (metis prod.exhaust)
  show ?thesis
    using queue_invariant [of 4 2 "''mshrs''" 0 20 "\<lambda>_. sample_mshr True" "snd sample_queue" "fst sample_queue" 64 64 1 9 3 k q' w' 0 0]
      run sample_queue_wf by blast
qed

text \<open>
  C17: The ready list is a priority list that is first-in first-out among equal times: a new
  register is placed behind every register that is ready no later and in front of the
  others, the list stays sorted, and the next register taken is one with the least ready
  time, or none when no register is ready yet.
\<close>

theorem ready_order:
  assumes "queue_wf q w" "sorted (map (ready_time w) (readyList q))"
    and "q_allocate a sz p whn ord q w = Inr (m, q', w')"
  shows "readyList q' = takeWhile (\<lambda>y. ready_time w' y \<le> sint whn) (readyList q) @ m #
      dropWhile (\<lambda>y. ready_time w' y \<le> sint whn) (readyList q) \<and>
    sorted (map (ready_time w') (readyList q')) \<and>
    (case q_getNextMSHR q' w' of
       None \<Rightarrow> \<forall>j \<in> set (readyList q'). sint (ms_now w') < ready_time w' j
     | Some k \<Rightarrow> k \<in> set (readyList q') \<and> ready_time w' k \<le> sint (ms_now w') \<and>
         (\<forall>j \<in> set (readyList q'). ready_time w' k \<le> ready_time w' j))"
proof -
  note o = q_allocate_order [OF assms(1,3,2)]
  show ?thesis using o getNextMSHR_least [OF o(2)] by (auto split: option.split)
qed

theorem ready_order_witness:
  "\<exists>k q' w'. q_allocate 64 64 1 9 3 (fst sample_queue) (snd sample_queue) = Inr (k, q', w') \<and> readyList q' = [k]"
proof -
  have "\<exists>y. q_allocate 64 64 1 9 3 (fst sample_queue) (snd sample_queue) = Inr y"
    by (rule q_allocate_returns [OF sample_queue_wf, where pkt = "sample_packet ReadReq 1"])
      (auto simp: sample_queue_def MSHRQueue_new_def sample_msys_def sample_packet_def Let_def)
  then obtain k q' w' where run: "q_allocate 64 64 1 9 3 (fst sample_queue) (snd sample_queue) = Inr (k, q', w')"
    by (metis prod.exhaust)
  have "readyList (fst sample_queue) = []" by (simp add: sample_queue_def MSHRQueue_new_def Let_def)
  with ready_order [OF sample_queue_wf _ run] run show ?thesis by auto
qed

text \<open>
  C21: A queue that is not full has at least its reserve of free registers, so that with a
  reserve of one or more an allocation succeeds, for every packet that has a request and
  whose sender is not waiting already.
\<close>

theorem room_to_allocate:
  assumes "queue_wf q w" "\<not> q_isFull q" "1 \<le> numReserve q"
    and "ms_pkts w p = Some pkt" "pk_req pkt = Some r" "ms_reqs w r = Some rq"
    and "\<And>s x. pk_senderState pkt = Some s \<Longrightarrow> ms_mshrs w s = Some x \<Longrightarrow> \<not> m_downstreamPending x"
  shows "numReserve q \<le> int (length (freeList q)) \<and> (\<exists>y. q_allocate a sz p whn ord q w = Inr y)"
proof -
  have "numReserve q \<le> int (length (freeList q))" using queue_room(1) [OF assms(1)] assms(2) by (simp add: q_isFull_def)
  moreover from this have "freeList q \<noteq> []" using assms(3) by auto
  ultimately show ?thesis using q_allocate_returns [OF assms(1) _ assms(4-6)] assms(7) by blast
qed

theorem room_to_allocate_witness:
  "\<exists>y. q_allocate 64 64 1 9 3 (fst sample_queue) (snd sample_queue) = Inr y"
proof -
  have "numReserve (fst sample_queue) \<le> int (length (freeList (fst sample_queue))) \<and>
      (\<exists>y. q_allocate 64 64 1 9 3 (fst sample_queue) (snd sample_queue) = Inr y)"
    by (rule room_to_allocate [OF sample_queue_wf, where pkt = "sample_packet ReadReq 1" and r = 0 and rq = sample_request])
      (auto simp: sample_queue_def MSHRQueue_new_def sample_msys_def sample_packet_def Let_def q_isFull_def)
  then show ?thesis by blast
qed

text \<open>
  Squashing a thread leaves, of the registers of that thread, only those in service, and
  these without targets. For thread 0, the number every register in use has, it succeeds when
  no register of the queue has deferred targets.
\<close>

theorem squash_thread:
  assumes "queue_wf q w"
  shows "(q_squash tn q w = Inr (q', w') \<longrightarrow>
      set (allocatedList q') \<subseteq> set (allocatedList q) \<and> (\<forall>k \<in> set (allocatedList q'). thread_squashed tn w' k)) \<and>
    ((\<forall>k \<in> set (allocatedList q). releasable w k) \<longrightarrow> (\<exists>y. q_squash 0 q w = Inr y))"
proof (intro conjI impI)
  assume run: "q_squash tn q w = Inr (q', w')"
  show "set (allocatedList q') \<subseteq> set (allocatedList q)" "\<forall>k \<in> set (allocatedList q'). thread_squashed tn w' k"
    using squash_loop_spec [of tn "allocatedList q" q w q' w'] run assms by (auto simp: q_squash_def queue_wf_def)
next
  assume "\<forall>k \<in> set (allocatedList q). releasable w k"
  then show "\<exists>y. q_squash 0 q w = Inr y"
    unfolding q_squash_def using assms by (intro squash_loop_total) (auto simp: queue_wf_def)
qed

definition busy_queue :: "mshrq \<times> msys" where
  "busy_queue = (\<lparr>q_label = ''mshrs'', q_registers = [10], allocatedList = [10], readyList = [10], freeList = [],
     numEntries = 1, numReserve = 1, allocated = 1, inServiceEntries = 0, q_index = 0\<rparr>, sample_msys False ReadReq)"

theorem squash_thread_witness:
  "\<exists>q' w'. q_squash 0 (fst busy_queue) (snd busy_queue) = Inr (q', w') \<and> (\<forall>k \<in> set (allocatedList q'). thread_squashed 0 w' k)"
proof -
  have wf: "queue_wf (fst busy_queue) (snd busy_queue)"
    by (auto simp: queue_wf_def busy_queue_def in_service_def sample_msys_def sample_mshr_def)
  have "\<forall>k \<in> set (allocatedList (fst busy_queue)). releasable (snd busy_queue) k"
    using sample_msys_fields(4) [of False]
    by (simp add: busy_queue_def releasable_def sample_msys_def) (simp add: sample_mshr_def TargetList_new_def isReset_def)
  then obtain q' w' where run: "q_squash 0 (fst busy_queue) (snd busy_queue) = Inr (q', w')"
    using squash_thread [OF wf, of 0 "fst busy_queue" "snd busy_queue"] by (metis prod.exhaust)
  with squash_thread [OF wf, of 0 q' w'] show ?thesis by blast
qed

end
