(* ===== verification/Ruby_Events.thy ===== *)
theory Ruby_Events
  imports Simulate "HOL-Library.Signed_Division"
begin

section \<open>Ruby events and consumers\<close>

text \<open>
  Model of \<^verbatim>\<open>src/src/mem/ruby/eventqueue/RubyEventQueue.hh\<close>, \<^verbatim>\<open>RubyEventQueue.cc\<close>,
  \<^verbatim>\<open>RubyEventQueueNode.hh\<close> and \<^verbatim>\<open>src/src/mem/ruby/common/Consumer.hh\<close>, on top of the event queue of
  \<^verbatim>\<open>src/src/sim/eventq.hh\<close>. Ruby counts its time in cycles of its clock. A component that wants to be
  woken up is a consumer; it remembers the cycles for which a wakeup is scheduled, so that a
  second wakeup for a cycle is not scheduled. A wakeup is an event of the event queue that
  deletes itself.

  Consumers are named by numbers. The function \<open>wakeup\<close> of a consumer is virtual, and
  an argument here; so is the allocator of events, as in the simulation loop. The clock
  period is positive.
\<close>

record consumer =
  m_last_scheduled_wakeup :: tick
  m_scheduled_wakeups :: "tick set"
  m_last_wakeup :: tick

record message =
  msg_time :: tick
  msg_LastEnqueueTime :: tick
  msg_DelayedCycles :: "32 word"

record ruby_sys =
  rs_evq :: evq
  rs_clock :: tick
  rs_consumers :: "nat \<Rightarrow> consumer option"
  rs_nodes :: "nat \<Rightarrow> nat option"
  rs_msgs :: "nat \<Rightarrow> message option"
  rs_randomization :: bool
  rs_random :: "nat \<Rightarrow> nat"
  rs_drawn :: nat

definition Consumer_new :: consumer where
  "Consumer_new = \<lparr>m_last_scheduled_wakeup = 0, m_scheduled_wakeups = {}, m_last_wakeup = 0\<rparr>"

definition getLastScheduledWakeup :: "consumer \<Rightarrow> tick" where
  "getLastScheduledWakeup c = m_last_scheduled_wakeup c"

definition setLastScheduledWakeup :: "tick \<Rightarrow> consumer \<Rightarrow> consumer" where
  "setLastScheduledWakeup t c = c\<lparr>m_last_scheduled_wakeup := t\<rparr>"

definition alreadyScheduled :: "tick \<Rightarrow> consumer \<Rightarrow> bool" where
  "alreadyScheduled t c \<longleftrightarrow> t \<in> m_scheduled_wakeups c"

definition insertScheduledWakeupTime :: "tick \<Rightarrow> consumer \<Rightarrow> consumer" where
  "insertScheduledWakeupTime t c = c\<lparr>m_scheduled_wakeups := insert t (m_scheduled_wakeups c)\<rparr>"

definition removeScheduledWakeupTime :: "tick \<Rightarrow> consumer \<Rightarrow> consumer res" where
  "removeScheduledWakeupTime t c = bindR (assertR (alreadyScheduled t c) ''alreadyScheduled(time)'')
     (\<lambda>_. Inr (c\<lparr>m_scheduled_wakeups := m_scheduled_wakeups c - {t}\<rparr>))"

definition get_consumer :: "nat \<Rightarrow> ruby_sys \<Rightarrow> consumer comp" where
  "get_consumer c s = (case rs_consumers s c of None \<Rightarrow> fail BadPtr | Some x \<Rightarrow> ret x)"

definition put_consumer :: "nat \<Rightarrow> consumer \<Rightarrow> ruby_sys \<Rightarrow> ruby_sys" where
  "put_consumer c x s = s\<lparr>rs_consumers := (rs_consumers s)(c \<mapsto> x)\<rparr>"

definition getTime :: "ruby_sys \<Rightarrow> tick" where
  "getTime s = word_of_int (sint (curTick (rs_evq s)) sdiv sint (rs_clock s))"

definition triggerWakeup :: "(nat \<Rightarrow> ruby_sys \<Rightarrow> ruby_sys comp) \<Rightarrow> nat \<Rightarrow> ruby_sys \<Rightarrow> ruby_sys comp" where
  "triggerWakeup wakeup c s = (let time = getTime s in bindC (get_consumer c s) (\<lambda>x.
     if m_last_wakeup x \<noteq> time
     then bindC (wakeup c s) (\<lambda>s1. bindC (get_consumer c s1) (\<lambda>x1. ret (put_consumer c (x1\<lparr>m_last_wakeup := time\<rparr>) s1)))
     else ret s))"

definition RubyEventQueueNode_new :: "nat \<Rightarrow> nat \<Rightarrow> ruby_sys \<Rightarrow> ruby_sys comp" where
  "RubyEventQueueNode_new p c s = bindC (new_at p (new_event Default_Pri) (rs_evq s)) (\<lambda>q1.
     bindC (update_live p (setFlags AutoDelete) q1) (\<lambda>q2.
     ret (s\<lparr>rs_evq := q2, rs_nodes := (rs_nodes s)(p \<mapsto> c)\<rparr>)))"

definition node_process :: "(nat \<Rightarrow> ruby_sys \<Rightarrow> ruby_sys comp) \<Rightarrow> nat \<Rightarrow> ruby_sys \<Rightarrow> ruby_sys comp" where
  "node_process wakeup p s = (case rs_nodes s p of None \<Rightarrow> fail BadPtr
     | Some c \<Rightarrow> bindC (wakeup c s) (\<lambda>s1. bindC (get_consumer c s1) (\<lambda>x.
         bindC (liftC (removeScheduledWakeupTime (getTime s1) x)) (\<lambda>x1. ret (put_consumer c x1 s1)))))"

definition scheduleEventAbsolute :: "((nat \<Rightarrow> event option) \<Rightarrow> nat) \<Rightarrow> nat option \<Rightarrow> tick \<Rightarrow> ruby_sys \<Rightarrow> ruby_sys comp" where
  "scheduleEventAbsolute al co timeAbs s = (case co of None \<Rightarrow> fail (Assert ''consumer != NULL'')
     | Some c \<Rightarrow> bindC (get_consumer c s) (\<lambda>x.
         if alreadyScheduled timeAbs x then ret s
         else let p = al (heap (rs_evq s)) in
           bindC (RubyEventQueueNode_new p c s) (\<lambda>s1.
           if \<not> getTime s1 <s timeAbs then fail (Assert ''timeAbs > getTime()'')
           else bindC (schedule p (timeAbs * rs_clock s1) (rs_evq s1)) (\<lambda>q.
             ret (put_consumer c (insertScheduledWakeupTime timeAbs x) (s1\<lparr>rs_evq := q\<rparr>))))))"

definition scheduleEvent :: "((nat \<Rightarrow> event option) \<Rightarrow> nat) \<Rightarrow> nat option \<Rightarrow> tick \<Rightarrow> ruby_sys \<Rightarrow> ruby_sys comp" where
  "scheduleEvent al co timeDelta s = scheduleEventAbsolute al co (timeDelta + getTime s) s"

subsection \<open>Cycles\<close>

definition clock_ok :: "ruby_sys \<Rightarrow> bool" where
  "clock_ok s \<longleftrightarrow> 0 < sint (rs_clock s) \<and> 0 \<le> sint (curTick (rs_evq s))"

definition in_range :: "tick \<Rightarrow> ruby_sys \<Rightarrow> bool" where
  "in_range t s \<longleftrightarrow> sint (getTime s) < sint t \<and> sint t * sint (rs_clock s) < 2 ^ 63"

lemma sint_bounds64: "- (2 ^ 63) \<le> sint (x :: 64 word)" "sint (x :: 64 word) < 2 ^ 63"
  using sint_ge [of x] sint_lt [of x] by simp_all

lemma sint_of_int64: "- (2 ^ 63) \<le> i \<Longrightarrow> i < 2 ^ 63 \<Longrightarrow> sint (word_of_int i :: 64 word) = i"
  by (simp add: signed_take_bit_int_eq_self sint_sbintrunc')

lemma sdiv_nonneg: "0 \<le> a \<Longrightarrow> 0 < b \<Longrightarrow> a sdiv b = a div b" for a b :: int
  by (cases "a = 0") (simp_all add: signed_divide_int_def)

lemma sint_getTime:
  assumes "clock_ok s"
  shows "sint (getTime s) = sint (curTick (rs_evq s)) div sint (rs_clock s)" "0 \<le> sint (getTime s)"
proof -
  let ?c = "sint (curTick (rs_evq s))" and ?k = "sint (rs_clock s)"
  have k: "0 < ?k" "0 \<le> ?c" using assms by (simp_all add: clock_ok_def)
  then have "0 \<le> ?c div ?k" "?c div ?k \<le> ?c" using zdiv_mono2 [OF k(2), of 1 ?k] by (simp_all add: pos_imp_zdiv_nonneg_iff)
  then have "sint (getTime s) = ?c div ?k"
    unfolding getTime_def sdiv_nonneg [OF k(2,1)] using sint_bounds64 [of "curTick (rs_evq s)"] by (intro sint_of_int64) linarith+
  then show "sint (getTime s) = ?c div ?k" "0 \<le> sint (getTime s)" using \<open>0 \<le> ?c div ?k\<close> by simp_all
qed

lemma sint_wake_tick:
  assumes "clock_ok s" "in_range t s"
  shows "sint (t * rs_clock s) = sint t * sint (rs_clock s)" "curTick (rs_evq s) \<le> t * rs_clock s"
    "sint (curTick (rs_evq s)) < sint (t * rs_clock s)"
proof -
  let ?c = "sint (curTick (rs_evq s))" and ?k = "sint (rs_clock s)"
  have k: "0 < ?k" "0 \<le> ?c" using assms(1) by (simp_all add: clock_ok_def)
  have t: "?c div ?k < sint t" "sint t * ?k < 2 ^ 63" "0 \<le> sint t"
    using assms sint_getTime [OF assms(1)] by (simp_all add: in_range_def)
  have "t * rs_clock s = word_of_int (sint t * ?k)" by simp
  moreover have "0 \<le> sint t * ?k" using t k by simp
  ultimately show e: "sint (t * rs_clock s) = sint t * ?k" using t(2) by (metis sint_of_int64 order_trans neg_le_0_iff_le zero_le_numeral zero_le_power)
  have "?c = ?c div ?k * ?k + ?c mod ?k" by simp
  also have "\<dots> < ?c div ?k * ?k + ?k" using pos_mod_bound [OF k(1), of ?c] by (simp only: add_strict_left_mono)
  also have "\<dots> = (?c div ?k + 1) * ?k" by (simp add: distrib_right)
  also have "\<dots> \<le> sint t * ?k" using t(1) k(1) by (intro mult_right_mono) auto
  finally show lt: "?c < sint (t * rs_clock s)" using e by simp
  then show "curTick (rs_evq s) \<le> t * rs_clock s"
    using k(2) uint_nonneg_signed [of "curTick (rs_evq s)"] uint_nonneg_signed [of "t * rs_clock s"]
    by (simp add: word_le_def word_sle_eq)
qed

lemma wake_tick_cycle:
  assumes "clock_ok s" "in_range t s"
  shows "getTime (s\<lparr>rs_evq := (rs_evq s)\<lparr>curTick := t * rs_clock s\<rparr>\<rparr>) = t"
proof -
  let ?s = "s\<lparr>rs_evq := (rs_evq s)\<lparr>curTick := t * rs_clock s\<rparr>\<rparr>"
  note w = sint_wake_tick [OF assms]
  have "clock_ok ?s" using assms(1) w(3) by (simp add: clock_ok_def)
  then have "sint (getTime ?s) = sint t"
    using w(1) assms(1) by (simp add: sint_getTime clock_ok_def)
  then show ?thesis by (simp add: signed_word_eqI)
qed

subsection \<open>Scheduling a wakeup\<close>

lemma wake_event:
  "setFlags AutoDelete (new_event p) = Inr ((new_event p)\<lparr>e_flags := fl_set Initialized AutoDelete\<rparr>)"
  "\<not> scheduled ((new_event p)\<lparr>e_flags := fl_set Initialized AutoDelete\<rparr>)"
  "initialized ((new_event p)\<lparr>e_flags := fl_set Initialized AutoDelete\<rparr>)"
  by (simp_all add: setFlags_def new_event_def fl_noneSet_def AutoDelete_def PublicWrite_def scheduled_def fl_isSet_def
      Scheduled_def initialized_def Initialized_def InitMask_def fl_set_def)

lemma scheduleEventAbsolute_ok:
  assumes q: "agenda (rs_evq s) xs" and c: "rs_consumers s c = Some x" and t: "clock_ok s" "in_range t s"
    and fresh: "heap (rs_evq s) (al (heap (rs_evq s))) = None" and new: "t \<notin> m_scheduled_wakeups x"
  shows "\<exists>q'. scheduleEventAbsolute al (Some c) t s =
      ret (s\<lparr>rs_evq := q', rs_nodes := (rs_nodes s)(al (heap (rs_evq s)) \<mapsto> c),
        rs_consumers := (rs_consumers s)(c \<mapsto> x\<lparr>m_scheduled_wakeups := insert t (m_scheduled_wakeups x)\<rparr>)\<rparr>) \<and>
    agenda q' (insort_key snd (al (heap (rs_evq s)), sint t * sint (rs_clock s), 0) xs) \<and>
    curTick q' = curTick (rs_evq s) \<and> dom (heap q') \<subseteq> insert (al (heap (rs_evq s))) (dom (heap (rs_evq s)))"
proof -
  define p where "p = al (heap (rs_evq s))"
  let ?e = "(new_event Default_Pri)\<lparr>e_flags := fl_set Initialized AutoDelete\<rparr>"
  let ?q = "(rs_evq s)\<lparr>heap := (heap (rs_evq s))(p \<mapsto> ?e)\<rparr>"
  let ?s = "s\<lparr>rs_evq := ?q, rs_nodes := (rs_nodes s)(p \<mapsto> c)\<rparr>"
  have f: "heap (rs_evq s) p = None" using fresh by (simp add: p_def)
  then have "p \<notin> fst ` set xs" using agenda_event [OF q] by fastforce
  then have ag: "agenda ?q xs" by (rule agenda_heap_off [OF q])
  have new1: "RubyEventQueueNode_new p c s = ret ?s"
    using f wake_event(1) by (simp add: RubyEventQueueNode_new_def new_at_def update_live_def deref_def liftC_def upd_def)
  have time: "getTime ?s = getTime s" "rs_clock ?s = rs_clock s" by (simp_all add: getTime_def)
  note w = sint_wake_tick [OF t]
  have "heap ?q p = Some ?e" "curTick ?q \<le> t * rs_clock s" using w(2) by simp_all
  from schedule_agenda [OF ag this(1) wake_event(2,3) this(2)] obtain q' where
    q': "schedule p (t * rs_clock s) ?q = ret q'" "others p ?q q'"
      "agenda q' (insort_key snd (p, sint (t * rs_clock s), sint (e_priority ?e)) xs)" by blast
  have "scheduleEventAbsolute al (Some c) t s = ret (put_consumer c (insertScheduledWakeupTime t x) (?s\<lparr>rs_evq := q'\<rparr>))"
    using c new new1 time q'(1) t(2)
    by (simp add: scheduleEventAbsolute_def get_consumer_def alreadyScheduled_def p_def [symmetric] in_range_def word_sless_alt)
  moreover have "sint (e_priority ?e) = 0" by (simp add: new_event_def Default_Pri_def)
  moreover have "dom (heap q') \<subseteq> insert p (dom (heap (rs_evq s)))"
  proof (rule subsetI, rule ccontr)
    fix r
    assume r: "r \<in> dom (heap q')" "r \<notin> insert p (dom (heap (rs_evq s)))"
    then have "map_option ev_data (heap q' r) = map_option ev_data (heap ?q r)" using q'(2) by (simp add: others_def)
    moreover have "heap ?q r = None" using r(2) by (simp add: domIff)
    ultimately show False using r(1) by auto
  qed
  ultimately show ?thesis
    using q'(2,3) w(1) c unfolding p_def [symmetric]
    by (intro exI [of _ q']) (simp add: put_consumer_def insertScheduledWakeupTime_def others_def)
qed

text \<open>
  The cycles a consumer remembers as scheduled and the agenda belong together: for each such
  cycle still to come the agenda has an event of the consumer at the tick at which the cycle
  begins. Scheduling keeps this, and so does taking out the first event of the agenda.
\<close>

definition wakeups_ok :: "ruby_sys \<Rightarrow> (nat \<times> int \<times> int) list \<Rightarrow> bool" where
  "wakeups_ok s xs \<longleftrightarrow> (\<forall>c x t. rs_consumers s c = Some x \<and> t \<in> m_scheduled_wakeups x \<and> sint (getTime s) < sint t \<longrightarrow>
     (\<exists>p. rs_nodes s p = Some c \<and> (p, sint t * sint (rs_clock s), 0) \<in> set xs))"

lemma scheduleEventAbsolute_wakes:
  assumes q: "agenda (rs_evq s) xs" "wakeups_ok s xs" and c: "rs_consumers s c = Some x" and t: "clock_ok s" "in_range t s"
    and fresh: "t \<in> m_scheduled_wakeups x \<or> heap (rs_evq s) (al (heap (rs_evq s))) = None"
  shows "\<exists>s' xs'. scheduleEventAbsolute al (Some c) t s = ret s' \<and> agenda (rs_evq s') xs' \<and> wakeups_ok s' xs' \<and>
    xs' = (if t \<in> m_scheduled_wakeups x then xs
      else insort_key snd (al (heap (rs_evq s)), sint t * sint (rs_clock s), 0) xs) \<and>
    rs_consumers s' = (rs_consumers s)(c \<mapsto> x\<lparr>m_scheduled_wakeups := insert t (m_scheduled_wakeups x)\<rparr>) \<and>
    curTick (rs_evq s') = curTick (rs_evq s) \<and> rs_clock s' = rs_clock s \<and> rs_msgs s' = rs_msgs s \<and>
    rs_randomization s' = rs_randomization s \<and> dom (heap (rs_evq s')) \<subseteq> insert (al (heap (rs_evq s))) (dom (heap (rs_evq s)))"
proof (cases "t \<in> m_scheduled_wakeups x")
  case True
  then have "scheduleEventAbsolute al (Some c) t s = ret s" using c
    by (simp add: scheduleEventAbsolute_def get_consumer_def alreadyScheduled_def)
  moreover have "x\<lparr>m_scheduled_wakeups := insert t (m_scheduled_wakeups x)\<rparr> = x" using True by (simp add: insert_absorb)
  ultimately show ?thesis using True q c by (intro exI [of _ s] exI [of _ xs]) (simp add: fun_upd_idem subset_insertI)
next
  case False
  let ?p = "al (heap (rs_evq s))" and ?x = "x\<lparr>m_scheduled_wakeups := insert t (m_scheduled_wakeups x)\<rparr>"
  let ?xs = "insort_key snd (?p, sint t * sint (rs_clock s), 0) xs"
  have f: "heap (rs_evq s) ?p = None" using fresh False by blast
  obtain q' where q': "scheduleEventAbsolute al (Some c) t s =
      ret (s\<lparr>rs_evq := q', rs_nodes := (rs_nodes s)(?p \<mapsto> c), rs_consumers := (rs_consumers s)(c \<mapsto> ?x)\<rparr>)" (is "_ = ret ?s")
      "agenda q' ?xs" "curTick q' = curTick (rs_evq s)" "dom (heap q') \<subseteq> insert ?p (dom (heap (rs_evq s)))"
    using scheduleEventAbsolute_ok [where al = al, OF q(1) c t f False] by blast
  have off: "p \<noteq> ?p" if "(p, k) \<in> set xs" for p k using agenda_event [OF q(1) that] f by auto
  have time: "getTime ?s = getTime s" using q'(3) by (simp add: getTime_def)
  have "wakeups_ok ?s ?xs"
    unfolding wakeups_ok_def
  proof (intro allI impI, elim conjE)
    fix d y u
    assume a: "rs_consumers ?s d = Some y" "u \<in> m_scheduled_wakeups y" "sint (getTime ?s) < sint u"
    show "\<exists>p. rs_nodes ?s p = Some d \<and> (p, sint u * sint (rs_clock ?s), 0) \<in> set ?xs"
    proof (cases "d = c \<and> u = t")
      case True
      then show ?thesis by (intro exI [of _ ?p]) (simp add: set_insort_key)
    next
      case other: False
      then obtain z where "rs_consumers s d = Some z" "u \<in> m_scheduled_wakeups z" using a(1,2) c by (auto split: if_splits)
      then obtain p where "rs_nodes s p = Some d" "(p, sint u * sint (rs_clock s), 0) \<in> set xs"
        using q(2) a(3) unfolding time wakeups_ok_def by blast
      then show ?thesis using off by (intro exI [of _ p]) (auto simp: set_insort_key)
    qed
  qed
  then show ?thesis using q' False by (intro exI [of _ ?s] exI [of _ ?xs]) simp
qed

lemma wakeups_ok_advance:
  assumes w: "wakeups_ok s ((p, T, pri) # xs)" and t: "clock_ok s" "sint (curTick (rs_evq s)) \<le> T" "sint (curTick q) = T"
  shows "wakeups_ok (s\<lparr>rs_evq := q\<rparr>) xs"
proof -
  let ?s = "s\<lparr>rs_evq := q\<rparr>" and ?k = "sint (rs_clock s)"
  have k: "0 < ?k" "clock_ok ?s" using t by (simp_all add: clock_ok_def)
  have now: "sint (getTime ?s) = T div ?k" "sint (getTime s) \<le> T div ?k"
    using sint_getTime(1) [OF k(2)] sint_getTime(1) [OF t(1)] t(2,3) k(1) by (simp_all add: zdiv_mono1)
  show ?thesis
    unfolding wakeups_ok_def
  proof (intro allI impI, elim conjE)
    fix c x u
    assume a: "rs_consumers ?s c = Some x" "u \<in> m_scheduled_wakeups x" "sint (getTime ?s) < sint u"
    then obtain p' where p': "rs_nodes s p' = Some c" "(p', sint u * ?k, 0) \<in> set ((p, T, pri) # xs)"
      using w now unfolding wakeups_ok_def by force
    moreover have "sint u * ?k \<noteq> T" using a(3) now(1) k(1) by auto
    ultimately show "\<exists>p. rs_nodes ?s p = Some c \<and> (p, sint u * sint (rs_clock ?s), 0) \<in> set xs" by auto
  qed
qed

subsection \<open>Properties\<close>

text \<open>
  C29: A wakeup for a later cycle puts one event into the agenda of the event queue, at the tick at
  which that cycle begins; a second wakeup of the consumer for the cycle changes nothing. When
  the event is processed at its tick, the cycle is the one asked for, and afterwards the
  consumer is as before, if its own wakeup leaves its set of scheduled cycles alone.
\<close>

theorem wakeup_round_trip:
  assumes "agenda (rs_evq s) xs" "rs_consumers s c = Some x" "clock_ok s" "in_range t s"
    and "p = al (heap (rs_evq s))" "heap (rs_evq s) p = None" "t \<notin> m_scheduled_wakeups x"
  shows "\<exists>s1. scheduleEventAbsolute al (Some c) t s = ret s1 \<and>
    agenda (rs_evq s1) (insort_key snd (p, sint t * sint (rs_clock s), 0) xs) \<and>
    scheduleEventAbsolute al (Some c) t s1 = ret s1 \<and>
    (let s2 = s1\<lparr>rs_evq := (rs_evq s1)\<lparr>curTick := t * rs_clock s\<rparr>\<rparr> in getTime s2 = t \<and>
      (\<forall>wakeup s3. wakeup c s2 = ret s3 \<longrightarrow> getTime s3 = t \<longrightarrow> rs_consumers s3 = rs_consumers s2 \<longrightarrow>
        (\<exists>s4. node_process wakeup p s2 = ret s4 \<and> rs_consumers s4 = rs_consumers s)))"
proof -
  let ?x = "x\<lparr>m_scheduled_wakeups := insert t (m_scheduled_wakeups x)\<rparr>"
  have fresh: "heap (rs_evq s) (al (heap (rs_evq s))) = None" using assms(5,6) by simp
  obtain q' where q': "scheduleEventAbsolute al (Some c) t s =
      ret (s\<lparr>rs_evq := q', rs_nodes := (rs_nodes s)(p \<mapsto> c), rs_consumers := (rs_consumers s)(c \<mapsto> ?x)\<rparr>)" (is "_ = ret ?s1")
      "agenda q' (insort_key snd (p, sint t * sint (rs_clock s), 0) xs)" "curTick q' = curTick (rs_evq s)"
    using scheduleEventAbsolute_ok [where al = al, OF assms(1-4) fresh assms(7)] assms(5) by auto
  have ok: "clock_ok ?s1" "in_range t ?s1" using assms(3,4) q'(3) by (simp_all add: clock_ok_def in_range_def getTime_def)
  have again: "scheduleEventAbsolute al (Some c) t ?s1 = ret ?s1"
    by (simp add: scheduleEventAbsolute_def get_consumer_def alreadyScheduled_def)
  have cons: "(rs_consumers s)(c \<mapsto> x) = rs_consumers s" using assms(2) by (simp add: fun_upd_idem)
  let ?s2 = "?s1\<lparr>rs_evq := q'\<lparr>curTick := t * rs_clock s\<rparr>\<rparr>"
  have cyc: "getTime ?s2 = t" using wake_tick_cycle [OF ok] by simp
  have "\<exists>s4. node_process wakeup p ?s2 = ret s4 \<and> rs_consumers s4 = rs_consumers s"
    if "wakeup c ?s2 = ret s3" "getTime s3 = t" "rs_consumers s3 = rs_consumers ?s2" for wakeup s3
    using that cons assms(7)
    by (simp add: node_process_def get_consumer_def removeScheduledWakeupTime_def alreadyScheduled_def liftC_def put_consumer_def)
  with q' again cyc show ?thesis by (intro exI [of _ ?s1]) (auto simp: Let_def)
qed

definition sample_ruby :: ruby_sys where
  "sample_ruby = \<lparr>rs_evq = idle_queue, rs_clock = 10, rs_consumers = [1 \<mapsto> Consumer_new], rs_nodes = (\<lambda>_. None),
     rs_msgs = [5 \<mapsto> \<lparr>msg_time = 0, msg_LastEnqueueTime = 0, msg_DelayedCycles = 0\<rparr>,
       6 \<mapsto> \<lparr>msg_time = 0, msg_LastEnqueueTime = 0, msg_DelayedCycles = 0\<rparr>],
     rs_randomization = False, rs_random = (\<lambda>_. 0), rs_drawn = 0\<rparr>"

lemma sample_ruby_fields:
  "agenda (rs_evq sample_ruby) []" "clock_ok sample_ruby" "getTime sample_ruby = 0" "in_range 3 sample_ruby"
  "heap (rs_evq sample_ruby) 77 = None" "wakeups_ok sample_ruby []"
  by (simp_all add: sample_ruby_def idle_queue_def agenda_empty clock_ok_def getTime_def in_range_def wakeups_ok_def Consumer_new_def)

theorem wakeup_round_trip_witness:
  "\<exists>s1. scheduleEventAbsolute (\<lambda>_. 77) (Some 1) 3 sample_ruby = ret s1 \<and> agenda (rs_evq s1) [(77, 30, 0)]"
  using wakeup_round_trip [of sample_ruby "[]" 1 Consumer_new 3 77 "\<lambda>_. 77"] sample_ruby_fields
  by (auto simp: sample_ruby_def Consumer_new_def)

end
