(* ===== verification/Ruby_Vector.thy ===== *)
theory Ruby_Vector
  imports M5_Prelude
begin

section \<open>The growing array of the Ruby components\<close>

text \<open>
  Model of \<^verbatim>\<open>src/src/mem/gems_common/Vector.hh\<close>. A vector owns an array, of which the first
  \<open>m_size\<close> elements are in use; \<open>m_max_size\<close> is the length of the array. New array elements are
  default constructed, which is the argument \<open>d\<close>. The flag \<open>chk\<close> tells whether the build has
  the bounds checks that \<^verbatim>\<open>NO_VECTOR_BOUNDS_CHECKS\<close> removes; without them an access outside of the
  array is an invalid access. Sizes and indices are natural numbers.

  The lemmas show that every operation is the expected one on the list of the elements in
  use, with or without the checks, and that no access leaves the array.
\<close>

record 'a vector =
  vec_mem :: "'a list"
  vec_size :: nat

definition Vector_new :: "'a vector" where
  "Vector_new = \<lparr>vec_mem = [], vec_size = 0\<rparr>"

definition grow :: "'a \<Rightarrow> nat \<Rightarrow> 'a vector \<Rightarrow> 'a vector res" where
  "grow d new_max v = (if vec_size v \<le> new_max \<and> vec_size v \<le> length (vec_mem v)
     then Inr (v\<lparr>vec_mem := take (vec_size v) (vec_mem v) @ replicate (new_max - vec_size v) d\<rparr>)
     else Inl BadPtr)"

definition Vector_init :: "'a \<Rightarrow> nat \<Rightarrow> 'a vector res" where
  "Vector_init d initial_size = grow d initial_size Vector_new"

definition in_bounds :: "bool \<Rightarrow> nat \<Rightarrow> 'a vector \<Rightarrow> unit res" where
  "in_bounds chk i v = bindR (assertR (chk \<longrightarrow> vec_size v \<noteq> 0) ''m_size != 0'') (\<lambda>_.
     bindR (assertR (chk \<longrightarrow> i < vec_size v) ''index < m_size'') (\<lambda>_.
     if i < length (vec_mem v) then Inr () else Inl BadPtr))"

definition vec_ref :: "bool \<Rightarrow> nat \<Rightarrow> 'a vector \<Rightarrow> 'a res" where
  "vec_ref chk i v = bindR (in_bounds chk i v) (\<lambda>_. Inr (vec_mem v ! i))"

definition vec_put :: "bool \<Rightarrow> nat \<Rightarrow> 'a \<Rightarrow> 'a vector \<Rightarrow> 'a vector res" where
  "vec_put chk i x v = bindR (in_bounds chk i v) (\<lambda>_. Inr (v\<lparr>vec_mem := (vec_mem v)[i := x]\<rparr>))"

definition vec_setSize :: "bool \<Rightarrow> 'a \<Rightarrow> nat \<Rightarrow> 'a vector \<Rightarrow> 'a vector res" where
  "vec_setSize chk d new_size v =
     bindR (if new_size > length (vec_mem v) then grow d (max ((length (vec_mem v) + 1) * 2) new_size) v else Inr v) (\<lambda>v1.
     bindR (assertR (chk \<longrightarrow> new_size \<le> length (vec_mem v1)) ''m_size <= m_max_size'') (\<lambda>_.
     Inr (v1\<lparr>vec_size := new_size\<rparr>)))"

definition vec_expand :: "bool \<Rightarrow> 'a \<Rightarrow> nat \<Rightarrow> 'a vector \<Rightarrow> 'a vector res" where
  "vec_expand chk d num v = vec_setSize chk d (vec_size v + num) v"

fun fill_slots :: "bool \<Rightarrow> 'a \<Rightarrow> nat list \<Rightarrow> 'a vector \<Rightarrow> 'a vector res" where
  "fill_slots chk x [] v = Inr v"
| "fill_slots chk x (j # js) v = bindR (vec_put chk j x v) (fill_slots chk x js)"

definition increaseSize :: "bool \<Rightarrow> 'a \<Rightarrow> nat \<Rightarrow> 'a \<Rightarrow> 'a vector \<Rightarrow> 'a vector res" where
  "increaseSize chk d new_size reset v = bindR (assertR (new_size \<ge> vec_size v) ''new_size >= m_size'') (\<lambda>_.
     bindR (if new_size \<ge> length (vec_mem v) then grow d (max ((length (vec_mem v) + 1) * 2) new_size) v else Inr v) (\<lambda>v1.
     bindR (fill_slots chk reset [vec_size v..<new_size] (v1\<lparr>vec_size := new_size\<rparr>)) (\<lambda>v2.
     bindR (assertR (chk \<longrightarrow> vec_size v2 \<le> length (vec_mem v2)) ''m_size <= m_max_size'') (\<lambda>_. Inr v2))))"

definition vec_clear :: "'a vector \<Rightarrow> 'a vector" where
  "vec_clear v = \<lparr>vec_mem = [], vec_size = 0\<rparr>"

fun shift_up :: "bool \<Rightarrow> nat \<Rightarrow> 'a vector \<Rightarrow> 'a vector res" where
  "shift_up chk 0 v = Inr v"
| "shift_up chk (Suc i) v = bindR (vec_ref chk i v) (\<lambda>x. bindR (vec_put chk (Suc i) x v) (shift_up chk i))"

definition insertAtTop :: "bool \<Rightarrow> 'a \<Rightarrow> 'a \<Rightarrow> 'a vector \<Rightarrow> 'a vector res" where
  "insertAtTop chk d x v = bindR (vec_setSize chk d (vec_size v + 1) v) (\<lambda>v1.
     bindR (shift_up chk (vec_size v1 - 1) v1) (\<lambda>v2. vec_put chk 0 x v2))"

fun move_down :: "nat \<Rightarrow> nat list \<Rightarrow> 'a vector \<Rightarrow> 'a vector res" where
  "move_down num [] v = Inr v"
| "move_down num (i # is) v = (if i + num < length (vec_mem v)
     then move_down num is (v\<lparr>vec_mem := (vec_mem v)[i := vec_mem v ! (i + num)]\<rparr>) else Inl BadPtr)"

definition removeFromTop :: "nat \<Rightarrow> 'a vector \<Rightarrow> 'a vector res" where
  "removeFromTop num v = (let n = (if num > vec_size v then vec_size v else num) in
     bindR (move_down n [0..<vec_size v - n] v) (\<lambda>v1. Inr (v1\<lparr>vec_size := vec_size v1 - n\<rparr>)))"

definition insertAtBottom :: "bool \<Rightarrow> 'a \<Rightarrow> 'a \<Rightarrow> 'a vector \<Rightarrow> 'a vector res" where
  "insertAtBottom chk d x v = bindR (vec_setSize chk d (vec_size v + 1) v) (\<lambda>v1. vec_put chk (vec_size v1 - 1) x v1)"

fun sum_from :: "('a \<Rightarrow> 'a \<Rightarrow> 'a) \<Rightarrow> bool \<Rightarrow> nat list \<Rightarrow> 'a \<Rightarrow> 'a vector \<Rightarrow> 'a res" where
  "sum_from add chk [] s v = Inr s"
| "sum_from add chk (i # is) s v = bindR (vec_ref chk i v) (\<lambda>x. sum_from add chk is (add s x) v)"

definition vec_sum :: "('a \<Rightarrow> 'a \<Rightarrow> 'a) \<Rightarrow> bool \<Rightarrow> 'a vector \<Rightarrow> 'a res" where
  "vec_sum add chk v = bindR (assertR (vec_size v > 0) ''m_size > 0'') (\<lambda>_. bindR (vec_ref chk 0 v) (\<lambda>s.
     sum_from add chk [1..<vec_size v] s v))"

definition Vector_copy :: "'a \<Rightarrow> 'a vector \<Rightarrow> 'a vector res" where
  "Vector_copy d v = (if vec_size v \<le> length (vec_mem v)
     then Inr \<lparr>vec_mem = take (vec_size v) (vec_mem v) @ replicate (length (vec_mem v) - vec_size v) d, vec_size = vec_size v\<rparr>
     else Inl BadPtr)"

subsection \<open>The elements in use\<close>

definition vec_ok :: "'a vector \<Rightarrow> bool" where
  "vec_ok v \<longleftrightarrow> vec_size v \<le> length (vec_mem v)"

definition contents :: "'a vector \<Rightarrow> 'a list" where
  "contents v = take (vec_size v) (vec_mem v)"

lemma length_contents [simp]: "vec_ok v \<Longrightarrow> length (contents v) = vec_size v"
  by (simp add: vec_ok_def contents_def)

lemma vec_ref_ok [simp]: "vec_ok v \<Longrightarrow> i < vec_size v \<Longrightarrow> vec_ref chk i v = Inr (contents v ! i)"
  by (simp add: vec_ref_def in_bounds_def contents_def vec_ok_def)

lemma vec_put_ok:
  assumes "vec_ok v" "i < vec_size v"
  shows "\<exists>v'. vec_put chk i x v = Inr v' \<and> vec_ok v' \<and> vec_size v' = vec_size v \<and> contents v' = (contents v)[i := x]"
  using assms by (simp add: vec_put_def in_bounds_def contents_def vec_ok_def take_update_swap)

lemma grow_ok: "vec_ok v \<Longrightarrow> vec_size v \<le> n \<Longrightarrow>
    \<exists>v'. grow d n v = Inr v' \<and> length (vec_mem v') = n \<and> vec_size v' = vec_size v \<and> contents v' = contents v"
  by (simp add: grow_def vec_ok_def contents_def)

lemma vec_setSize_ok:
  assumes "vec_ok v"
  obtains v' where "vec_setSize chk d n v = Inr v'" "vec_ok v'" "vec_size v' = n"
    "take (vec_size v) (contents v') = take n (contents v)"
proof (cases "n > length (vec_mem v)")
  case True
  define g where "g = max ((length (vec_mem v) + 1) * 2) n"
  have "vec_size v \<le> g" using assms by (simp add: g_def vec_ok_def)
  from grow_ok [OF assms this] obtain v1 where v1: "grow d g v = Inr v1" "length (vec_mem v1) = g"
      "vec_size v1 = vec_size v" "contents v1 = contents v" by blast
  show ?thesis
    using v1 True assms by (intro that [of "v1\<lparr>vec_size := n\<rparr>"])
      (auto simp: vec_setSize_def vec_ok_def contents_def g_def [symmetric] min_def, auto simp: g_def)
next
  case False
  then show ?thesis using assms
    by (intro that [of "v\<lparr>vec_size := n\<rparr>"]) (auto simp: vec_setSize_def vec_ok_def contents_def min.commute)
qed

lemma setSize_grow:
  assumes "vec_ok v" "vec_size v \<le> n"
  obtains v' ys where "vec_setSize chk d n v = Inr v'" "vec_ok v'" "vec_size v' = n"
    "contents v' = contents v @ ys" "length ys = n - vec_size v"
proof -
  obtain v' where v': "vec_setSize chk d n v = Inr v'" "vec_ok v'" "vec_size v' = n"
    "take (vec_size v) (contents v') = take n (contents v)" using vec_setSize_ok [OF assms(1)] .
  have "contents v' = take (vec_size v) (contents v') @ drop (vec_size v) (contents v')" by simp
  then show ?thesis using v' assms by (intro that [of v' "drop (vec_size v) (contents v')"]) auto
qed

lemma setSize_Suc:
  assumes "vec_ok v"
  obtains v' y where "vec_setSize chk d (vec_size v + 1) v = Inr v'" "vec_ok v'" "vec_size v' = Suc (vec_size v)"
    "contents v' = contents v @ [y]"
proof -
  obtain v' ys where v': "vec_setSize chk d (vec_size v + 1) v = Inr v'" "vec_ok v'" "vec_size v' = vec_size v + 1"
    "contents v' = contents v @ ys" "length ys = vec_size v + 1 - vec_size v"
    by (rule setSize_grow [OF assms, of "vec_size v + 1" chk d]) simp_all
  then obtain y where "ys = [y]" by (cases ys) auto
  with v' show ?thesis using that by simp
qed

lemma insertAtBottom_ok:
  assumes "vec_ok v"
  shows "\<exists>v'. insertAtBottom chk d x v = Inr v' \<and> vec_ok v' \<and> contents v' = contents v @ [x]"
proof -
  obtain v1 y where v1: "vec_setSize chk d (vec_size v + 1) v = Inr v1" "vec_ok v1" "vec_size v1 = Suc (vec_size v)"
    "contents v1 = contents v @ [y]" using setSize_Suc [OF assms] .
  obtain v2 where v2: "vec_put chk (vec_size v) x v1 = Inr v2" "vec_ok v2" "contents v2 = (contents v1)[vec_size v := x]"
    using vec_put_ok [OF v1(2), of "vec_size v"] v1(3) by auto
  then show ?thesis using v1 assms by (simp add: insertAtBottom_def list_update_append)
qed

lemma shift_up_ok:
  "vec_ok v \<Longrightarrow> i < vec_size v \<Longrightarrow> \<exists>v'. shift_up chk i v = Inr v' \<and> vec_ok v' \<and> vec_size v' = vec_size v \<and>
     contents v' = take 1 (contents v) @ take i (contents v) @ drop (Suc i) (contents v)"
proof (induction i arbitrary: v)
  case 0
  then have "contents v \<noteq> []" by (metis length_contents length_greater_0_conv)
  then show ?case using 0 by (cases "contents v") auto
next
  case (Suc i)
  then obtain v1 where v1: "vec_put chk (Suc i) (contents v ! i) v = Inr v1" "vec_ok v1" "vec_size v1 = vec_size v"
      "contents v1 = (contents v)[Suc i := contents v ! i]" using vec_put_ok [of v "Suc i"] by blast
  then obtain v' where v': "shift_up chk i v1 = Inr v'" "vec_ok v'" "vec_size v' = vec_size v1"
      "contents v' = take 1 (contents v1) @ take i (contents v1) @ drop (Suc i) (contents v1)"
    using Suc.IH [of v1] Suc.prems by auto
  have "take 1 (contents v1) @ take i (contents v1) @ drop (Suc i) (contents v1) =
      take 1 (contents v) @ take (Suc i) (contents v) @ drop (Suc (Suc i)) (contents v)"
    using Suc.prems unfolding v1(4)
    by (simp add: take_Suc_conv_app_nth drop_update_cancel drop_update_swap Cons_nth_drop_Suc [symmetric])
  then show ?case using v1 v' Suc.prems by auto
qed

lemma insertAtTop_ok:
  assumes "vec_ok v"
  shows "\<exists>v'. insertAtTop chk d x v = Inr v' \<and> vec_ok v' \<and> contents v' = x # contents v"
proof -
  obtain v1 y where v1: "vec_setSize chk d (vec_size v + 1) v = Inr v1" "vec_ok v1" "vec_size v1 = Suc (vec_size v)"
    "contents v1 = contents v @ [y]" using setSize_Suc [OF assms] .
  obtain v2 where v2: "shift_up chk (vec_size v) v1 = Inr v2" "vec_ok v2" "vec_size v2 = vec_size v1"
      "contents v2 = take 1 (contents v1) @ take (vec_size v) (contents v1) @ drop (Suc (vec_size v)) (contents v1)"
    using shift_up_ok [OF v1(2), of "vec_size v" chk] v1(3) by auto
  have c: "contents v2 = take 1 (contents v1) @ contents v" using v1(4) assms by (simp add: v2(4))
  obtain v3 where v3: "vec_put chk 0 x v2 = Inr v3" "vec_ok v3" "contents v3 = (contents v2)[0 := x]"
    using vec_put_ok [OF v2(2), of 0] v2(3) v1(3) by auto
  have "contents v1 \<noteq> []" using v1(4) by simp
  then have "contents v3 = x # contents v" using c v3(3) by (cases "contents v1") auto
  with v1 v2 v3 show ?thesis by (simp add: insertAtTop_def)
qed

lemma move_down_ok:
  "n + k \<le> length (vec_mem v) \<Longrightarrow> \<exists>v'. move_down k [0..<n] v = Inr v' \<and> vec_size v' = vec_size v \<and>
     length (vec_mem v') = length (vec_mem v) \<and> take n (vec_mem v') = take n (drop k (vec_mem v)) \<and>
     (\<forall>j. n \<le> j \<longrightarrow> j < length (vec_mem v) \<longrightarrow> vec_mem v' ! j = vec_mem v ! j)"
proof (induction n)
  case (Suc n)
  then obtain v' where v': "move_down k [0..<n] v = Inr v'" "vec_size v' = vec_size v"
     "length (vec_mem v') = length (vec_mem v)" "take n (vec_mem v') = take n (drop k (vec_mem v))"
     "\<forall>j. n \<le> j \<longrightarrow> j < length (vec_mem v) \<longrightarrow> vec_mem v' ! j = vec_mem v ! j" by auto
  have app: "move_down k (is @ js) w = bindR (move_down k is w) (move_down k js)" for "is" js and w :: "'a vector"
    by (induction "is" arbitrary: w) auto
  show ?case
    using Suc.prems v' by (intro exI [of _ "v'\<lparr>vec_mem := (vec_mem v')[n := vec_mem v' ! (n + k)]\<rparr>"])
      (auto simp: app take_Suc_conv_app_nth add.commute nth_list_update)
qed simp

lemma removeFromTop_ok:
  assumes "vec_ok v"
  shows "\<exists>v'. removeFromTop k v = Inr v' \<and> vec_ok v' \<and> contents v' = drop k (contents v)"
proof -
  define n where "n = (if k > vec_size v then vec_size v else k)"
  have "vec_size v - n + n \<le> length (vec_mem v)" using assms by (simp add: n_def vec_ok_def)
  from move_down_ok [OF this] obtain v1 where v1: "move_down n [0..<vec_size v - n] v = Inr v1"
      "vec_size v1 = vec_size v" "length (vec_mem v1) = length (vec_mem v)"
      "take (vec_size v - n) (vec_mem v1) = take (vec_size v - n) (drop n (vec_mem v))" by blast
  then show ?thesis using assms
    by (auto simp: removeFromTop_def n_def [symmetric] Let_def vec_ok_def contents_def drop_take) (auto simp: n_def)
qed

lemma fill_slots_ok:
  "vec_ok v \<Longrightarrow> n + k = vec_size v \<Longrightarrow> \<exists>v'. fill_slots chk x [n..<vec_size v] v = Inr v' \<and> vec_ok v' \<and>
     contents v' = take n (contents v) @ replicate k x \<and> vec_size v' = vec_size v"
proof (induction k arbitrary: n v)
  case (Suc k)
  have n: "n < vec_size v" using Suc.prems by simp
  obtain v1 where v1: "vec_put chk n x v = Inr v1" "vec_ok v1" "vec_size v1 = vec_size v" "contents v1 = (contents v)[n := x]"
    using vec_put_ok [OF Suc.prems(1) n] by blast
  then obtain v' where v': "fill_slots chk x [Suc n..<vec_size v1] v1 = Inr v'" "vec_ok v'" "vec_size v' = vec_size v1"
      "contents v' = take (Suc n) (contents v1) @ replicate k x"
    using Suc.IH [of v1 "Suc n"] Suc.prems by auto
  have "take (Suc n) (contents v1) = take n (contents v) @ [x]" using v1(4) Suc.prems by (simp add: take_Suc_conv_app_nth)
  then show ?case using v' v1 Suc.prems by (auto simp: upt_rec [of n])
qed simp

lemma increaseSize_ok:
  assumes "vec_ok v" "vec_size v \<le> n"
  shows "\<exists>v'. increaseSize chk d n x v = Inr v' \<and> vec_ok v' \<and> contents v' = contents v @ replicate (n - vec_size v) x"
proof -
  have "\<exists>v1. (if n \<ge> length (vec_mem v) then grow d (max ((length (vec_mem v) + 1) * 2) n) v else Inr v) = Inr v1 \<and>
      n \<le> length (vec_mem v1) \<and> vec_size v1 = vec_size v \<and> contents v1 = contents v"
    using grow_ok [OF assms(1), of "max ((length (vec_mem v) + 1) * 2) n" d] assms(2)
    by (cases "length (vec_mem v) \<le> n") (fastforce simp: max.coboundedI2)+
  then obtain v1 where v1: "(if n \<ge> length (vec_mem v) then grow d (max ((length (vec_mem v) + 1) * 2) n) v else Inr v) = Inr v1"
      "n \<le> length (vec_mem v1)" "vec_size v1 = vec_size v" "contents v1 = contents v" by blast
  have c: "take (vec_size v) (contents (v1\<lparr>vec_size := n\<rparr>)) = contents v"
    using v1(3,4) assms(2) by (simp add: contents_def min_def)
  obtain v2 where "fill_slots chk x [vec_size v..<n] (v1\<lparr>vec_size := n\<rparr>) = Inr v2" "vec_ok v2"
      "contents v2 = contents v @ replicate (n - vec_size v) x" "vec_size v2 = n"
    using fill_slots_ok [of "v1\<lparr>vec_size := n\<rparr>" "vec_size v" "n - vec_size v" chk x] v1(2) assms(2) c by (auto simp: vec_ok_def)
  with v1(1) assms show ?thesis by (auto simp: increaseSize_def vec_ok_def)
qed

subsection \<open>Properties\<close>

text \<open>
  The vector implements a list: with or without the bounds checks no operation fails on a
  vector within its array, reading and writing act on the element of the index, and adding at
  either end, growing, removing from the front and copying do so on the list of elements in use.
\<close>

theorem vector_is_list:
  assumes "vec_ok v"
  shows "(i < vec_size v \<longrightarrow> vec_ref chk i v = Inr (contents v ! i) \<and>
      (\<exists>v'. vec_put chk i x v = Inr v' \<and> vec_ok v' \<and> contents v' = (contents v)[i := x])) \<and>
    (\<exists>v'. insertAtBottom chk d x v = Inr v' \<and> vec_ok v' \<and> contents v' = contents v @ [x]) \<and>
    (\<exists>v'. insertAtTop chk d x v = Inr v' \<and> vec_ok v' \<and> contents v' = x # contents v) \<and>
    (\<exists>v'. removeFromTop k v = Inr v' \<and> vec_ok v' \<and> contents v' = drop k (contents v)) \<and>
    (vec_size v \<le> n \<longrightarrow> (\<exists>v'. increaseSize chk d n x v = Inr v' \<and> vec_ok v' \<and>
      contents v' = contents v @ replicate (n - vec_size v) x)) \<and>
    (\<exists>v'. Vector_copy d v = Inr v' \<and> vec_ok v' \<and> contents v' = contents v)"
proof (intro conjI impI)
  show "vec_ref chk i v = Inr (contents v ! i)" "\<exists>v'. vec_put chk i x v = Inr v' \<and> vec_ok v' \<and> contents v' = (contents v)[i := x]"
    if "i < vec_size v" using assms that vec_put_ok [OF assms that] by auto
  show "\<exists>v'. Vector_copy d v = Inr v' \<and> vec_ok v' \<and> contents v' = contents v"
    using assms by (simp add: Vector_copy_def vec_ok_def contents_def)
  show "\<exists>v'. increaseSize chk d n x v = Inr v' \<and> vec_ok v' \<and> contents v' = contents v @ replicate (n - vec_size v) x"
    if "vec_size v \<le> n" by (rule increaseSize_ok [OF assms that])
qed (rule insertAtBottom_ok [OF assms] insertAtTop_ok [OF assms] removeFromTop_ok [OF assms])+

theorem vector_is_list_witness:
  "\<exists>v'. insertAtTop True (0 :: nat) 7 \<lparr>vec_mem = [5 :: nat, 2, 9], vec_size = 2\<rparr> = Inr v' \<and> contents v' = [7, 5, 2]"
  using vector_is_list [of "\<lparr>vec_mem = [5 :: nat, 2, 9], vec_size = 2\<rparr>" 0 True 7 0 0 2]
  by (auto simp: vec_ok_def contents_def)

end
