(* ===== verification/Prio_Heap.thy ===== *)
theory Prio_Heap
  imports Ruby_Vector Min_Queue
begin

section \<open>The priority heap\<close>

unbundle bit_operations_syntax

text \<open>
  Model of \<^verbatim>\<open>src/src/mem/gems_common/PrioHeap.hh\<close>. The heap is a tree in a vector, with the root
  at index 1; index 0 only holds a copy of the first element. The comparison
  \<^verbatim>\<open>node_less_then_eq\<close> is a function of the element type and may itself fail an assertion: it is
  the argument \<open>le\<close>, and its contract is the locale \<open>node_order\<close>. The default element \<open>d\<close>
  and the flag \<open>chk\<close> are those of the vector. Heap indices are natural numbers, as a heap has
  far fewer than \<open>2^31\<close> elements.

  The lemmas show that inserting and extracting keep the heap order, act on the multiset of
  elements, and extract a least element, so that the heap is a \<open>min_queue\<close>.
\<close>

record 'a prio_heap =
  m_heap :: "'a vector"
  m_current_size :: nat

definition PrioHeap_new :: "'a prio_heap" where
  "PrioHeap_new = \<lparr>m_heap = Vector_new, m_current_size = 0\<rparr>"

definition ph_init :: "'a prio_heap \<Rightarrow> 'a prio_heap" where
  "ph_init h = h\<lparr>m_current_size := 0\<rparr>"

definition ph_size :: "'a prio_heap \<Rightarrow> nat" where
  "ph_size h = m_current_size h"

definition get_parent :: "nat \<Rightarrow> nat" where "get_parent i = drop_bit 1 i"
definition get_right :: "nat \<Rightarrow> nat" where "get_right i = push_bit 1 i OR 1"
definition get_left :: "nat \<Rightarrow> nat" where "get_left i = push_bit 1 i"

lemma heap_index [simp]: "get_parent i = i div 2" "get_left i = 2 * i" "get_right i = 2 * i + 1"
  by (simp_all add: get_parent_def get_left_def get_right_def drop_bit_eq_div push_bit_eq_mult or_Suc_0_eq mult.commute)

definition prio_heap_swap :: "bool \<Rightarrow> nat \<Rightarrow> nat \<Rightarrow> 'a vector \<Rightarrow> 'a vector res" where
  "prio_heap_swap chk i j v = bindR (vec_ref chk i v) (\<lambda>temp. bindR (vec_ref chk j v) (\<lambda>y.
     bindR (vec_put chk i y v) (\<lambda>v1. vec_put chk j temp v1)))"

function sift_up :: "bool \<Rightarrow> ('a \<Rightarrow> 'a \<Rightarrow> bool res) \<Rightarrow> 'a \<Rightarrow> nat \<Rightarrow> 'a vector \<Rightarrow> (nat \<times> 'a vector) res" where
  "sift_up chk le key i v = (if i > 1
     then bindR (vec_ref chk (get_parent i) v) (\<lambda>p. bindR (le key p) (\<lambda>b.
          if b then bindR (vec_put chk i p v) (\<lambda>v1. sift_up chk le key (get_parent i) v1) else Inr (i, v)))
     else Inr (i, v))"
  by pat_completeness auto

termination by (relation "measure (\<lambda>(_, _, _, i, _). i)") auto

declare sift_up.simps [simp del]

definition ph_insert :: "bool \<Rightarrow> 'a \<Rightarrow> ('a \<Rightarrow> 'a \<Rightarrow> bool res) \<Rightarrow> 'a \<Rightarrow> 'a prio_heap \<Rightarrow> 'a prio_heap res" where
  "ph_insert chk d le key h = (let n = m_current_size h + 1 in
     bindR (vec_setSize chk d (n + 1) (m_heap h)) (\<lambda>v1.
     bindR (if n = 1 then vec_put chk 0 key v1 else Inr v1) (\<lambda>v2.
     bindR (sift_up chk le key n v2) (\<lambda>(i, v3).
     bindR (vec_put chk i key v3) (\<lambda>v4. Inr \<lparr>m_heap = v4, m_current_size = n\<rparr>)))))"

definition peekMin :: "bool \<Rightarrow> 'a prio_heap \<Rightarrow> 'a res" where
  "peekMin chk h = bindR (assertR (ph_size h > 0) ''size() > 0'') (\<lambda>_. vec_ref chk 1 (m_heap h))"

definition peekElement :: "bool \<Rightarrow> nat \<Rightarrow> 'a prio_heap \<Rightarrow> 'a res" where
  "peekElement chk i h = bindR (assertR (ph_size h > 0) ''size() > 0'') (\<lambda>_. vec_ref chk i (m_heap h))"

definition child_wins :: "bool \<Rightarrow> ('a \<Rightarrow> 'a \<Rightarrow> bool res) \<Rightarrow> nat \<Rightarrow> nat \<Rightarrow> nat \<Rightarrow> 'a vector \<Rightarrow> nat res" where
  "child_wins chk le n c best v = (if c \<le> n
     then bindR (vec_ref chk c v) (\<lambda>x. bindR (vec_ref chk best v) (\<lambda>y. bindR (le x y) (\<lambda>b.
       Inr (if b then c else best))))
     else Inr best)"

definition smallest_of :: "bool \<Rightarrow> ('a \<Rightarrow> 'a \<Rightarrow> bool res) \<Rightarrow> nat \<Rightarrow> nat \<Rightarrow> 'a vector \<Rightarrow> nat res" where
  "smallest_of chk le n c v = bindR (child_wins chk le n (get_left c) c v) (\<lambda>s.
     child_wins chk le n (get_right c) s v)"

lemma smallest_cases: "smallest_of chk le n c v = Inr s \<Longrightarrow> s = c \<or> c < s \<and> s \<le> n"
  by (auto simp: smallest_of_def child_wins_def split: if_splits)

function heapify_from :: "bool \<Rightarrow> ('a \<Rightarrow> 'a \<Rightarrow> bool res) \<Rightarrow> nat \<Rightarrow> nat \<Rightarrow> 'a vector \<Rightarrow> 'a vector res" where
  "heapify_from chk le n c v = bindR (smallest_of chk le n c v) (\<lambda>s.
     if s = c then Inr v
     else bindR (prio_heap_swap chk c s v) (\<lambda>v1. heapify_from chk le n s v1))"
  by pat_completeness auto

termination by (relation "measure (\<lambda>(_, _, n, c, _). n - c)") (auto dest: smallest_cases)

declare heapify_from.simps [simp del]

definition heapify :: "bool \<Rightarrow> ('a \<Rightarrow> 'a \<Rightarrow> bool res) \<Rightarrow> 'a prio_heap \<Rightarrow> 'a prio_heap res" where
  "heapify chk le h = bindR (heapify_from chk le (m_current_size h) 1 (m_heap h)) (\<lambda>v. Inr (h\<lparr>m_heap := v\<rparr>))"

definition extractMin :: "bool \<Rightarrow> ('a \<Rightarrow> 'a \<Rightarrow> bool res) \<Rightarrow> 'a prio_heap \<Rightarrow> ('a prio_heap \<times> 'a) res" where
  "extractMin chk le h = bindR (assertR (ph_size h > 0) ''size() > 0'') (\<lambda>_.
     bindR (vec_ref chk 1 (m_heap h)) (\<lambda>temp. bindR (vec_ref chk (m_current_size h) (m_heap h)) (\<lambda>x.
     bindR (vec_put chk 1 x (m_heap h)) (\<lambda>v.
     bindR (heapify chk le \<lparr>m_heap = v, m_current_size = m_current_size h - 1\<rparr>) (\<lambda>h1. Inr (h1, temp))))))"

partial_function (option) verifyHeap_from :: "bool \<Rightarrow> ('a \<Rightarrow> 'a \<Rightarrow> bool res) \<Rightarrow> 'a prio_heap \<Rightarrow> nat \<Rightarrow> bool comp" where
  "verifyHeap_from chk le h i = (if i > m_current_size h then ret True
     else bindC (if i = 1 then ret True
                 else bindC (liftC (vec_ref chk (get_parent i) (m_heap h))) (\<lambda>p.
                      bindC (liftC (vec_ref chk i (m_heap h))) (\<lambda>x. liftC (le p x)))) (\<lambda>ok.
          if ok then bindC (verifyHeap_from chk le h (get_right i)) (\<lambda>r.
               if r then verifyHeap_from chk le h (get_left i) else ret False)
          else ret False))"

definition verifyHeap :: "bool \<Rightarrow> ('a \<Rightarrow> 'a \<Rightarrow> bool res) \<Rightarrow> 'a prio_heap \<Rightarrow> bool comp" where
  "verifyHeap chk le h = verifyHeap_from chk le h 1"

subsection \<open>Heaps with one exception\<close>

text \<open>
  The order of a heap, over the function that gives the key of an index, and the order up to
  an element that still has to move up or down.
\<close>

definition heap_fun :: "nat \<Rightarrow> (nat \<Rightarrow> 'k::linorder) \<Rightarrow> bool" where
  "heap_fun n f \<longleftrightarrow> (\<forall>j. 2 \<le> j \<longrightarrow> j \<le> n \<longrightarrow> f (j div 2) \<le> f j)"

definition up_ok :: "nat \<Rightarrow> (nat \<Rightarrow> 'k::linorder) \<Rightarrow> nat \<Rightarrow> bool" where
  "up_ok n f i \<longleftrightarrow> (\<forall>j. 2 \<le> j \<longrightarrow> j \<le> n \<longrightarrow> j \<noteq> i \<longrightarrow> f (j div 2) \<le> f j) \<and>
     (2 \<le> i \<longrightarrow> (\<forall>j. j div 2 = i \<longrightarrow> j \<le> n \<longrightarrow> f (i div 2) \<le> f j))"

definition down_ok :: "nat \<Rightarrow> (nat \<Rightarrow> 'k::linorder) \<Rightarrow> nat \<Rightarrow> bool" where
  "down_ok n f c \<longleftrightarrow> (\<forall>j. 2 \<le> j \<longrightarrow> j \<le> n \<longrightarrow> j div 2 \<noteq> c \<longrightarrow> f (j div 2) \<le> f j) \<and>
     (2 \<le> c \<longrightarrow> (\<forall>j. j div 2 = c \<longrightarrow> j \<le> n \<longrightarrow> f (c div 2) \<le> f j))"

lemma up_done: "up_ok n f i \<Longrightarrow> i < 2 \<or> f (i div 2) \<le> f i \<Longrightarrow> heap_fun n f"
  unfolding up_ok_def heap_fun_def by (metis linorder_not_less)

lemma down_done: "down_ok n f c \<Longrightarrow> (\<And>j. j div 2 = c \<Longrightarrow> 2 \<le> j \<Longrightarrow> j \<le> n \<Longrightarrow> f c \<le> f j) \<Longrightarrow> heap_fun n f"
  unfolding down_ok_def heap_fun_def by metis

lemma up_step:
  assumes ok: "up_ok n f i" and i: "2 \<le> i" "i \<le> n" "f i \<le> f (i div 2)"
  shows "up_ok n (f(i := f (i div 2), i div 2 := f i)) (i div 2)" (is "up_ok n ?g ?q")
proof -
  have q: "?q \<noteq> i" "?q < i" using i by auto
  have A: "f (j div 2) \<le> f j" if "2 \<le> j" "j \<le> n" "j \<noteq> i" for j using ok that by (simp add: up_ok_def)
  have B: "f ?q \<le> f j" if "j div 2 = i" "j \<le> n" for j using ok that i by (simp add: up_ok_def)
  have "?g (j div 2) \<le> ?g j" if j: "2 \<le> j" "j \<le> n" "j \<noteq> ?q" for j
  proof -
    consider "j = i" | "j \<noteq> i" "j div 2 = i" | "j \<noteq> i" "j div 2 = ?q" | "j \<noteq> i" "j div 2 \<noteq> i" "j div 2 \<noteq> ?q" by blast
    then show ?thesis
    proof cases
      case 1
      then show ?thesis using i(3) q by simp
    next
      case 2
      then show ?thesis using B [OF _ j(2)] j(3) q by simp
    next
      case 3
      then have "f ?q \<le> f j" using A [OF j(1,2)] by simp
      then show ?thesis using 3 i(3) j(3) by simp
    next
      case 4
      then show ?thesis using A [OF j(1,2)] j(3) by simp
    qed
  qed
  moreover have "?g (?q div 2) \<le> ?g j" if q2: "2 \<le> ?q" and j: "j div 2 = ?q" "j \<le> n" for j
  proof -
    have "?q div 2 \<noteq> ?q" "?q div 2 \<noteq> i" "j \<noteq> ?q" using q2 q j by auto
    moreover have "f (?q div 2) \<le> f ?q" using A [of ?q] q2 q i by auto
    moreover have "f ?q \<le> f j" if "j \<noteq> i" using A [of j] j q2 that by auto
    ultimately show ?thesis using order_trans by (cases "j = i") auto
  qed
  ultimately show ?thesis unfolding up_ok_def by blast
qed

lemma down_step:
  assumes ok: "down_ok n f c" and c: "1 \<le> c" "s div 2 = c" "s \<le> n"
    and s: "f s \<le> f c" "\<And>j. j div 2 = c \<Longrightarrow> j \<le> n \<Longrightarrow> f s \<le> f j"
  shows "down_ok n (f(c := f s, s := f c)) s" (is "down_ok n ?g s")
proof -
  have q: "c \<noteq> s" "c < s" using c by auto
  have A: "f (j div 2) \<le> f j" if "2 \<le> j" "j \<le> n" "j div 2 \<noteq> c" for j using ok that by (simp add: down_ok_def)
  have B: "f (c div 2) \<le> f j" if "2 \<le> c" "j div 2 = c" "j \<le> n" for j using ok that by (simp add: down_ok_def)
  have "?g (j div 2) \<le> ?g j" if j: "2 \<le> j" "j \<le> n" "j div 2 \<noteq> s" for j
  proof (cases "j = c")
    case True
    then have "j div 2 \<noteq> c" "j div 2 \<noteq> s" using j q by auto
    then show ?thesis using True B [of s] c j q by auto
  next
    case nc: False
    consider "j = s" | "j \<noteq> s" "j div 2 = c" | "j \<noteq> s" "j div 2 \<noteq> c" by blast
    then show ?thesis
    proof cases
      case 1
      then show ?thesis using s(1) c(2) q by simp
    next
      case 2
      then show ?thesis using s(2) [OF _ j(2)] nc q by simp
    next
      case 3
      then show ?thesis using A [OF j(1,2)] j(3) nc by simp
    qed
  qed
  moreover have "?g (s div 2) \<le> ?g j" if "2 \<le> s" "j div 2 = s" "j \<le> n" for j
  proof -
    have "f s \<le> f j" using A [of j] that q by auto
    moreover have "j \<noteq> s" "j \<noteq> c" using that q by auto
    ultimately show ?thesis using c q by auto
  qed
  ultimately show ?thesis unfolding down_ok_def by blast
qed

lemma heap_root:
  "heap_fun n f \<Longrightarrow> 1 \<le> j \<Longrightarrow> j \<le> n \<Longrightarrow> f 1 \<le> f j"
proof (induction j rule: less_induct)
  case (less j)
  show ?case
  proof (cases "j = 1")
    case False
    then have "f 1 \<le> f (j div 2)" using less.prems by (intro less.IH) auto
    also have "\<dots> \<le> f j" using less.prems False by (auto simp: heap_fun_def)
    finally show ?thesis .
  qed simp
qed

subsection \<open>The elements of the tree\<close>

definition body :: "nat \<Rightarrow> 'a list \<Rightarrow> 'a list" where
  "body n xs = take n (tl xs)"

lemma nth_body: "i < n \<Longrightarrow> n < length xs \<Longrightarrow> body n xs ! i = xs ! Suc i"
  by (simp add: body_def nth_tl)

lemma length_body: "n < length xs \<Longrightarrow> length (body n xs) = n"
  by (simp add: body_def)

lemma body_update: "body n (xs[Suc i := x]) = (body n xs)[i := x]"
  by (cases xs) (auto simp: body_def take_update_swap)

lemma body_Suc: "Suc n < length xs \<Longrightarrow> body (Suc n) xs = body n xs @ [xs ! Suc n]"
  by (cases xs) (auto simp: body_def take_Suc_conv_app_nth)

lemma body_swap:
  assumes "1 \<le> i" "i \<le> n" "1 \<le> j" "j \<le> n" "n < length xs"
  shows "mset (body n (xs[i := xs ! j, j := xs ! i])) = mset (body n xs)"
proof -
  obtain i' j' where "i = Suc i'" "j = Suc j'" using assms by (metis Suc_le_D One_nat_def)
  moreover from this have "xs ! j = body n xs ! j'" "xs ! i = body n xs ! i'" using assms by (simp_all add: nth_body)
  ultimately show ?thesis using assms by (simp add: body_update mset_swap length_body)
qed

subsection \<open>The comparison of elements\<close>

definition key_at :: "('a \<Rightarrow> 'k) \<Rightarrow> 'a list \<Rightarrow> nat \<Rightarrow> 'k" where
  "key_at key xs j = key (xs ! j)"

definition heap_ok :: "('a \<Rightarrow> 'k::linorder) \<Rightarrow> 'a prio_heap \<Rightarrow> bool" where
  "heap_ok key h \<longleftrightarrow> vec_ok (m_heap h) \<and> (0 < m_current_size h \<longrightarrow> m_current_size h < vec_size (m_heap h)) \<and>
     heap_fun (m_current_size h) (key_at key (contents (m_heap h))) \<and>
     distinct (map key (body (m_current_size h) (contents (m_heap h))))"

definition elems :: "'a prio_heap \<Rightarrow> 'a multiset" where
  "elems h = mset (body (m_current_size h) (contents (m_heap h)))"

locale node_order =
  fixes le :: "'a \<Rightarrow> 'a \<Rightarrow> bool res" and key :: "'a \<Rightarrow> 'k::linorder"
  assumes le_distinct: "key x \<noteq> key y \<Longrightarrow> le x y = Inr (key x \<le> key y)"
begin

lemma key_at_swap:
  "i < length xs \<Longrightarrow> j < length xs \<Longrightarrow>
     key_at key (xs[i := xs ! j, j := xs ! i]) = (key_at key xs)(i := key_at key xs j, j := key_at key xs i)"
  by (auto simp: key_at_def fun_eq_iff nth_list_update)

lemma keys_differ:
  assumes "distinct (map key (body n xs))" "n < length xs" "1 \<le> i" "i \<le> n" "1 \<le> j" "j \<le> n" "i \<noteq> j"
  shows "key (xs ! i) \<noteq> key (xs ! j)"
proof -
  obtain i' j' where "i = Suc i'" "j = Suc j'" using assms by (metis Suc_le_D One_nat_def)
  with assms show ?thesis using nth_eq_iff_index_eq [OF assms(1), of i' j'] by (simp add: length_body nth_body)
qed

lemma distinct_keys_cong: "mset xs = mset ys \<Longrightarrow> distinct (map key xs) \<Longrightarrow> distinct (map key ys)"
  by (metis mset_eq_imp_distinct_iff mset_map)

lemma sift_up_ok:
  assumes "vec_ok v" "n < vec_size v" "1 \<le> i" "i \<le> n" "ys = (contents v)[i := x]"
    "distinct (map key (body n ys))" "up_ok n (key_at key ys) i"
  shows "\<exists>i' v'. sift_up chk le x i v = Inr (i', v') \<and> vec_ok v' \<and> vec_size v' = vec_size v \<and> 1 \<le> i' \<and> i' \<le> n \<and>
    heap_fun n (key_at key ((contents v')[i' := x])) \<and> mset (body n ((contents v')[i' := x])) = mset (body n ys)"
  using assms
proof (induction i arbitrary: v ys rule: less_induct)
  case (less i)
  let ?q = "i div 2"
  have len: "length (contents v) = vec_size v" "length ys = vec_size v" using less.prems by simp_all
  show ?case
  proof (cases "i > 1 \<and> key x \<le> key (contents v ! ?q)")
    case False
    have "sift_up chk le x i v = Inr (i, v)"
    proof (cases "i > 1")
      case True
      with less.prems False have "key x \<noteq> key (contents v ! ?q)" by auto
      then show ?thesis using True False less.prems le_distinct by (simp add: sift_up.simps [of chk le x i v])
    qed (simp add: sift_up.simps [of chk le x i v])
    moreover have "heap_fun n (key_at key ys)"
      using False less.prems len by (intro up_done [OF less.prems(7)]) (auto simp: key_at_def nth_list_update)
    ultimately show ?thesis using less.prems by auto
  next
    case True
    let ?p = "contents v ! ?q"
    have gt: "i > 1" using True by simp
    have q: "?q < i" "1 \<le> ?q" "?q \<le> n" "?q \<noteq> i" using True less.prems by auto
    have ysi: "ys ! i = x" "ys ! ?q = ?p" using less.prems len q by auto
    have "key x \<noteq> key ?p" using keys_differ [OF less.prems(6), of i ?q] less.prems len q ysi by auto
    then have le: "le x ?p = Inr True" using True le_distinct by simp
    have "i < vec_size v" using less.prems by simp
    from vec_put_ok [OF less.prems(1) this] obtain v1 where v1: "vec_put chk i ?p v = Inr v1" "vec_ok v1"
      "vec_size v1 = vec_size v" "contents v1 = (contents v)[i := ?p]" by blast
    define zs where "zs = (contents v1)[?q := x]"
    have zs: "zs = ys[i := ys ! ?q, ?q := ys ! i]" unfolding zs_def v1(4) using less.prems(5) ysi by simp
    have sw: "mset (body n zs) = mset (body n ys)" unfolding zs using less.prems len q by (intro body_swap) auto
    have "key_at key ys i \<le> key_at key ys ?q" using True ysi by (simp add: key_at_def)
    from up_step [OF less.prems(7) _ less.prems(4) this] have up: "up_ok n (key_at key zs) ?q"
      unfolding zs using True less.prems len q by (subst key_at_swap) auto
    have "distinct (map key (body n zs))" using distinct_keys_cong [OF sw [symmetric] less.prems(6)] .
    from less.IH [OF q(1) v1(2) _ q(2,3) zs_def this up] less.prems v1(3) sw obtain i' v' where
      "sift_up chk le x ?q v1 = Inr (i', v')" "vec_ok v'" "vec_size v' = vec_size v" "1 \<le> i'" "i' \<le> n"
      "heap_fun n (key_at key ((contents v')[i' := x]))" "mset (body n ((contents v')[i' := x])) = mset (body n ys)" by auto
    moreover have "sift_up chk le x i v = sift_up chk le x ?q v1"
      unfolding sift_up.simps [of chk le x i v] if_P [OF gt] using less.prems(1,2) q le v1 by simp
    ultimately show ?thesis by auto
  qed
qed

lemma ph_insert_ok:
  assumes ok: "heap_ok key h" and new: "key x \<notin> key ` set_mset (elems h)"
  shows "\<exists>h'. ph_insert chk d le x h = Inr h' \<and> heap_ok key h' \<and> elems h' = add_mset x (elems h)"
proof -
  let ?n = "m_current_size h" and ?xs = "contents (m_heap h)"
  have v: "vec_ok (m_heap h)" using ok by (simp add: heap_ok_def)
  from vec_setSize_ok [OF v, of chk d "Suc (Suc ?n)"] obtain v1 where v1: "vec_setSize chk d (Suc (Suc ?n)) (m_heap h) = Inr v1"
    "vec_ok v1" "vec_size v1 = Suc (Suc ?n)" "take (vec_size (m_heap h)) (contents v1) = take (Suc (Suc ?n)) ?xs" by blast
  have old: "contents v1 ! j = ?xs ! j" if "1 \<le> j" "j \<le> ?n" for j
  proof -
    have "j < vec_size (m_heap h)" using ok that by (auto simp: heap_ok_def)
    then show ?thesis using v1(4) that by (metis le_imp_less_Suc less_Suc_eq nth_take)
  qed
  have "\<exists>v2. (if ?n + 1 = 1 then vec_put chk 0 x v1 else Inr v1) = Inr v2 \<and> vec_ok v2 \<and> vec_size v2 = Suc (Suc ?n) \<and>
      (\<forall>j. 1 \<le> j \<longrightarrow> contents v2 ! j = contents v1 ! j)"
    using vec_put_ok [OF v1(2), of 0 chk x] v1(2,3) by auto
  then obtain v2 where v2: "(if ?n + 1 = 1 then vec_put chk 0 x v1 else Inr v1) = Inr v2" "vec_ok v2" "vec_size v2 = Suc (Suc ?n)"
      "\<And>j. 1 \<le> j \<Longrightarrow> contents v2 ! j = contents v1 ! j" by blast
  define ys where "ys = (contents v2)[Suc ?n := x]"
  have len: "length ys = Suc (Suc ?n)" using v2 by (simp add: ys_def)
  have nth: "ys ! j = ?xs ! j" if "1 \<le> j" "j \<le> ?n" for j using old [OF that] v2(4) that by (simp add: ys_def)
  have b: "body ?n ys = body ?n ?xs"
  proof (rule nth_equalityI)
    have "?n < length ?xs \<or> ?n = 0" using ok v by (auto simp: heap_ok_def)
    then show "length (body ?n ys) = length (body ?n ?xs)" using len by (auto simp: length_body body_def)
    show "body ?n ys ! i = body ?n ?xs ! i" if "i < length (body ?n ys)" for i
      using that len nth [of "Suc i"] \<open>?n < length ?xs \<or> ?n = 0\<close> by (auto simp: nth_body length_body)
  qed
  have body: "body (Suc ?n) ys = body ?n ?xs @ [x]" using len v2 by (simp add: body_Suc b) (simp add: ys_def)
  have d: "distinct (map key (body (Suc ?n) ys))" using ok new by (auto simp: body heap_ok_def elems_def)
  have up: "up_ok (Suc ?n) (key_at key ys) (Suc ?n)"
    using ok nth unfolding up_ok_def heap_ok_def heap_fun_def key_at_def by auto
  from sift_up_ok [OF v2(2) _ _ _ ys_def d up, of chk] v2(3) obtain i v3 where
    v3: "sift_up chk le x (Suc ?n) v2 = Inr (i, v3)" "vec_ok v3" "vec_size v3 = Suc (Suc ?n)" "1 \<le> i" "i \<le> Suc ?n"
      "heap_fun (Suc ?n) (key_at key ((contents v3)[i := x]))"
      "mset (body (Suc ?n) ((contents v3)[i := x])) = mset (body (Suc ?n) ys)" by auto
  have "i < vec_size v3" using v3 by simp
  from vec_put_ok [OF v3(2) this] obtain v4 where v4: "vec_put chk i x v3 = Inr v4" "vec_ok v4" "vec_size v4 = vec_size v3"
    "contents v4 = (contents v3)[i := x]" by blast
  have "ph_insert chk d le x h = Inr \<lparr>m_heap = v4, m_current_size = Suc ?n\<rparr>"
    using v1 v2(1) v3(1) v4(1) by (simp add: ph_insert_def Let_def)
  moreover have "heap_ok key \<lparr>m_heap = v4, m_current_size = Suc ?n\<rparr>"
    using v3 v4 distinct_keys_cong [OF v3(7) [symmetric] d] by (simp add: heap_ok_def)
  ultimately show ?thesis using v3(7) by (simp add: elems_def v4(4) body)
qed

lemma child_wins_ok:
  assumes "vec_ok v" "n < vec_size v" "1 \<le> c" "1 \<le> best" "best \<le> n" "c \<noteq> best"
    "distinct (map key (body n (contents v)))"
  shows "child_wins chk le n c best v =
    Inr (if c \<le> n \<and> key_at key (contents v) c \<le> key_at key (contents v) best then c else best)"
proof (cases "c \<le> n")
  case True
  have "key (contents v ! c) \<noteq> key (contents v ! best)"
    using assms True by (intro keys_differ) auto
  then show ?thesis using True assms le_distinct by (simp add: child_wins_def key_at_def)
qed (simp add: child_wins_def)

lemma smallest_of_ok:
  assumes "vec_ok v" "n < vec_size v" "1 \<le> c" "c \<le> n" "distinct (map key (body n (contents v)))"
  shows "\<exists>s. smallest_of chk le n c v = Inr s \<and> (s = c \<or> s div 2 = c) \<and> s \<le> n \<and>
    key_at key (contents v) s \<le> key_at key (contents v) c \<and>
    (\<forall>j. j div 2 = c \<longrightarrow> j \<le> n \<longrightarrow> key_at key (contents v) s \<le> key_at key (contents v) j)"
proof -
  let ?k = "key_at key (contents v)"
  define s1 where "s1 = (if 2 * c \<le> n \<and> ?k (2 * c) \<le> ?k c then 2 * c else c)"
  define s where "s = (if 2 * c + 1 \<le> n \<and> ?k (2 * c + 1) \<le> ?k s1 then 2 * c + 1 else s1)"
  have 1: "child_wins chk le n (2 * c) c v = Inr s1"
    unfolding s1_def using assms by (intro child_wins_ok) auto
  have s1: "1 \<le> s1" "s1 \<le> n" "2 * c + 1 \<noteq> s1" using assms(3,4) unfolding s1_def by auto
  have 2: "child_wins chk le n (2 * c + 1) s1 v = Inr s"
    unfolding s_def using assms s1 by (intro child_wins_ok) auto
  have k1: "?k s1 \<le> ?k c" "2 * c \<le> n \<Longrightarrow> ?k s1 \<le> ?k (2 * c)" by (auto simp: s1_def)
  have k2: "?k s \<le> ?k s1" "2 * c + 1 \<le> n \<Longrightarrow> ?k s \<le> ?k (2 * c + 1)" by (auto simp: s_def)
  have "?k s \<le> ?k j" if "j div 2 = c" "j \<le> n" for j
  proof -
    have "j = 2 * c \<or> j = 2 * c + 1" using that(1) by auto
    then show ?thesis using k1 k2 that(2) by (auto intro: order_trans)
  qed
  moreover have "s = c \<or> s div 2 = c" "s \<le> n" using s1(2) by (auto simp: s_def s1_def)
  moreover have "?k s \<le> ?k c" using k1(1) k2(1) by (rule order_trans [rotated])
  ultimately show ?thesis using 1 2 by (auto simp: smallest_of_def)
qed

lemma heapify_from_ok:
  assumes "vec_ok v" "n < vec_size v" "1 \<le> c" "distinct (map key (body n (contents v)))" "down_ok n (key_at key (contents v)) c"
    "c \<le> n"
  shows "\<exists>v'. heapify_from chk le n c v = Inr v' \<and> vec_ok v' \<and> vec_size v' = vec_size v \<and>
    heap_fun n (key_at key (contents v')) \<and> mset (body n (contents v')) = mset (body n (contents v))"
  using assms
proof (induction "n - c" arbitrary: c v rule: less_induct)
  case less
  let ?k = "key_at key (contents v)"
  from smallest_of_ok [OF less.prems(1-3,6,4), of chk] obtain s where
    s: "smallest_of chk le n c v = Inr s" "s = c \<or> s div 2 = c" "s \<le> n" "?k s \<le> ?k c"
      "\<And>j. j div 2 = c \<Longrightarrow> j \<le> n \<Longrightarrow> ?k s \<le> ?k j" by blast
  show ?case
  proof (cases "s = c")
    case True
    then have "heap_fun n ?k" using s(5) by (intro down_done [OF less.prems(5)]) auto
    then show ?thesis using s(1) True less.prems by (simp add: heapify_from.simps [of chk le n c v])
  next
    case False
    have lt: "c < s" "s < vec_size v" "c < vec_size v" using False s(2,3) less.prems by auto
    from vec_put_ok [OF less.prems(1) lt(3)] obtain v1 where v1: "vec_put chk c (contents v ! s) v = Inr v1" "vec_ok v1"
      "vec_size v1 = vec_size v" "contents v1 = (contents v)[c := contents v ! s]" by blast
    have "s < vec_size v1" using lt v1(3) by simp
    from vec_put_ok [OF v1(2) this] obtain v2 where v2: "vec_put chk s (contents v ! c) v1 = Inr v2" "vec_ok v2"
      "vec_size v2 = vec_size v" "contents v2 = (contents v)[c := contents v ! s, s := contents v ! c]"
      using v1(3,4) by force
    have sw: "prio_heap_swap chk c s v = Inr v2" using less.prems(1) lt v1 v2 by (simp add: prio_heap_swap_def)
    have len: "length (contents v) = vec_size v" using less.prems by simp
    have m: "mset (body n (contents v2)) = mset (body n (contents v))"
      unfolding v2(4) using less.prems lt s(3) len by (intro body_swap) auto
    have "down_ok n (key_at key (contents v2)) s"
      unfolding v2(4) using down_step [OF less.prems(5,3) _ s(3-5)] s(2) False lt len by (subst key_at_swap) auto
    then have "\<exists>v'. heapify_from chk le n s v2 = Inr v' \<and> vec_ok v' \<and> vec_size v' = vec_size v2 \<and>
        heap_fun n (key_at key (contents v')) \<and> mset (body n (contents v')) = mset (body n (contents v2))"
      using lt s(3) less.prems v2 distinct_keys_cong [OF m [symmetric] less.prems(4)] by (intro less.hyps) auto
    then show ?thesis using s(1) False sw m v2(3) by (simp add: heapify_from.simps [of chk le n c v])
  qed
qed

lemma heapify_small: "vec_ok v \<Longrightarrow> n < c \<Longrightarrow> heapify_from chk le n c v = Inr v"
  by (simp add: heapify_from.simps [of chk le n c v] smallest_of_def child_wins_def)

lemma extractMin_ok:
  assumes ok: "heap_ok key h" and ne: "elems h \<noteq> {#}"
  shows "\<exists>h' x. extractMin chk le h = Inr (h', x) \<and> peekMin chk h = Inr x \<and> heap_ok key h' \<and> x \<in># elems h \<and>
    elems h' = elems h - {#x#} \<and> (\<forall>y \<in># elems h. key x \<le> key y)"
proof -
  let ?n = "m_current_size h" and ?xs = "contents (m_heap h)"
  have v: "vec_ok (m_heap h)" using ok by (simp add: heap_ok_def)
  have n: "0 < ?n" using ne by (auto simp: elems_def body_def)
  then obtain m where m: "?n = Suc m" by (cases ?n) auto
  have len: "?n < length ?xs" "?n < vec_size (m_heap h)" using ok n v by (simp_all add: heap_ok_def)
  have min: "key (?xs ! 1) \<le> key y" if y: "y \<in># elems h" for y
  proof -
    obtain i where "i < ?n" "y = ?xs ! Suc i" using y len by (auto simp: elems_def in_set_conv_nth length_body nth_body)
    then show ?thesis using heap_root [of ?n "key_at key ?xs" "Suc i"] ok by (simp add: heap_ok_def key_at_def)
  qed
  have b1: "body ?n ?xs ! 0 = ?xs ! 1" using nth_body [of 0 ?n ?xs] n len by simp
  then have x: "?xs ! 1 \<in># elems h" using n len nth_mem [of 0 "body ?n ?xs"] by (simp add: elems_def length_body)
  have "1 < vec_size (m_heap h)" using len n by simp
  from vec_put_ok [OF v this] obtain v1 where v1: "vec_put chk 1 (?xs ! ?n) (m_heap h) = Inr v1" "vec_ok v1"
    "vec_size v1 = vec_size (m_heap h)" "contents v1 = ?xs[1 := ?xs ! ?n]" by blast
  have bm: "body ?n ?xs = body m ?xs @ [?xs ! ?n]" using body_Suc [of m ?xs] len m by simp
  have ms: "mset (body m (contents v1)) = elems h - {#?xs ! 1#}"
  proof (cases "m = 0")
    case True
    then show ?thesis using bm m by (simp add: elems_def body_def)
  next
    case False
    have "body m (contents v1) = (body m ?xs)[0 := ?xs ! ?n]" using body_update [of m ?xs 0] by (simp add: v1(4))
    moreover have "body m ?xs ! 0 = ?xs ! 1" using nth_body [of 0 m ?xs] False len m by simp
    moreover from this have mem: "?xs ! 1 \<in># mset (body m ?xs)"
      using False len m nth_mem [of 0 "body m ?xs"] by (simp add: length_body)
    moreover obtain M where "mset (body m ?xs) = add_mset (?xs ! 1) M" using multi_member_split [OF mem] by blast
    ultimately show ?thesis using False len m unfolding elems_def bm by (simp add: mset_update length_body)
  qed
  have d: "distinct (map key (body m (contents v1)))"
  proof -
    have "mset (body ?n ?xs) = mset (?xs ! 1 # body m (contents v1))" using x by (simp add: ms elems_def [symmetric])
    moreover have "distinct (map key (body ?n ?xs))" using ok by (simp add: heap_ok_def)
    ultimately have "distinct (map key (?xs ! 1 # body m (contents v1)))" by (rule distinct_keys_cong)
    then show ?thesis by simp
  qed
  have "\<exists>v'. heapify_from chk le m 1 v1 = Inr v' \<and> vec_ok v' \<and> vec_size v' = vec_size v1 \<and>
      heap_fun m (key_at key (contents v')) \<and> mset (body m (contents v')) = mset (body m (contents v1))"
  proof (cases "m = 0")
    case True
    then show ?thesis using v1 heapify_small [of v1 0 1] by (auto simp: heap_fun_def)
  next
    case False
    have "down_ok m (key_at key (contents v1)) 1"
      using ok m unfolding down_ok_def v1(4) key_at_def heap_ok_def heap_fun_def by auto
    then show ?thesis using False v1 len m d by (intro heapify_from_ok) auto
  qed
  then obtain v' where v': "heapify_from chk le m 1 v1 = Inr v'" "vec_ok v'" "vec_size v' = vec_size v1"
      "heap_fun m (key_at key (contents v'))" "mset (body m (contents v')) = mset (body m (contents v1))" by blast
  have "extractMin chk le h = Inr (\<lparr>m_heap = v', m_current_size = m\<rparr>, ?xs ! 1)" "peekMin chk h = Inr (?xs ! 1)"
    using n v len v1 v' m by (simp_all add: extractMin_def peekMin_def ph_size_def heapify_def)
  moreover have "heap_ok key \<lparr>m_heap = v', m_current_size = m\<rparr>"
    using v' v1 len m distinct_keys_cong [OF v'(5) [symmetric] d] by (simp add: heap_ok_def)
  ultimately show ?thesis using min x ms v'(5) by (auto simp: elems_def)
qed

end

subsection \<open>The heap as a least-element queue\<close>

definition heap_rep :: "('a \<Rightarrow> 'k::linorder) \<Rightarrow> 'a prio_heap \<Rightarrow> ('a \<times> 'k) multiset \<Rightarrow> bool" where
  "heap_rep key h M \<longleftrightarrow> heap_ok key h \<and> M = image_mset (\<lambda>x. (x, key x)) (elems h)"

definition heap_pop :: "bool \<Rightarrow> ('a \<Rightarrow> 'a \<Rightarrow> bool res) \<Rightarrow> 'a prio_heap \<Rightarrow> ('a prio_heap \<times> 'a) comp" where
  "heap_pop chk le h = liftC (extractMin chk le h)"

sublocale node_order \<subseteq> heap_min: min_queue "heap_rep key" "heap_pop chk le" for chk
proof
  fix h M
  assume rep: "heap_rep key h M" "M \<noteq> {#}"
  then have "heap_ok key h" "elems h \<noteq> {#}" by (auto simp: heap_rep_def)
  from extractMin_ok [OF this, of chk] obtain h' x where x: "extractMin chk le h = Inr (h', x)" "heap_ok key h'"
    "x \<in># elems h" "elems h' = elems h - {#x#}" "\<forall>y \<in># elems h. key x \<le> key y" by blast
  then show "\<exists>q' x k. heap_pop chk le h = ret (q', x) \<and> (x, k) \<in># M \<and> (\<forall>y \<in># M. k \<le> snd y) \<and>
      heap_rep key q' (M - {#(x, k)#})"
    using rep by (intro exI [of _ h'] exI [of _ x] exI [of _ "key x"])
      (auto simp: heap_pop_def heap_rep_def liftC_def ret_def image_mset_Diff)
qed

subsection \<open>The check of the heap order\<close>

definition below :: "nat \<Rightarrow> nat \<Rightarrow> bool" where
  "below i j \<longleftrightarrow> (\<exists>k. j div 2 ^ k = i)"

lemma div_pow_Suc: "j div 2 ^ k div 2 = j div 2 ^ Suc k" for j :: nat
  by (simp only: div_mult2_eq [symmetric] power_Suc2)

lemma below_cases: "below i j \<longleftrightarrow> j = i \<or> below (2 * i) j \<or> below (2 * i + 1) j"
proof
  assume "below i j"
  then obtain k where k: "j div 2 ^ k = i" by (auto simp: below_def)
  show "j = i \<or> below (2 * i) j \<or> below (2 * i + 1) j"
  proof (cases k)
    case (Suc k')
    then have "j div 2 ^ k' div 2 = i" using k by (simp only: div_pow_Suc)
    then have "j div 2 ^ k' = 2 * i \<or> j div 2 ^ k' = 2 * i + 1" by auto
    then show ?thesis by (auto simp: below_def)
  qed (use k in simp)
next
  have up: "below i j" if "below c j" "c div 2 = i" for c
    using that unfolding below_def by (metis div_pow_Suc)
  have "below i i" by (auto simp: below_def intro: exI [of _ 0])
  moreover assume "j = i \<or> below (2 * i) j \<or> below (2 * i + 1) j"
  ultimately show "below i j" using up [of "2 * i"] up [of "2 * i + 1"] by auto
qed

lemma below_le: "below i j \<Longrightarrow> i \<le> j"
  by (auto simp: below_def)

lemma below_root: "1 \<le> j \<Longrightarrow> below 1 j"
proof (induction j rule: less_induct)
  case (less j)
  show ?case
  proof (cases "j = 1")
    case True
    then show ?thesis by (auto simp: below_def intro: exI [of _ 0])
  next
    case False
    then have "below 1 (j div 2)" using less.prems by (intro less.IH) auto
    then obtain k where "j div 2 div 2 ^ k = 1" by (auto simp: below_def)
    then have "j div 2 ^ Suc k = 1" by (simp add: div_mult2_eq)
    then show ?thesis unfolding below_def by blast
  qed
qed

context node_order
begin

lemma verifyHeap_from_ok:
  assumes "vec_ok (m_heap h)" "m_current_size h < vec_size (m_heap h)" "1 \<le> i"
    "distinct (map key (body (m_current_size h) (contents (m_heap h))))"
  shows "verifyHeap_from chk le h i = ret (\<forall>j. below i j \<longrightarrow> 2 \<le> j \<longrightarrow> j \<le> m_current_size h \<longrightarrow>
    key_at key (contents (m_heap h)) (j div 2) \<le> key_at key (contents (m_heap h)) j)" (is "_ = ret (?P i)")
  using assms(3)
proof (induction "m_current_size h - i" arbitrary: i rule: less_induct)
  case less
  let ?n = "m_current_size h" and ?xs = "contents (m_heap h)"
  let ?rec = "bindC (verifyHeap_from chk le h (2 * i + 1)) (\<lambda>r. if r then verifyHeap_from chk le h (2 * i) else ret False)"
  show ?case
  proof (cases "i \<le> ?n")
    case False
    then have "?P i" using below_le by fastforce
    then show ?thesis using False by (simp add: verifyHeap_from.simps [of chk le h i])
  next
    case True
    have out: "verifyHeap_from chk le h k = ret (?P k)" if "?n < k" for k
    proof -
      have "?P k" using below_le that by fastforce
      then show ?thesis using that by (simp add: verifyHeap_from.simps [of chk le h k])
    qed
    have "verifyHeap_from chk le h k = ret (?P k)" if "k = 2 * i \<or> k = 2 * i + 1" for k
      using that less.prems True out by (cases "k \<le> ?n") (auto intro!: less.hyps)
    then have rec: "?rec = ret (?P (2 * i) \<and> ?P (2 * i + 1))" by simp
    have P: "?P i \<longleftrightarrow> (2 \<le> i \<longrightarrow> key_at key ?xs (i div 2) \<le> key_at key ?xs i) \<and> ?P (2 * i) \<and> ?P (2 * i + 1)"
      using True unfolding below_cases [of i] by blast
    have le: "le (?xs ! (i div 2)) (?xs ! i) = Inr (key_at key ?xs (i div 2) \<le> key_at key ?xs i)" if "2 \<le> i"
      unfolding key_at_def using that True assms by (intro le_distinct keys_differ) auto
    have root: "i = 1 \<longleftrightarrow> \<not> 2 \<le> i" using less.prems by auto
    have "verifyHeap_from chk le h i =
        (if 2 \<le> i \<longrightarrow> key_at key ?xs (i div 2) \<le> key_at key ?xs i then ?rec else ret False)"
      unfolding verifyHeap_from.simps [of chk le h i] heap_index root
      using True less.prems assms(1,2) le by (cases "2 \<le> i") (simp_all add: liftC_def ret_def)
    then show ?thesis unfolding rec P by simp
  qed
qed

lemma verifyHeap_ok:
  assumes "vec_ok (m_heap h)" "m_current_size h < vec_size (m_heap h)"
    "distinct (map key (body (m_current_size h) (contents (m_heap h))))"
  shows "verifyHeap chk le h = ret (heap_ok key h)"
  using verifyHeap_from_ok [OF assms(1,2) _ assms(3), of 1 chk] assms below_root
  by (auto simp: verifyHeap_def heap_ok_def heap_fun_def)

end

end
