(* ===== verification/Message_Buffer.thy ===== *)
theory Message_Buffer
  imports Ruby_Events Prio_Heap
begin

section \<open>Message buffers\<close>

unbundle bit_operations_syntax

text \<open>
  Model of \<^verbatim>\<open>src/src/mem/ruby/buffers/MessageBufferNode.hh\<close>, \<^verbatim>\<open>MessageBuffer.hh\<close> and
  \<^verbatim>\<open>MessageBuffer.cc\<close>. A buffer holds messages in a priority heap, ordered by arrival time and,
  among messages that arrive together, by a message counter. Enqueueing schedules a wakeup of
  the consumer for the arrival time. A pop is visible to \<open>areNSlotsAvailable\<close> only in the next
  cycle.

  Messages are named by numbers; the reference counts of the message pointers are not
  modelled. The numbers that \<open>random()\<close> returns are the sequence \<open>rs_random\<close> of the
  system. The member \<open>m_recycle_latency\<close> is not initialised by the constructor and keeps
  its old value there. The macro \<open>ERROR_MSG\<close> aborts the program, which is a fatal error.

  The theorems show that a buffer implements a queue sorted by arrival time and message counter,
  what enqueueing, dequeueing, recycling and delaying do to this queue, that a message is
  announced to the consumer at its arrival, and two ways in which the bookkeeping goes wrong:
  slots that are counted twice and counters that are used twice.
\<close>

record msg_node =
  mn_time :: tick
  mn_msg_counter :: "32 word"
  mn_msgptr :: "nat option"

definition MessageBufferNode_default :: msg_node where
  "MessageBufferNode_default = \<lparr>mn_time = 0, mn_msg_counter = 0, mn_msgptr = None\<rparr>"

definition MessageBufferNode_new :: "tick \<Rightarrow> 32 word \<Rightarrow> nat option \<Rightarrow> msg_node" where
  "MessageBufferNode_new time counter msgptr = \<lparr>mn_time = time, mn_msg_counter = counter, mn_msgptr = msgptr\<rparr>"

definition node_less_then_eq :: "msg_node \<Rightarrow> msg_node \<Rightarrow> bool res" where
  "node_less_then_eq n1 n2 = (if mn_time n1 = mn_time n2
     then bindR (assertR (mn_msg_counter n1 \<noteq> mn_msg_counter n2) ''n1.m_msg_counter != n2.m_msg_counter'')
            (\<lambda>_. Inr (mn_msg_counter n1 \<le>s mn_msg_counter n2))
     else Inr (mn_time n1 \<le>s mn_time n2))"

record msg_buffer =
  m_recycle_latency :: "32 word"
  m_consumer_ptr :: "nat option"
  m_prio_heap :: "msg_node prio_heap"
  m_name :: string
  m_max_size :: "32 word"
  m_size :: "32 word"
  m_time_last_time_size_checked :: tick
  m_size_last_time_size_checked :: "32 word"
  m_time_last_time_enqueue :: tick
  m_time_last_time_pop :: tick
  m_size_at_cycle_start :: "32 word"
  m_msgs_this_cycle :: "32 word"
  m_not_avail_count :: "32 word"
  m_msg_counter :: "32 word"
  m_priority_rank :: "32 word"
  m_strict_fifo :: bool
  m_ordering_set :: bool
  m_randomization :: bool
  m_last_arrival_time :: tick

definition MessageBuffer_new :: "32 word \<Rightarrow> string \<Rightarrow> msg_buffer" where
  "MessageBuffer_new raw name = \<lparr>m_recycle_latency = raw, m_consumer_ptr = None, m_prio_heap = PrioHeap_new, m_name = name,
     m_max_size = - 1, m_size = 0, m_time_last_time_size_checked = 0, m_size_last_time_size_checked = 0,
     m_time_last_time_enqueue = 0, m_time_last_time_pop = 0, m_size_at_cycle_start = 0, m_msgs_this_cycle = 0,
     m_not_avail_count = 0, m_msg_counter = 0, m_priority_rank = 0, m_strict_fifo = True, m_ordering_set = False,
     m_randomization = True, m_last_arrival_time = 0\<rparr>"

definition setRecycleLatency :: "32 word \<Rightarrow> msg_buffer \<Rightarrow> msg_buffer" where
  "setRecycleLatency l b = b\<lparr>m_recycle_latency := l\<rparr>"

definition setPriority :: "32 word \<Rightarrow> msg_buffer \<Rightarrow> msg_buffer" where
  "setPriority rank b = b\<lparr>m_priority_rank := rank\<rparr>"

definition setConsumer :: "nat option \<Rightarrow> msg_buffer \<Rightarrow> msg_buffer res" where
  "setConsumer c b = bindR (assertR (m_consumer_ptr b = None) ''m_consumer_ptr == NULL'')
     (\<lambda>_. Inr (b\<lparr>m_consumer_ptr := c\<rparr>))"

definition setDescription :: "string \<Rightarrow> msg_buffer \<Rightarrow> msg_buffer" where
  "setDescription name b = b\<lparr>m_name := name\<rparr>"

definition setOrdering :: "bool \<Rightarrow> msg_buffer \<Rightarrow> msg_buffer" where
  "setOrdering order b = b\<lparr>m_strict_fifo := order, m_ordering_set := True\<rparr>"

definition mb_setSize :: "32 word \<Rightarrow> msg_buffer \<Rightarrow> msg_buffer" where
  "mb_setSize sz b = b\<lparr>m_max_size := sz\<rparr>"

definition setRandomization :: "bool \<Rightarrow> msg_buffer \<Rightarrow> msg_buffer" where
  "setRandomization fl b = b\<lparr>m_randomization := fl\<rparr>"

definition clearStats :: "msg_buffer \<Rightarrow> msg_buffer" where
  "clearStats b = b\<lparr>m_not_avail_count := 0, m_msg_counter := 0\<rparr>"

definition mb_isEmpty :: "msg_buffer \<Rightarrow> bool" where
  "mb_isEmpty b \<longleftrightarrow> ph_size (m_prio_heap b) = 0"

definition isReady :: "bool \<Rightarrow> msg_buffer \<Rightarrow> ruby_sys \<Rightarrow> bool res" where
  "isReady chk b s = (if ph_size (m_prio_heap b) > 0
     then bindR (peekMin chk (m_prio_heap b)) (\<lambda>n. Inr (mn_time n \<le>s getTime s)) else Inr False)"

definition mb_getSize :: "msg_buffer \<Rightarrow> ruby_sys \<Rightarrow> 32 word \<times> msg_buffer" where
  "mb_getSize b s = (if m_time_last_time_size_checked b = getTime s then (m_size_last_time_size_checked b, b)
     else (m_size b, b\<lparr>m_time_last_time_size_checked := getTime s, m_size_last_time_size_checked := m_size b\<rparr>))"

definition visible_size :: "msg_buffer \<Rightarrow> ruby_sys \<Rightarrow> 32 word" where
  "visible_size b s = (if m_time_last_time_pop b <s getTime s then m_size b
     else if m_time_last_time_enqueue b <s getTime s then m_size_at_cycle_start b
     else m_size_at_cycle_start b + m_msgs_this_cycle b)"

definition areNSlotsAvailable :: "32 word \<Rightarrow> msg_buffer \<Rightarrow> ruby_sys \<Rightarrow> bool \<times> msg_buffer" where
  "areNSlotsAvailable n b s = (if m_max_size b = - 1 then (True, b)
     else if visible_size b s + n \<le>s m_max_size b then (True, b)
     else (False, b\<lparr>m_not_avail_count := m_not_avail_count b + 1\<rparr>))"

definition peekMsgPtrEvenIfNotReady :: "bool \<Rightarrow> msg_buffer \<Rightarrow> nat option res" where
  "peekMsgPtrEvenIfNotReady chk b = bindR (peekMin chk (m_prio_heap b)) (\<lambda>n. Inr (mn_msgptr n))"

definition assert_ready :: "bool \<Rightarrow> msg_buffer \<Rightarrow> ruby_sys \<Rightarrow> unit res" where
  "assert_ready chk b s = bindR (isReady chk b s) (\<lambda>r. assertR r ''isReady()'')"

definition peekMsgPtr :: "bool \<Rightarrow> msg_buffer \<Rightarrow> ruby_sys \<Rightarrow> nat option res" where
  "peekMsgPtr chk b s = bindR (assert_ready chk b s) (\<lambda>_. peekMsgPtrEvenIfNotReady chk b)"

definition peekAtHeadOfQueue :: "bool \<Rightarrow> msg_buffer \<Rightarrow> ruby_sys \<Rightarrow> nat res" where
  "peekAtHeadOfQueue chk b s = bindR (assert_ready chk b s) (\<lambda>_.
     bindR (peekMsgPtrEvenIfNotReady chk b) (\<lambda>m. case m of None \<Rightarrow> Inl (Assert ''msg_ptr != NULL'') | Some p \<Rightarrow> Inr p))"

definition random :: "ruby_sys \<Rightarrow> nat \<times> ruby_sys" where
  "random s = (rs_random s (rs_drawn s), s\<lparr>rs_drawn := Suc (rs_drawn s)\<rparr>)"

definition random_time :: "ruby_sys \<Rightarrow> nat \<times> ruby_sys" where
  "random_time s = (let (r1, s1) = random s; (r2, s2) = random s1; time = 1 + (r1 AND 3) in
     if r2 AND 7 = 0 then let (r3, s3) = random s2 in (time + (100 + r3 mod 15), s3) else (time, s2))"

definition count_message :: "tick \<Rightarrow> msg_buffer \<Rightarrow> msg_buffer" where
  "count_message now b =
     (let b1 = b\<lparr>m_msg_counter := m_msg_counter b + 1, m_size := m_size b + 1\<rparr>;
          b2 = (if m_time_last_time_enqueue b1 <s now
                then b1\<lparr>m_msgs_this_cycle := 0, m_time_last_time_enqueue := now\<rparr> else b1) in
      b2\<lparr>m_msgs_this_cycle := m_msgs_this_cycle b2 + 1\<rparr>)"

definition arrival :: "tick \<Rightarrow> msg_buffer \<Rightarrow> ruby_sys \<Rightarrow> tick \<times> msg_buffer \<times> ruby_sys" where
  "arrival delta b s = (let now = getTime s in
     if \<not> rs_randomization s \<or> \<not> m_randomization b then (now + delta, b, s)
     else if m_strict_fifo b
     then let b1 = (if m_last_arrival_time b <s now then b\<lparr>m_last_arrival_time := now\<rparr> else b);
              (r, s1) = random_time s in (m_last_arrival_time b1 + word_of_nat r, b1, s1)
     else let (r, s1) = random_time s in (now + word_of_nat r, b, s1))"

definition get_msg :: "nat option \<Rightarrow> ruby_sys \<Rightarrow> message comp" where
  "get_msg m s = (case m of None \<Rightarrow> fail (Assert ''msg_ptr != NULL'')
     | Some p \<Rightarrow> (case rs_msgs s p of None \<Rightarrow> fail BadPtr | Some x \<Rightarrow> ret x))"

definition put_msg :: "nat option \<Rightarrow> message \<Rightarrow> ruby_sys \<Rightarrow> ruby_sys" where
  "put_msg m x s = (case m of None \<Rightarrow> s | Some p \<Rightarrow> s\<lparr>rs_msgs := (rs_msgs s)(p \<mapsto> x)\<rparr>)"

definition add_delay :: "tick \<Rightarrow> message \<Rightarrow> message" where
  "add_delay now x = x\<lparr>msg_DelayedCycles := ucast (now - msg_LastEnqueueTime x + scast (msg_DelayedCycles x))\<rparr>"

definition enqueue :: "bool \<Rightarrow> ((nat \<Rightarrow> event option) \<Rightarrow> nat) \<Rightarrow> nat option \<Rightarrow> tick \<Rightarrow> msg_buffer \<Rightarrow> ruby_sys \<Rightarrow>
    (msg_buffer \<times> ruby_sys) comp" where
  "enqueue chk al m delta b s =
     (let now = getTime s; b1 = count_message now b in
      if \<not> m_ordering_set b1 then fail (Fatal ''Ordering property of this queue has not been set'')
      else if \<not> 0 <s delta then fail (Assert ''delta>0'')
      else (let (arr, b2, s1) = arrival delta b1 s in
        if \<not> now <s arr then fail (Assert ''arrival_time > current_time'')
        else if m_strict_fifo b2 \<and> arr <s m_last_arrival_time b2 then fail (Fatal ''FIFO ordering violated'')
        else bindC (get_msg m s1) (\<lambda>x.
          if \<not> msg_LastEnqueueTime x \<le>s now then fail (Assert ''getTime() >= getLastEnqueueTime()'')
          else let s2 = put_msg m ((add_delay now x)\<lparr>msg_LastEnqueueTime := arr\<rparr>) s1;
                   node = MessageBufferNode_new arr (m_msg_counter b2) m in
            bindC (liftC (ph_insert chk MessageBufferNode_default node_less_then_eq node (m_prio_heap b2))) (\<lambda>h.
            if m_consumer_ptr b2 = None then fail (Fatal ''No consumer'')
            else bindC (scheduleEventAbsolute al (m_consumer_ptr b2) arr s2) (\<lambda>s3.
              ret (b2\<lparr>m_last_arrival_time := arr, m_prio_heap := h\<rparr>, s3))))))"

definition enqueue_next :: "bool \<Rightarrow> ((nat \<Rightarrow> event option) \<Rightarrow> nat) \<Rightarrow> nat option \<Rightarrow> msg_buffer \<Rightarrow> ruby_sys \<Rightarrow>
    (msg_buffer \<times> ruby_sys) comp" where
  "enqueue_next chk al m b s = enqueue chk al m 1 b s"

definition mb_pop :: "bool \<Rightarrow> msg_buffer \<Rightarrow> ruby_sys \<Rightarrow> msg_buffer res" where
  "mb_pop chk b s = bindR (assert_ready chk b s) (\<lambda>_.
     bindR (extractMin chk node_less_then_eq (m_prio_heap b)) (\<lambda>(h, _).
     let b1 = b\<lparr>m_prio_heap := h\<rparr>;
         b2 = (if m_time_last_time_pop b1 <s getTime s
               then b1\<lparr>m_size_at_cycle_start := m_size b1, m_time_last_time_pop := getTime s\<rparr> else b1) in
     Inr (b2\<lparr>m_size := m_size b2 - 1\<rparr>)))"

definition dequeue :: "bool \<Rightarrow> msg_buffer \<Rightarrow> ruby_sys \<Rightarrow> (nat option \<times> msg_buffer) res" where
  "dequeue chk b s = bindR (peekMin chk (m_prio_heap b)) (\<lambda>n. bindR (mb_pop chk b s) (\<lambda>b1. Inr (mn_msgptr n, b1)))"

definition setAndReturnDelayCycles :: "nat option \<Rightarrow> ruby_sys \<Rightarrow> (32 word \<times> ruby_sys) comp" where
  "setAndReturnDelayCycles m s = bindC (get_msg m s) (\<lambda>x.
     if \<not> msg_LastEnqueueTime x \<le>s getTime s then fail (Assert ''getLastEnqueueTime() <= getTime()'')
     else let x1 = add_delay (getTime s) x; d = msg_DelayedCycles x1 in
       if \<not> 0 \<le>s d then fail (Assert ''delay_cycles >= 0'') else ret (d, put_msg m x1 s))"

definition dequeue_getDelayCycles :: "bool \<Rightarrow> msg_buffer \<Rightarrow> ruby_sys \<Rightarrow> (32 word \<times> nat option \<times> msg_buffer \<times> ruby_sys) comp" where
  "dequeue_getDelayCycles chk b s = bindC (liftC (dequeue chk b s)) (\<lambda>(m, b1).
     bindC (setAndReturnDelayCycles m s) (\<lambda>(d, s1). ret (d, m, b1, s1)))"

definition drop_getDelayCycles :: "bool \<Rightarrow> msg_buffer \<Rightarrow> ruby_sys \<Rightarrow> (32 word \<times> msg_buffer \<times> ruby_sys) comp" where
  "drop_getDelayCycles chk b s = bindC (liftC (peekMsgPtrEvenIfNotReady chk b)) (\<lambda>m.
     bindC (setAndReturnDelayCycles m s) (\<lambda>(d, s1). bindC (liftC (mb_pop chk b s1)) (\<lambda>b1. ret (d, b1, s1))))"

definition delayHead :: "bool \<Rightarrow> ((nat \<Rightarrow> event option) \<Rightarrow> nat) \<Rightarrow> msg_buffer \<Rightarrow> ruby_sys \<Rightarrow>
    (msg_buffer \<times> ruby_sys) comp" where
  "delayHead chk al b s = bindC (liftC (extractMin chk node_less_then_eq (m_prio_heap b))) (\<lambda>(h, n).
     enqueue chk al (mn_msgptr n) 1 (b\<lparr>m_prio_heap := h\<rparr>) s)"

definition recycle :: "bool \<Rightarrow> ((nat \<Rightarrow> event option) \<Rightarrow> nat) \<Rightarrow> msg_buffer \<Rightarrow> ruby_sys \<Rightarrow>
    (msg_buffer \<times> ruby_sys) comp" where
  "recycle chk al b s = bindC (liftC (assert_ready chk b s)) (\<lambda>_.
     bindC (liftC (extractMin chk node_less_then_eq (m_prio_heap b))) (\<lambda>(h, n).
     let t = getTime s + scast (m_recycle_latency b) in
     bindC (liftC (ph_insert chk MessageBufferNode_default node_less_then_eq (n\<lparr>mn_time := t\<rparr>) h)) (\<lambda>h1.
     bindC (scheduleEventAbsolute al (m_consumer_ptr b) t s) (\<lambda>s1. ret (b\<lparr>m_prio_heap := h1\<rparr>, s1)))))"

function clear_heap :: "bool \<Rightarrow> msg_node prio_heap \<Rightarrow> msg_node prio_heap res" where
  "clear_heap chk h = (if ph_size h > 0
     then bindR (extractMin chk node_less_then_eq h) (\<lambda>(h1, _). clear_heap chk h1) else Inr h)"
  by pat_completeness auto

termination by (relation "measure (\<lambda>(_, h). m_current_size h)") (auto simp: extractMin_def heapify_def ph_size_def)

declare clear_heap.simps [simp del]

definition mb_clear :: "bool \<Rightarrow> msg_buffer \<Rightarrow> msg_buffer res" where
  "mb_clear chk b = bindR (clear_heap chk (m_prio_heap b)) (\<lambda>h.
     bindR (assertR (ph_size h = 0) ''m_prio_heap.size() == 0'') (\<lambda>_.
     Inr (b\<lparr>m_prio_heap := h, m_msg_counter := 0, m_size := 0, m_time_last_time_enqueue := 0,
       m_time_last_time_pop := 0, m_size_at_cycle_start := 0, m_msgs_this_cycle := 0\<rparr>)))"

subsection \<open>The heap of messages\<close>

definition node_key :: "msg_node \<Rightarrow> int \<times> int" where
  "node_key n = (sint (mn_time n), sint (mn_msg_counter n))"

interpretation node_heap: node_order node_less_then_eq node_key
proof
  fix x y :: msg_node
  assume ne: "node_key x \<noteq> node_key y"
  show "node_less_then_eq x y = Inr (node_key x \<le> node_key y)"
  proof (cases "mn_time x = mn_time y")
    case True
    with ne have "mn_msg_counter x \<noteq> mn_msg_counter y" by (auto simp: node_key_def)
    with True show ?thesis by (simp add: node_less_then_eq_def node_key_def less_eq_prod_def word_sle_eq)
  next
    case False
    then have "sint (mn_time x) \<noteq> sint (mn_time y)" using signed_word_eqI by blast
    then show ?thesis using False
      by (auto simp: node_less_then_eq_def node_key_def less_eq_prod_def word_sle_eq)
  qed
qed

text \<open>A buffer as the list of its messages, in the order of arrival time and counter.\<close>

definition queue_of :: "msg_buffer \<Rightarrow> msg_node list \<Rightarrow> bool" where
  "queue_of b xs \<longleftrightarrow> heap_ok node_key (m_prio_heap b) \<and> mset xs = elems (m_prio_heap b) \<and> sorted (map node_key xs)"

text \<open>
  Different messages have different counters, none of them beyond the counter of the buffer.
  Only \<open>clearStats\<close> breaks this, as it resets the counter of the buffer.
\<close>

definition counted :: "msg_buffer \<Rightarrow> msg_node list \<Rightarrow> bool" where
  "counted b xs \<longleftrightarrow> distinct (map mn_msg_counter xs) \<and> (\<forall>x \<in> set xs. sint (mn_msg_counter x) \<le> sint (m_msg_counter b))"

text \<open>
  No message arrives after the last arrival time that the buffer remembers. This is broken by
  \<open>recycle\<close>, which gives a message a later time and leaves the last arrival time as it is.
\<close>

definition none_later :: "msg_buffer \<Rightarrow> msg_node list \<Rightarrow> bool" where
  "none_later b xs \<longleftrightarrow> (\<forall>x \<in> set xs. sint (mn_time x) \<le> sint (m_last_arrival_time b))"

lemma queue_distinct: "queue_of b xs \<Longrightarrow> distinct (map node_key xs)"
  by (metis queue_of_def heap_ok_def elems_def mset_eq_imp_distinct_iff mset_map)

lemma queue_length:
  assumes "queue_of b xs"
  shows "ph_size (m_prio_heap b) = length xs"
proof -
  have "length xs = size (elems (m_prio_heap b))" using assms by (metis queue_of_def size_mset)
  moreover have "m_current_size (m_prio_heap b) = 0 \<or> m_current_size (m_prio_heap b) < length (contents (m_heap (m_prio_heap b)))"
    using assms by (auto simp: queue_of_def heap_ok_def)
  ultimately show ?thesis by (auto simp: elems_def ph_size_def length_body body_def)
qed

lemma queue_extract:
  assumes "queue_of b (x # xs)"
  shows "\<exists>h. extractMin chk node_less_then_eq (m_prio_heap b) = Inr (h, x) \<and> peekMin chk (m_prio_heap b) = Inr x \<and>
    queue_of (b\<lparr>m_prio_heap := h\<rparr>) xs"
proof -
  have "elems (m_prio_heap b) \<noteq> {#}" using assms by (auto simp: queue_of_def)
  with node_heap.extractMin_ok [of "m_prio_heap b" chk] obtain h y where
    h: "extractMin chk node_less_then_eq (m_prio_heap b) = Inr (h, y)" "peekMin chk (m_prio_heap b) = Inr y"
      "heap_ok node_key h" "y \<in># elems (m_prio_heap b)" "elems h = elems (m_prio_heap b) - {#y#}"
      "\<forall>z \<in># elems (m_prio_heap b). node_key y \<le> node_key z"
    using assms by (auto simp: queue_of_def)
  have m: "mset (x # xs) = elems (m_prio_heap b)" using assms by (simp add: queue_of_def)
  have "y \<in> set (x # xs)" using h(4) m by (metis set_mset_mset)
  moreover have "x \<in># elems (m_prio_heap b)" using m by (metis list.set_intros(1) set_mset_mset)
  then have "node_key y \<le> node_key x" using h(6) by blast
  moreover have "\<And>z. z \<in> set xs \<Longrightarrow> node_key x \<le> node_key z" using assms by (auto simp: queue_of_def)
  ultimately have "y = x" using queue_distinct [OF assms] by (auto dest: order.antisym)
  then show ?thesis using h assms m [symmetric] by (auto simp: queue_of_def)
qed

lemma queue_insert:
  assumes "queue_of b xs" "node_key n \<notin> node_key ` set xs"
  shows "\<exists>h. ph_insert chk d node_less_then_eq n (m_prio_heap b) = Inr h \<and> queue_of (b\<lparr>m_prio_heap := h\<rparr>) (insort_key node_key n xs)"
proof -
  have "set_mset (elems (m_prio_heap b)) = set xs" using assms(1) by (metis queue_of_def set_mset_mset)
  then obtain h where "ph_insert chk d node_less_then_eq n (m_prio_heap b) = Inr h" "heap_ok node_key h"
      "elems h = add_mset n (elems (m_prio_heap b))"
    using node_heap.ph_insert_ok [of "m_prio_heap b" n chk d] assms by (auto simp: queue_of_def)
  then show ?thesis using assms(1) by (auto simp: queue_of_def sorted_insort_key)
qed

text \<open>The place of a node with a new counter: behind all nodes that do not arrive later.\<close>

lemma insort_place:
  "\<forall>x \<in> set xs. sint (mn_msg_counter x) < sint (mn_msg_counter n) \<Longrightarrow>
   insort_key node_key n xs = takeWhile (\<lambda>x. mn_time x \<le>s mn_time n) xs @ n # dropWhile (\<lambda>x. mn_time x \<le>s mn_time n) xs"
  by (induction xs) (auto simp: node_key_def less_eq_prod_def word_sle_eq)

lemma counted_tl: "counted b (x # xs) \<Longrightarrow> counted (b\<lparr>m_prio_heap := h\<rparr>) xs"
  by (simp add: counted_def)

subsection \<open>Enqueueing\<close>

lemma count_message_fields [simp]:
  "m_prio_heap (count_message t b) = m_prio_heap b" "m_consumer_ptr (count_message t b) = m_consumer_ptr b"
  "m_size (count_message t b) = m_size b + 1" "m_msg_counter (count_message t b) = m_msg_counter b + 1"
  "m_strict_fifo (count_message t b) = m_strict_fifo b" "m_ordering_set (count_message t b) = m_ordering_set b"
  "m_last_arrival_time (count_message t b) = m_last_arrival_time b" "m_randomization (count_message t b) = m_randomization b"
  "m_time_last_time_pop (count_message t b) = m_time_last_time_pop b"
  "m_size_at_cycle_start (count_message t b) = m_size_at_cycle_start b"
  "m_max_size (count_message t b) = m_max_size b"
  by (simp_all add: count_message_def Let_def)

lemma random_frame: "random s = (r, s') \<Longrightarrow> s' = s\<lparr>rs_drawn := rs_drawn s'\<rparr>"
  by (auto simp: random_def)

lemma random_time_frame: "random_time s = (r, s') \<Longrightarrow> s' = s\<lparr>rs_drawn := rs_drawn s'\<rparr> \<and> 1 \<le> r"
  by (auto simp: random_time_def random_def Let_def split: if_splits)

lemma arrival_frame:
  assumes "arrival delta b s = (arr, b', s')"
  shows "s' = s\<lparr>rs_drawn := rs_drawn s'\<rparr>" "b' = b\<lparr>m_last_arrival_time := m_last_arrival_time b'\<rparr>"
    "sint (m_last_arrival_time b) \<le> sint (m_last_arrival_time b')"
    "\<not> rs_randomization s \<or> \<not> m_randomization b \<Longrightarrow> arr = getTime s + delta"
  using assms
  by (auto simp: arrival_def Let_def word_sless_alt dest!: random_time_frame split: if_splits prod.splits)

text \<open>What a call of \<open>enqueue\<close> that returns has done.\<close>

lemma enqueue_effect:
  assumes "enqueue chk al m delta b s = ret (b', s')"
  obtains arr h s2 where "sint (getTime s) < sint arr" "m_strict_fifo b \<longrightarrow> sint (m_last_arrival_time b) \<le> sint arr"
    "ph_insert chk MessageBufferNode_default node_less_then_eq (MessageBufferNode_new arr (m_msg_counter b + 1) m) (m_prio_heap b) = Inr h"
    "b' = (count_message (getTime s) b)\<lparr>m_last_arrival_time := arr, m_prio_heap := h\<rparr>"
    "scheduleEventAbsolute al (m_consumer_ptr b) arr s2 = ret s'" "rs_evq s2 = rs_evq s" "rs_consumers s2 = rs_consumers s"
    "rs_clock s2 = rs_clock s" "\<not> rs_randomization s \<or> \<not> m_randomization b \<longrightarrow> arr = getTime s + delta"
proof -
  obtain arr b2 s1 where ar: "arrival delta (count_message (getTime s) b) s = (arr, b2, s1)"
    by (cases "arrival delta (count_message (getTime s) b) s") auto
  note fr = arrival_frame [OF ar]
  have fields: "m_prio_heap b2 = m_prio_heap b" "m_consumer_ptr b2 = m_consumer_ptr b" "m_strict_fifo b2 = m_strict_fifo b"
      "m_msg_counter b2 = m_msg_counter b + 1" "rs_evq s1 = rs_evq s" "rs_consumers s1 = rs_consumers s" "rs_clock s1 = rs_clock s"
    by (subst fr; simp)+
  have ok: "m_ordering_set (count_message (getTime s) b)" "0 <s delta" "getTime s <s arr"
      "\<not> (m_strict_fifo b2 \<and> arr <s m_last_arrival_time b2)"
    using assms ar by (auto simp: enqueue_def Let_def split: if_splits)
  obtain x where x: "get_msg m s1 = ret x" "msg_LastEnqueueTime x \<le>s getTime s"
    using assms ar ok by (auto simp: enqueue_def Let_def elim!: bindC_ret_elim split: if_splits)
  define s2 where "s2 = put_msg m ((add_delay (getTime s) x)\<lparr>msg_LastEnqueueTime := arr\<rparr>) s1"
  have s2: "rs_evq s2 = rs_evq s" "rs_consumers s2 = rs_consumers s" "rs_clock s2 = rs_clock s"
    using fields by (simp_all add: s2_def put_msg_def split: option.split)
  have "bindC (liftC (ph_insert chk MessageBufferNode_default node_less_then_eq (MessageBufferNode_new arr (m_msg_counter b2) m) (m_prio_heap b2)))
      (\<lambda>h. if m_consumer_ptr b2 = None then fail (Fatal ''No consumer'')
        else bindC (scheduleEventAbsolute al (m_consumer_ptr b2) arr s2) (\<lambda>s3.
          ret (b2\<lparr>m_last_arrival_time := arr, m_prio_heap := h\<rparr>, s3))) = ret (b', s')"
    unfolding s2_def using assms ar ok(1-3) x by (simp add: enqueue_def Let_def ok(4))
  then obtain h where h: "liftC (ph_insert chk MessageBufferNode_default node_less_then_eq
        (MessageBufferNode_new arr (m_msg_counter b2) m) (m_prio_heap b2)) = ret h"
    and "(if m_consumer_ptr b2 = None then fail (Fatal ''No consumer'')
        else bindC (scheduleEventAbsolute al (m_consumer_ptr b2) arr s2) (\<lambda>s3.
          ret (b2\<lparr>m_last_arrival_time := arr, m_prio_heap := h\<rparr>, s3))) = ret (b', s')"
    by (rule bindC_ret_elim)
  then have "bindC (scheduleEventAbsolute al (m_consumer_ptr b2) arr s2) (\<lambda>s3.
          ret (b2\<lparr>m_last_arrival_time := arr, m_prio_heap := h\<rparr>, s3)) = ret (b', s')" by (simp split: if_splits)
  then have cont: "scheduleEventAbsolute al (m_consumer_ptr b) arr s2 = ret s'" "b' = b2\<lparr>m_last_arrival_time := arr, m_prio_heap := h\<rparr>"
    using fields(2) by (auto elim!: bindC_ret_elim)
  have h: "ph_insert chk MessageBufferNode_default node_less_then_eq (MessageBufferNode_new arr (m_msg_counter b + 1) m) (m_prio_heap b) = Inr h"
    using h fields by (simp add: liftC_def ret_def)
  have "b' = (count_message (getTime s) b)\<lparr>m_last_arrival_time := arr, m_prio_heap := h\<rparr>"
    unfolding cont(2) by (subst fr(2)) simp
  moreover have "m_strict_fifo b \<longrightarrow> sint (m_last_arrival_time b) \<le> sint arr"
    using ok(4) fr(3) fields(3) by (auto simp: word_sless_alt not_less)
  ultimately show ?thesis using ok(3) h cont(1) s2 fr(4) by (intro that [of arr h s2]) (simp_all add: word_sless_alt)
qed

lemma sint_Suc32: "sint (x :: 32 word) < 2 ^ 31 - 1 \<Longrightarrow> sint (x + 1) = sint x + 1"
  using sint_ge [of x] by (simp add: sint_word_ariths signed_take_bit_int_eq_self)

lemma enqueue_queue:
  assumes q: "queue_of b xs" "counted b xs" and room: "sint (m_msg_counter b) < 2 ^ 31 - 1"
    and run: "enqueue chk al m delta b s = ret (b', s')"
  shows "\<exists>n ys. mn_msgptr n = m \<and> sint (getTime s) < sint (mn_time n) \<and>
    (\<not> rs_randomization s \<or> \<not> m_randomization b \<longrightarrow> mn_time n = getTime s + delta) \<and>
    ys = takeWhile (\<lambda>x. mn_time x \<le>s mn_time n) xs @ n # dropWhile (\<lambda>x. mn_time x \<le>s mn_time n) xs \<and>
    queue_of b' ys \<and> counted b' ys \<and>
    (m_strict_fifo b \<longrightarrow> sint (m_last_arrival_time b) \<le> sint (mn_time n) \<and>
      (none_later b xs \<longrightarrow> ys = xs @ [n] \<and> none_later b' ys))"
proof -
  obtain arr h where e: "sint (getTime s) < sint arr" "m_strict_fifo b \<longrightarrow> sint (m_last_arrival_time b) \<le> sint arr"
    "ph_insert chk MessageBufferNode_default node_less_then_eq (MessageBufferNode_new arr (m_msg_counter b + 1) m) (m_prio_heap b) = Inr h"
    "b' = (count_message (getTime s) b)\<lparr>m_last_arrival_time := arr, m_prio_heap := h\<rparr>"
    "\<not> rs_randomization s \<or> \<not> m_randomization b \<longrightarrow> arr = getTime s + delta"
    using enqueue_effect [OF run] .
  define n where "n = MessageBufferNode_new arr (m_msg_counter b + 1) m"
  define ys where "ys = insort_key node_key n xs"
  have n: "mn_time n = arr" "mn_msgptr n = m" "mn_msg_counter n = m_msg_counter b + 1"
      "sint (mn_msg_counter n) = sint (m_msg_counter b) + 1"
    using sint_Suc32 [OF room] by (simp_all add: n_def MessageBufferNode_new_def)
  have less: "sint (mn_msg_counter x) < sint (mn_msg_counter n)" if "x \<in> set xs" for x
    using q(2) that n(4) by (auto simp: counted_def)
  then have key: "node_key n \<notin> node_key ` set xs" by (fastforce simp: node_key_def)
  have place: "ys = takeWhile (\<lambda>x. mn_time x \<le>s mn_time n) xs @ n # dropWhile (\<lambda>x. mn_time x \<le>s mn_time n) xs"
    unfolding ys_def using less by (intro insort_place) blast
  have "queue_of (b\<lparr>m_prio_heap := h\<rparr>) ys"
    using queue_insert [OF q(1) key, of chk MessageBufferNode_default] e(3) by (auto simp: n_def ys_def)
  then have "queue_of b' ys" by (simp add: queue_of_def e(4))
  moreover have "mset ys = mset (n # xs)" by (simp add: ys_def)
  then have "mset (map mn_msg_counter ys) = mset (map mn_msg_counter (n # xs))" "set ys = set (n # xs)"
    by (metis mset_map, metis mset_eq_setD)
  then have "counted b' ys"
    using q(2) less n(3,4) e(4) by (fastforce simp: counted_def dest: mset_eq_imp_distinct_iff)
  moreover have "ys = xs @ [n] \<and> none_later b' ys" if "m_strict_fifo b" "none_later b xs"
  proof -
    have t: "\<forall>x \<in> set xs. sint (mn_time x) \<le> sint arr" using that e(2) by (auto simp: none_later_def)
    then have "ys = xs @ [n]" unfolding place n(1) by (auto simp: word_sle_eq takeWhile_eq_all_conv dropWhile_eq_Nil_conv)
    with t n(1) show ?thesis by (auto simp: none_later_def e(4))
  qed
  ultimately show ?thesis using n(1,2) e(1,2,5) place by blast
qed

subsection \<open>Dequeueing\<close>

lemma isReady_queue:
  assumes "queue_of b xs"
  shows "isReady chk b s = Inr (case xs of [] \<Rightarrow> False | x # _ \<Rightarrow> mn_time x \<le>s getTime s)"
  using queue_length [OF assms] assms queue_extract [of b "hd xs" "tl xs" chk]
  by (cases xs) (auto simp: isReady_def)

lemma mb_pop_queue:
  assumes "queue_of b (x # xs)"
  shows "if mn_time x \<le>s getTime s
    then \<exists>b'. mb_pop chk b s = Inr b' \<and> queue_of b' xs \<and> m_size b' = m_size b - 1 \<and> m_msg_counter b' = m_msg_counter b \<and>
      m_strict_fifo b' = m_strict_fifo b \<and> m_last_arrival_time b' = m_last_arrival_time b
    else mb_pop chk b s = Inl (Assert ''isReady()'')"
proof -
  obtain h where h: "extractMin chk node_less_then_eq (m_prio_heap b) = Inr (h, x)" "queue_of (b\<lparr>m_prio_heap := h\<rparr>) xs"
    using queue_extract [OF assms] by blast
  then show ?thesis
    using isReady_queue [OF assms, of chk s] by (auto simp: mb_pop_def assert_ready_def Let_def queue_of_def)
qed

subsection \<open>Taking out everything\<close>

lemma sorted_mset_unique:
  "sorted (map f xs) \<Longrightarrow> sorted (map f ys) \<Longrightarrow> mset xs = mset ys \<Longrightarrow> distinct (map f xs) \<Longrightarrow> xs = ys"
proof (induction xs arbitrary: ys)
  case (Cons x xs)
  then obtain y ys' where ys: "ys = y # ys'" by (cases ys) auto
  have "x \<in> set ys" "y \<in> set (x # xs)" using Cons.prems(3) ys by (metis list.set_intros(1) mset_eq_setD)+
  then have "f x = f y" using Cons.prems(1,2) ys by (auto intro: order.antisym)
  moreover have "f x \<noteq> f z" if "z \<in> set xs" for z using Cons.prems(4) that by auto
  ultimately have "x = y" using \<open>y \<in> set (x # xs)\<close> by auto
  then show ?case using Cons ys by auto
qed simp

lemma queue_drain:
  assumes "queue_of b xs"
  shows "\<exists>h. drain (heap_pop chk node_less_then_eq) (length xs) (m_prio_heap b) = ret (h, xs)"
proof -
  let ?M = "image_mset (\<lambda>x. (x, node_key x)) (elems (m_prio_heap b))"
  have m: "mset xs = elems (m_prio_heap b)" and s: "sorted (map node_key xs)" using assms by (simp_all add: queue_of_def)
  have "size (elems (m_prio_heap b)) = length xs" by (simp flip: m)
  then have "heap_rep node_key (m_prio_heap b) ?M" "size ?M = length xs"
    using assms by (simp_all add: heap_rep_def queue_of_def)
  from node_heap.heap_min.drain_sorted [OF this, of chk] obtain h ys where
    ys: "drain (heap_pop chk node_less_then_eq) (length xs) (m_prio_heap b) = ret (h, map fst ys)" "mset ys = ?M" "sorted (map snd ys)"
    by blast
  have key: "snd y = node_key (fst y)" if "y \<in> set ys" for y
    using that ys(2) by (metis (no_types, lifting) fst_conv image_iff set_image_mset set_mset_mset snd_conv)
  have "mset (map fst ys) = image_mset fst ?M" using ys(2) by simp
  also have "\<dots> = mset xs" by (simp add: m image_mset.compositionality comp_def)
  finally have "xs = map fst ys"
    using s ys(3) key queue_distinct [OF assms] by (intro sorted_mset_unique [of node_key]) (auto simp: comp_def cong: map_cong)
  with ys(1) show ?thesis by blast
qed

lemma clear_heap_queue: "queue_of b xs \<Longrightarrow> \<exists>h. clear_heap chk (m_prio_heap b) = Inr h \<and> queue_of (b\<lparr>m_prio_heap := h\<rparr>) []"
proof (induction xs arbitrary: b)
  case Nil
  then show ?case using queue_length [OF Nil] by (simp add: clear_heap.simps [of chk "m_prio_heap b"] queue_of_def)
next
  case (Cons x xs)
  then obtain h where h: "extractMin chk node_less_then_eq (m_prio_heap b) = Inr (h, x)" "queue_of (b\<lparr>m_prio_heap := h\<rparr>) xs"
    using queue_extract by blast
  then show ?case using Cons.IH [OF h(2)] queue_length [OF Cons.prems]
    by (simp add: clear_heap.simps [of chk "m_prio_heap b"])
qed

lemma dequeue_queue:
  assumes "queue_of b xs" "counted b xs"
  shows "case xs of [] \<Rightarrow> dequeue chk b s = Inl (Assert ''size() > 0'')
    | x # ys \<Rightarrow> if mn_time x \<le>s getTime s
        then \<exists>b'. dequeue chk b s = Inr (mn_msgptr x, b') \<and> queue_of b' ys \<and> counted b' ys \<and>
          (none_later b xs \<longrightarrow> none_later b' ys)
        else dequeue chk b s = Inl (Assert ''isReady()'')"
proof (cases xs)
  case Nil
  then show ?thesis using queue_length [OF assms(1)] by (simp add: dequeue_def peekMin_def)
next
  case (Cons x ys)
  with assms(1) have q: "queue_of b (x # ys)" by simp
  obtain h where h: "peekMin chk (m_prio_heap b) = Inr x" using queue_extract [OF q] by blast
  then show ?thesis
    using mb_pop_queue [OF q, of s chk] assms(2) Cons by (auto simp: dequeue_def counted_def none_later_def split: if_splits)
qed

subsection \<open>Putting the first message back\<close>

lemma recycle_queue:
  fixes chk al b s x xs
  defines "t \<equiv> getTime s + scast (m_recycle_latency b)"
  defines "ys \<equiv> insort_key node_key (x\<lparr>mn_time := t\<rparr>) xs"
  assumes q: "queue_of b (x # xs)" "counted b (x # xs)"
  shows "if mn_time x \<le>s getTime s
    then \<exists>b'. recycle chk al b s = bindC (scheduleEventAbsolute al (m_consumer_ptr b) t s) (\<lambda>s'. ret (b', s')) \<and>
      queue_of b' ys \<and> counted b' ys \<and> b' = b\<lparr>m_prio_heap := m_prio_heap b'\<rparr>
    else recycle chk al b s = fail (Assert ''isReady()'')"
proof -
  obtain h where h: "extractMin chk node_less_then_eq (m_prio_heap b) = Inr (h, x)" "queue_of (b\<lparr>m_prio_heap := h\<rparr>) xs"
    using queue_extract [OF q(1)] by blast
  have new: "mn_msg_counter x \<notin> mn_msg_counter ` set xs" using q(2) by (simp add: counted_def)
  then have "node_key (x\<lparr>mn_time := t\<rparr>) \<notin> node_key ` set xs" by (auto simp: node_key_def dest!: signed_word_eqI)
  from queue_insert [OF h(2) this, of chk MessageBufferNode_default] obtain h1 where
    h1: "ph_insert chk MessageBufferNode_default node_less_then_eq (x\<lparr>mn_time := t\<rparr>) h = Inr h1" "queue_of (b\<lparr>m_prio_heap := h1\<rparr>) ys"
    by (auto simp: ys_def)
  have "mset ys = mset (x\<lparr>mn_time := t\<rparr> # xs)" by (simp add: ys_def)
  then have "mset (map mn_msg_counter ys) = mset (map mn_msg_counter (x\<lparr>mn_time := t\<rparr> # xs))" "set ys = set (x\<lparr>mn_time := t\<rparr> # xs)"
    by (metis mset_map, metis mset_eq_setD)
  then have "counted (b\<lparr>m_prio_heap := h1\<rparr>) ys"
    using q(2) by (fastforce simp: counted_def dest: mset_eq_imp_distinct_iff)
  then show ?thesis
    using isReady_queue [OF q(1), of chk s] h(1) h1
    by (auto simp: recycle_def assert_ready_def liftC_def Let_def t_def fail_def bindR_def assertR_def)
qed

lemma delayHead_queue:
  assumes q: "queue_of b (x # xs)" "counted b (x # xs)" and room: "sint (m_msg_counter b) < 2 ^ 31 - 1"
    and run: "delayHead chk al b s = ret (b', s')"
  shows "\<exists>n ys. mn_msgptr n = mn_msgptr x \<and> sint (getTime s) < sint (mn_time n) \<and> queue_of b' ys \<and> counted b' ys \<and>
    ys = takeWhile (\<lambda>x. mn_time x \<le>s mn_time n) xs @ n # dropWhile (\<lambda>x. mn_time x \<le>s mn_time n) xs"
proof -
  obtain h where h: "extractMin chk node_less_then_eq (m_prio_heap b) = Inr (h, x)" "queue_of (b\<lparr>m_prio_heap := h\<rparr>) xs"
    using queue_extract [OF q(1)] by blast
  have "enqueue chk al (mn_msgptr x) 1 (b\<lparr>m_prio_heap := h\<rparr>) s = ret (b', s')"
    using run h(1) by (simp add: delayHead_def liftC_def)
  from enqueue_queue [OF h(2) counted_tl [OF q(2)] _ this] room show ?thesis by auto
qed

subsection \<open>Calls that return\<close>

lemma enqueue_returns:
  assumes q: "queue_of b xs" "counted b xs" and room: "sint (m_msg_counter b) < 2 ^ 31 - 1"
    and b: "m_ordering_set b" "m_consumer_ptr b = Some c" "\<not> rs_randomization s \<or> \<not> m_randomization b" and delta: "0 <s delta"
    and fifo: "m_strict_fifo b \<longrightarrow> m_last_arrival_time b \<le>s getTime s + delta"
    and m: "rs_msgs s p = Some y" "msg_LastEnqueueTime y \<le>s getTime s" and later: "getTime s <s getTime s + delta"
    and wake: "\<And>z. \<exists>s2. scheduleEventAbsolute al (Some c) (getTime s + delta) (put_msg (Some p) z s) = ret s2 \<and> P s2"
  shows "\<exists>b' s'. enqueue chk al (Some p) delta b s = ret (b', s') \<and> P s'"
proof -
  let ?b = "count_message (getTime s) b" and ?t = "getTime s + delta"
  let ?n = "MessageBufferNode_new ?t (m_msg_counter ?b) (Some p)"
  have ar: "arrival delta ?b s = (?t, ?b, s)" using b(3) by (simp add: arrival_def Let_def)
  have "node_key ?n \<notin> node_key ` set xs"
    using q(2) sint_Suc32 [OF room] by (force simp: node_key_def counted_def MessageBufferNode_new_def)
  then obtain h where h: "ph_insert chk MessageBufferNode_default node_less_then_eq ?n (m_prio_heap b) = Inr h"
    using queue_insert [OF q(1)] by blast
  define s1 where "s1 = put_msg (Some p) ((add_delay (getTime s) y)\<lparr>msg_LastEnqueueTime := ?t\<rparr>) s"
  obtain s2 where s2: "scheduleEventAbsolute al (Some c) ?t s1 = ret s2" "P s2"
    using wake unfolding s1_def by blast
  have g: "get_msg (Some p) s = ret y" using m(1) by (simp add: get_msg_def)
  have nf: "\<not> (m_strict_fifo ?b \<and> ?t <s m_last_arrival_time ?b)" using fifo by (auto simp: word_sle_eq word_sless_alt)
  have "enqueue chk al (Some p) delta b s = ret (?b\<lparr>m_last_arrival_time := ?t, m_prio_heap := h\<rparr>, s2)"
    unfolding enqueue_def Let_def ar prod.case if_not_P [OF nf]
    using b(1,2) delta later g m(2) h s2(1) s1_def by (simp add: liftC_def)
  with s2(2) show ?thesis by blast
qed

lemma enqueue_wakes:
  assumes q: "queue_of b xs" "counted b xs" and room: "sint (m_msg_counter b) < 2 ^ 31 - 1"
    and b: "m_ordering_set b" "m_consumer_ptr b = Some c" "\<not> rs_randomization s \<or> \<not> m_randomization b" "0 <s delta"
      "m_strict_fifo b \<longrightarrow> m_last_arrival_time b \<le>s getTime s + delta"
    and m: "rs_msgs s p = Some y" "msg_LastEnqueueTime y \<le>s getTime s"
    and ev: "agenda (rs_evq s) ag" "wakeups_ok s ag" "rs_consumers s c = Some x" "clock_ok s" "in_range (getTime s + delta) s"
      "getTime s + delta \<in> m_scheduled_wakeups x \<or> heap (rs_evq s) (al (heap (rs_evq s))) = None"
  shows "\<exists>b' s' ag' x'. enqueue chk al (Some p) delta b s = ret (b', s') \<and> agenda (rs_evq s') ag' \<and> wakeups_ok s' ag' \<and>
    ag' = (if getTime s + delta \<in> m_scheduled_wakeups x then ag
      else insort_key snd (al (heap (rs_evq s)), sint (getTime s + delta) * sint (rs_clock s), 0) ag) \<and>
    rs_consumers s' c = Some x' \<and> getTime s + delta \<in> m_scheduled_wakeups x' \<and>
    (\<exists>e. rs_nodes s' e = Some c \<and> (e, sint (getTime s + delta) * sint (rs_clock s), 0) \<in> set ag') \<and>
    curTick (rs_evq s') = curTick (rs_evq s) \<and> rs_clock s' = rs_clock s \<and> rs_randomization s' = rs_randomization s \<and>
    (\<forall>r. r \<noteq> p \<longrightarrow> rs_msgs s' r = rs_msgs s r)"
proof -
  let ?t = "getTime s + delta"
  let ?ag = "if ?t \<in> m_scheduled_wakeups x then ag else insort_key snd (al (heap (rs_evq s)), sint ?t * sint (rs_clock s), 0) ag"
  let ?x = "x\<lparr>m_scheduled_wakeups := insert ?t (m_scheduled_wakeups x)\<rparr>"
  define P where "P s' \<longleftrightarrow> agenda (rs_evq s') ?ag \<and> wakeups_ok s' ?ag \<and> rs_consumers s' = (rs_consumers s)(c \<mapsto> ?x) \<and>
    curTick (rs_evq s') = curTick (rs_evq s) \<and> rs_clock s' = rs_clock s \<and> rs_randomization s' = rs_randomization s \<and>
    (\<forall>r. r \<noteq> p \<longrightarrow> rs_msgs s' r = rs_msgs s r)" for s'
  have "\<exists>s2. scheduleEventAbsolute al (Some c) ?t (put_msg (Some p) z s) = ret s2 \<and> P s2" for z
  proof -
    let ?s = "put_msg (Some p) z s"
    have "agenda (rs_evq ?s) ag" "wakeups_ok ?s ag" "rs_consumers ?s c = Some x" "clock_ok ?s" "in_range ?t ?s"
      "?t \<in> m_scheduled_wakeups x \<or> heap (rs_evq ?s) (al (heap (rs_evq ?s))) = None"
      using ev by (simp_all add: put_msg_def wakeups_ok_def clock_ok_def in_range_def getTime_def)
    from scheduleEventAbsolute_wakes [where al = al, OF this] show ?thesis
      unfolding P_def by (auto simp: put_msg_def)
  qed
  moreover have "getTime s <s ?t" using ev(5) by (simp add: in_range_def word_sless_alt)
  ultimately obtain b' s' where run: "enqueue chk al (Some p) delta b s = ret (b', s')" and s': "P s'"
    using enqueue_returns [where chk = chk and P = P and al = al, OF q room b(1-3) b(4,5) m] by blast
  have "getTime s' = getTime s" using s' by (simp add: P_def getTime_def)
  then have "\<exists>e. rs_nodes s' e = Some c \<and> (e, sint ?t * sint (rs_clock s'), 0) \<in> set ?ag"
    using s' ev(5) unfolding P_def wakeups_ok_def in_range_def by fastforce
  with run s' show ?thesis unfolding P_def by (intro exI [of _ b'] exI [of _ s'] exI [of _ ?ag] exI [of _ ?x]) simp
qed

subsection \<open>Properties\<close>

definition sample_buffer :: msg_buffer where
  "sample_buffer = (setOrdering True (MessageBuffer_new 0 ''b''))\<lparr>m_consumer_ptr := Some 1\<rparr>"


lemma sample_fields:
  "m_ordering_set sample_buffer" "m_consumer_ptr sample_buffer = Some 1" "m_last_arrival_time sample_buffer = 0"
  "sint (m_msg_counter sample_buffer) < 2 ^ 31 - 1" "\<not> rs_randomization sample_ruby" "rs_consumers sample_ruby 1 = Some Consumer_new"
  "rs_clock sample_ruby = 10"
  "rs_msgs sample_ruby 5 = Some \<lparr>msg_time = 0, msg_LastEnqueueTime = 0, msg_DelayedCycles = 0\<rparr>"
  "rs_msgs sample_ruby 6 = Some \<lparr>msg_time = 0, msg_LastEnqueueTime = 0, msg_DelayedCycles = 0\<rparr>"
  by (simp_all add: sample_buffer_def setOrdering_def MessageBuffer_new_def sample_ruby_def)

text \<open>Enqueueing in a state whose event queue has a free object at 77 or at 78.\<close>

definition sample_alloc :: "(nat \<Rightarrow> event option) \<Rightarrow> nat" where
  "sample_alloc h = (if h 77 = None then 77 else 78)"

lemma sample_enqueue:
  assumes q: "queue_of b xs" "counted b xs" "sint (m_msg_counter b) < 2 ^ 31 - 1" "m_ordering_set b" "m_consumer_ptr b = Some 1"
      "m_last_arrival_time b = 0"
    and s: "\<not> rs_randomization s" "agenda (rs_evq s) ag" "wakeups_ok s ag" "rs_consumers s 1 = Some x" "clock_ok s" "rs_clock s = 10"
      "heap (rs_evq s) 78 = None" "rs_msgs s p = rs_msgs sample_ruby p"
    and p: "p = 5 \<or> p = 6" and t: "getTime s = 0 \<or> getTime s = 4" "delta = 1 \<or> delta = 3"
  shows "\<exists>b1 s1. enqueue True sample_alloc (Some p) delta b s = ret (b1, s1) \<and>
    curTick (rs_evq s1) = curTick (rs_evq s) \<and> rs_clock s1 = rs_clock s"
proof -
  have m: "rs_msgs s p = Some \<lparr>msg_time = 0, msg_LastEnqueueTime = 0, msg_DelayedCycles = 0\<rparr>"
    using p s(8) sample_fields(8,9) by auto
  have al: "getTime s + delta \<in> m_scheduled_wakeups x \<or> heap (rs_evq s) (sample_alloc (heap (rs_evq s))) = None"
    using s(7) by (simp add: sample_alloc_def)
  have "0 <s delta" "m_strict_fifo b \<longrightarrow> m_last_arrival_time b \<le>s getTime s + delta" "(0 :: tick) \<le>s getTime s"
    "in_range (getTime s + delta) s"
    using q(6) t s(6) by (auto simp: in_range_def word_sle_eq word_sless_alt)
  from enqueue_wakes [where chk = True and al = sample_alloc, OF q(1-5) disjI1 [OF s(1)] this(1,2) m _ s(2-5) this(4) al] this(3)
  show ?thesis by auto
qed

text \<open>
  C27: A buffer is a queue ordered by arrival time and, among equal times, by the counter of the
  messages, as long as different messages have different counters that are not beyond the
  counter of the buffer. Enqueueing puts the message behind all that do not arrive later and in
  front of the others, with the time now plus the delay unless times are randomised; in a strict first-in first-out buffer it does not arrive before the last
  arrival time, so that it goes to the end if no message of the buffer arrives after that time.
  Dequeueing takes the first message once its time has come. Recycling gives the first message a
  new time and keeps its counter and everything else of the buffer, the last arrival time included. Both are stopped by
  an assertion before the time has come. Delaying the first message enqueues it again. Taking out
  everything yields the messages in order; clearing the buffer empties it. Enqueueing, dequeueing,
  recycling and delaying keep the condition on the counters; the condition on the last
  arrival time is kept by enqueueing and dequeueing, and not by recycling: a message enqueued
  later may be placed in front of the recycled one.
\<close>

theorem message_queue:
  fixes s :: ruby_sys
  assumes q: "queue_of b xs" "counted b xs" and room: "sint (m_msg_counter b) < 2 ^ 31 - 1"
    and t: "t = getTime s + scast (m_recycle_latency b)"
  shows "(enqueue chk al m delta b s = ret (b1, s1) \<longrightarrow>
      (\<exists>n ys. mn_msgptr n = m \<and> sint (getTime s) < sint (mn_time n) \<and>
        (\<not> rs_randomization s \<or> \<not> m_randomization b \<longrightarrow> mn_time n = getTime s + delta) \<and>
        ys = takeWhile (\<lambda>x. mn_time x \<le>s mn_time n) xs @ n # dropWhile (\<lambda>x. mn_time x \<le>s mn_time n) xs \<and>
        queue_of b1 ys \<and> counted b1 ys \<and>
        (m_strict_fifo b \<longrightarrow> sint (m_last_arrival_time b) \<le> sint (mn_time n) \<and>
          (none_later b xs \<longrightarrow> ys = xs @ [n] \<and> none_later b1 ys)))) \<and>
    (case xs of [] \<Rightarrow> dequeue chk b s = Inl (Assert ''size() > 0'')
     | x # ys \<Rightarrow>
         (if mn_time x \<le>s getTime s
          then (\<exists>b2. dequeue chk b s = Inr (mn_msgptr x, b2) \<and> queue_of b2 ys \<and> counted b2 ys \<and>
              (none_later b xs \<longrightarrow> none_later b2 ys)) \<and>
            (\<exists>b2. recycle chk al b s = bindC (scheduleEventAbsolute al (m_consumer_ptr b) t s) (\<lambda>s2. ret (b2, s2)) \<and>
              queue_of b2 (insort_key node_key (x\<lparr>mn_time := t\<rparr>) ys) \<and> counted b2 (insort_key node_key (x\<lparr>mn_time := t\<rparr>) ys) \<and>
              b2 = b\<lparr>m_prio_heap := m_prio_heap b2\<rparr>)
          else dequeue chk b s = Inl (Assert ''isReady()'') \<and> recycle chk al b s = fail (Assert ''isReady()'')) \<and>
         (delayHead chk al b s = ret (b1, s1) \<longrightarrow>
           (\<exists>n zs. mn_msgptr n = mn_msgptr x \<and> sint (getTime s) < sint (mn_time n) \<and> queue_of b1 zs \<and> counted b1 zs \<and>
             zs = takeWhile (\<lambda>x. mn_time x \<le>s mn_time n) ys @ n # dropWhile (\<lambda>x. mn_time x \<le>s mn_time n) ys))) \<and>
    (\<exists>h. drain (heap_pop chk node_less_then_eq) (length xs) (m_prio_heap b) = ret (h, xs)) \<and>
    (\<exists>b3. mb_clear chk b = Inr b3 \<and> queue_of b3 [])"
    (is "?enq \<and> ?head \<and> _ \<and> _")
proof (intro conjI)
  show ?enq using enqueue_queue [OF q room] by (intro impI)
  show ?head
  proof (cases xs)
    case Nil
    then show ?thesis using dequeue_queue [OF q, of chk s] by simp
  next
    case (Cons x ys)
    note c = q [unfolded Cons]
    show ?thesis
      using dequeue_queue [OF c, of chk s] recycle_queue [OF c, of s chk al] delayHead_queue [OF c room, of chk al s b1 s1]
      unfolding Cons t list.case by (simp split: if_splits)
  qed
  obtain h where h: "clear_heap chk (m_prio_heap b) = Inr h" "queue_of (b\<lparr>m_prio_heap := h\<rparr>) []"
    using clear_heap_queue [OF q(1)] by blast
  moreover from h(2) have "ph_size h = 0" using queue_length by fastforce
  ultimately show "\<exists>b3. mb_clear chk b = Inr b3 \<and> queue_of b3 []" by (simp add: mb_clear_def queue_of_def)
qed (rule queue_drain [OF q(1)])

definition one_message :: "tick \<Rightarrow> msg_buffer" where
  "one_message t = sample_buffer\<lparr>m_prio_heap := \<lparr>m_heap = \<lparr>vec_mem = [MessageBufferNode_new t 1 (Some 5), MessageBufferNode_new t 1 (Some 5)],
     vec_size = 2\<rparr>, m_current_size = 1\<rparr>, m_size := 1, m_msg_counter := 1, m_recycle_latency := 5\<rparr>"

lemma one_message_queue: "queue_of (one_message t) [MessageBufferNode_new t 1 (Some 5)]" "counted (one_message t) [MessageBufferNode_new t 1 (Some 5)]"
  by (simp_all add: one_message_def queue_of_def heap_ok_def elems_def vec_ok_def contents_def body_def heap_fun_def counted_def
      MessageBufferNode_new_def)

lemma one_message_fields:
  "m_ordering_set (one_message t)" "m_consumer_ptr (one_message t) = Some 1" "m_last_arrival_time (one_message t) = 0"
  "sint (m_msg_counter (one_message t)) < 2 ^ 31 - 1" "m_strict_fifo (one_message t)" "m_recycle_latency (one_message t) = 5"
  "m_size (one_message t) = 1" "m_time_last_time_pop (one_message t) = 0" "m_time_last_time_enqueue (one_message t) = 0"
  by (simp_all add: one_message_def sample_buffer_def setOrdering_def MessageBuffer_new_def)

lemma sample_wakeup:
  "\<exists>s ag x. scheduleEventAbsolute sample_alloc (Some 1) 5 sample_ruby = ret s \<and> \<not> rs_randomization s \<and> agenda (rs_evq s) ag \<and>
    wakeups_ok s ag \<and> rs_consumers s 1 = Some x \<and> clock_ok s \<and> rs_clock s = 10 \<and> heap (rs_evq s) 78 = None \<and>
    rs_msgs s = rs_msgs sample_ruby \<and> getTime s = 0"
proof -
  have h: "heap (rs_evq sample_ruby) 77 = None" "heap (rs_evq sample_ruby) 78 = None"
    by (simp_all add: sample_ruby_def idle_queue_def)
  have "in_range 5 sample_ruby" using sample_ruby_fields(3) sample_fields(7) by (simp add: in_range_def)
  from scheduleEventAbsolute_wakes [where al = sample_alloc, OF sample_ruby_fields(1,6) sample_fields(6) sample_ruby_fields(2) this] h(1)
  obtain s ag where s: "scheduleEventAbsolute sample_alloc (Some 1) 5 sample_ruby = ret s" "agenda (rs_evq s) ag" "wakeups_ok s ag"
    "rs_consumers s = (rs_consumers sample_ruby)(1 \<mapsto> Consumer_new\<lparr>m_scheduled_wakeups := insert 5 (m_scheduled_wakeups Consumer_new)\<rparr>)"
    "curTick (rs_evq s) = curTick (rs_evq sample_ruby)" "rs_clock s = rs_clock sample_ruby" "rs_msgs s = rs_msgs sample_ruby"
    "rs_randomization s = rs_randomization sample_ruby" "dom (heap (rs_evq s)) \<subseteq> insert 77 (dom (heap (rs_evq sample_ruby)))"
    by (auto simp: sample_alloc_def)
  have "heap (rs_evq s) 78 = None" using s(9) h(2) by (auto simp: domIff)
  moreover have "clock_ok s" "getTime s = 0"
    using s(5,6) sample_ruby_fields(2,3) by (simp_all add: clock_ok_def getTime_def)
  ultimately show ?thesis using s sample_fields(5,7) by auto
qed

theorem message_queue_witness:
  "\<exists>b1 s1 b2 s2 n. m_strict_fifo (one_message 0) \<and> recycle True sample_alloc (one_message 0) sample_ruby = ret (b1, s1) \<and>
    queue_of b1 [MessageBufferNode_new 5 1 (Some 5)] \<and>
    enqueue True sample_alloc (Some 6) 3 b1 s1 = ret (b2, s2) \<and> mn_msgptr n = Some 6 \<and>
    queue_of b2 [n, MessageBufferNode_new 5 1 (Some 5)] \<and> dequeue True b2 s2 = Inl (Assert ''isReady()'')"
proof -
  obtain s1 ag x where s1: "scheduleEventAbsolute sample_alloc (Some 1) 5 sample_ruby = ret s1" "\<not> rs_randomization s1"
      "agenda (rs_evq s1) ag" "wakeups_ok s1 ag" "rs_consumers s1 1 = Some x" "clock_ok s1" "rs_clock s1 = 10"
      "heap (rs_evq s1) 78 = None" "rs_msgs s1 = rs_msgs sample_ruby" "getTime s1 = 0"
    using sample_wakeup by blast
  let ?x = "MessageBufferNode_new 5 1 (Some 5)"
  have "5 = getTime sample_ruby + scast (m_recycle_latency (one_message 0))"
    by (simp add: sample_ruby_fields(3) one_message_fields(6))
  note mq = message_queue [OF one_message_queue [of 0] one_message_fields(4) this, of True sample_alloc None 0 sample_buffer sample_ruby]
  have ready: "mn_time (MessageBufferNode_new 0 1 (Some 5)) \<le>s getTime sample_ruby"
    by (simp add: MessageBufferNode_new_def sample_ruby_fields(3) word_sle_eq)
  obtain b1 where "recycle True sample_alloc (one_message 0) sample_ruby =
        bindC (scheduleEventAbsolute sample_alloc (m_consumer_ptr (one_message 0)) 5 sample_ruby) (\<lambda>s2. ret (b1, s2))"
      "queue_of b1 [?x]" "counted b1 [?x]" "b1 = (one_message 0)\<lparr>m_prio_heap := m_prio_heap b1\<rparr>"
    using mq [THEN conjunct2, THEN conjunct1, unfolded list.case if_P [OF ready], THEN conjunct1, THEN conjunct2]
    by (auto simp: MessageBufferNode_new_def)
  then have b1: "recycle True sample_alloc (one_message 0) sample_ruby = ret (b1, s1)" "queue_of b1 [?x]" "counted b1 [?x]"
    and fr: "b1 = (one_message 0)\<lparr>m_prio_heap := m_prio_heap b1\<rparr>"
    using s1(1) one_message_fields(2) by simp_all
  have f: "m_ordering_set b1" "m_consumer_ptr b1 = Some 1" "sint (m_msg_counter b1) < 2 ^ 31 - 1" "m_last_arrival_time b1 = 0"
    by (subst fr; use one_message_fields in simp)+
  obtain b2 s2 where run: "enqueue True sample_alloc (Some 6) 3 b1 s1 = ret (b2, s2)"
      "curTick (rs_evq s2) = curTick (rs_evq s1)" "rs_clock s2 = rs_clock s1"
    using sample_enqueue [OF b1(2,3) f(3,1,2,4) s1(2-8), of 6 3] s1(9,10) by auto
  note mq = message_queue [OF b1(2,3) f(3) refl, of True sample_alloc "Some 6" 3 s1 b2 s2]
  obtain n ys where n: "mn_msgptr n = Some 6" "mn_time n = getTime s1 + 3" "queue_of b2 ys" "counted b2 ys" and
      ys: "ys = takeWhile (\<lambda>x. mn_time x \<le>s mn_time n) [?x] @ n # dropWhile (\<lambda>x. mn_time x \<le>s mn_time n) [?x]"
    using mq [THEN conjunct1, THEN mp, OF run(1)] disjI1 [OF s1(2)] by blast
  have "ys = [n, ?x]" using n(2) s1(10) by (simp add: ys MessageBufferNode_new_def word_sle_eq)
  note n = n(1) n(2) [unfolded s1(10)] n(3,4) [unfolded this]
  have "getTime s2 = 0" using run(2,3) s1(10) by (simp add: getTime_def)
  then have "dequeue True b2 s2 = Inl (Assert ''isReady()'')"
    using dequeue_queue [OF n(3,4), of True s2] n(2) by (simp add: word_sle_eq)
  with b1(1,2) run(1) n one_message_fields(5) show ?thesis by blast
qed



lemma ph_insert_size: "ph_insert chk d le x h = Inr h' \<Longrightarrow> m_current_size h' = m_current_size h + 1"
  by (auto simp: ph_insert_def Let_def)

lemma enqueue_fields:
  assumes "enqueue chk al m delta b s = ret (b', s')"
  shows "m_size b' = m_size b + 1" "m_time_last_time_pop b' = m_time_last_time_pop b" "m_size_at_cycle_start b' = m_size_at_cycle_start b"
    "ph_size (m_prio_heap b') = ph_size (m_prio_heap b) + 1"
    "m_time_last_time_enqueue b <s getTime s \<Longrightarrow> m_time_last_time_enqueue b' = getTime s \<and> m_msgs_this_cycle b' = 1"
proof -
  obtain arr h where
    h: "ph_insert chk MessageBufferNode_default node_less_then_eq (MessageBufferNode_new arr (m_msg_counter b + 1) m) (m_prio_heap b) = Inr h"
    and b': "b' = (count_message (getTime s) b)\<lparr>m_last_arrival_time := arr, m_prio_heap := h\<rparr>"
    using enqueue_effect [OF assms] by metis
  show "m_size b' = m_size b + 1" "m_time_last_time_pop b' = m_time_last_time_pop b" "m_size_at_cycle_start b' = m_size_at_cycle_start b"
    "ph_size (m_prio_heap b') = ph_size (m_prio_heap b) + 1"
    using ph_insert_size [OF h] by (simp_all add: b' ph_size_def)
  show "m_time_last_time_enqueue b' = getTime s \<and> m_msgs_this_cycle b' = 1" if "m_time_last_time_enqueue b <s getTime s"
    using that by (simp add: b' count_message_def Let_def)
qed

lemma mb_pop_fields:
  assumes "mb_pop chk b s = Inr b'"
  shows "m_size b' = m_size b - 1" "m_time_last_time_enqueue b' = m_time_last_time_enqueue b"
    "m_msgs_this_cycle b' = m_msgs_this_cycle b"
    "m_time_last_time_pop b <s getTime s \<Longrightarrow> m_time_last_time_pop b' = getTime s \<and> m_size_at_cycle_start b' = m_size b"
  using assms by (auto simp: mb_pop_def Let_def)

text \<open>
  C40: The accounting of slots: pushing the first message back with \<open>delayHead\<close> adds one to the
  size although the number of messages is unchanged. In a cycle with one pop and one enqueue,
  the number of messages that \<open>areNSlotsAvailable\<close> sees is the number at the start of the cycle
  plus one when the pop comes first, but plus two when the enqueue comes first.
\<close>

theorem slot_accounting:
  assumes q: "queue_of b (x # xs)"
  shows "(delayHead chk al b s = ret (b1, s1) \<longrightarrow>
      m_size b1 = m_size b + 1 \<and> ph_size (m_prio_heap b1) = ph_size (m_prio_heap b)) \<and>
    (m_time_last_time_pop b <s getTime s \<and> m_time_last_time_enqueue b <s getTime s \<longrightarrow>
      (mb_pop chk b s = Inr b2 \<and> enqueue chk al m delta b2 s = ret (b3, s3) \<and> getTime s3 = getTime s \<longrightarrow>
        visible_size b3 s3 = m_size b + 1) \<and>
      (enqueue chk al m delta b s = ret (b4, s4) \<and> getTime s4 = getTime s \<and> mb_pop chk b4 s4 = Inr b5 \<longrightarrow>
        visible_size b5 s4 = m_size b + 2 \<and> m_size b5 = m_size b))"
proof (intro conjI impI; (elim conjE)?)
  assume run: "delayHead chk al b s = ret (b1, s1)"
  obtain h where h: "extractMin chk node_less_then_eq (m_prio_heap b) = Inr (h, x)" "queue_of (b\<lparr>m_prio_heap := h\<rparr>) xs"
    using queue_extract [OF q] by blast
  have run': "enqueue chk al (mn_msgptr x) 1 (b\<lparr>m_prio_heap := h\<rparr>) s = ret (b1, s1)"
    using run h(1) by (simp add: delayHead_def liftC_def)
  show "m_size b1 = m_size b + 1" using enqueue_fields(1) [OF run'] by simp
  show "ph_size (m_prio_heap b1) = ph_size (m_prio_heap b)"
    using enqueue_fields(4) [OF run'] queue_length [OF q] queue_length [OF h(2)] by simp
next
  assume quiet: "m_time_last_time_pop b <s getTime s" "m_time_last_time_enqueue b <s getTime s"
  {
    assume r: "mb_pop chk b s = Inr b2" "enqueue chk al m delta b2 s = ret (b3, s3)" "getTime s3 = getTime s"
    show "visible_size b3 s3 = m_size b + 1"
      using mb_pop_fields [OF r(1)] enqueue_fields [OF r(2)] quiet r(3) by (simp add: visible_size_def)
  next
    assume r: "enqueue chk al m delta b s = ret (b4, s4)" "getTime s4 = getTime s" "mb_pop chk b4 s4 = Inr b5"
    show "visible_size b5 s4 = m_size b + 2" "m_size b5 = m_size b"
      using mb_pop_fields [OF r(3)] enqueue_fields [OF r(1)] quiet r(2) by (simp_all add: visible_size_def)
  }
qed

definition late_ruby :: ruby_sys where
  "late_ruby = sample_ruby\<lparr>rs_evq := idle_queue\<lparr>curTick := 40\<rparr>\<rparr>"

lemma late_ruby_fields:
  "\<not> rs_randomization late_ruby" "agenda (rs_evq late_ruby) []" "wakeups_ok late_ruby []" "rs_consumers late_ruby 1 = Some Consumer_new"
  "clock_ok late_ruby" "rs_clock late_ruby = 10" "heap (rs_evq late_ruby) 78 = None" "rs_msgs late_ruby 6 = rs_msgs sample_ruby 6"
  "getTime late_ruby = 4"
  by (simp_all add: late_ruby_def sample_ruby_def idle_queue_def agenda_empty clock_ok_def getTime_def wakeups_ok_def Consumer_new_def)

lemma sample_delay: "\<exists>b1 s1. delayHead True sample_alloc (one_message 3) sample_ruby = ret (b1, s1)"
proof -
  obtain h where h: "extractMin True node_less_then_eq (m_prio_heap (one_message 3)) = Inr (h, MessageBufferNode_new 3 1 (Some 5))"
      "queue_of ((one_message 3)\<lparr>m_prio_heap := h\<rparr>) []"
    using queue_extract [OF one_message_queue(1)] by blast
  obtain b1 s1 where "enqueue True sample_alloc (Some 5) 1 ((one_message 3)\<lparr>m_prio_heap := h\<rparr>) sample_ruby = ret (b1, s1)"
    using sample_enqueue [OF h(2) counted_tl [OF one_message_queue(2)], of sample_ruby "[]" Consumer_new 5 1] one_message_fields(1-4) [of 3] sample_fields sample_ruby_fields
    by (auto simp: sample_ruby_def idle_queue_def)
  then show ?thesis
    using h(1) by (simp add: delayHead_def liftC_def MessageBufferNode_new_def)
qed

theorem slot_accounting_witness:
  "(\<exists>b1 s1. delayHead True sample_alloc (one_message 3) sample_ruby = ret (b1, s1) \<and> m_size b1 = 2 \<and> ph_size (m_prio_heap b1) = 1) \<and>
   (\<exists>b2 b3 s3. mb_pop True (one_message 3) late_ruby = Inr b2 \<and> enqueue True sample_alloc (Some 6) 1 b2 late_ruby = ret (b3, s3) \<and>
     visible_size b3 s3 = 2) \<and>
   (\<exists>b4 s4 b5. enqueue True sample_alloc (Some 6) 1 (one_message 3) late_ruby = ret (b4, s4) \<and> mb_pop True b4 s4 = Inr b5 \<and>
     visible_size b5 s4 = 3 \<and> m_size b5 = 1)"
proof (intro conjI)
  note acc = slot_accounting [OF one_message_queue(1) [of 3]] and om = one_message_fields [of 3]
  have quiet: "m_time_last_time_pop (one_message 3) <s getTime late_ruby" "m_time_last_time_enqueue (one_message 3) <s getTime late_ruby"
    by (simp_all add: om late_ruby_fields(9) word_sless_alt)
  obtain b1 s1 where "delayHead True sample_alloc (one_message 3) sample_ruby = ret (b1, s1)" using sample_delay by blast
  moreover from this have "m_size b1 = 2 \<and> ph_size (m_prio_heap b1) = 1"
    using acc [of True sample_alloc sample_ruby b1 s1] by (auto simp: om one_message_def ph_size_def)
  ultimately show "\<exists>b1 s1. delayHead True sample_alloc (one_message 3) sample_ruby = ret (b1, s1) \<and> m_size b1 = 2 \<and> ph_size (m_prio_heap b1) = 1"
    by blast
  have ready: "mn_time (MessageBufferNode_new 3 1 (Some 5)) \<le>s getTime late_ruby"
    by (simp add: MessageBufferNode_new_def late_ruby_fields(9) word_sle_eq)
  obtain b2 where b2: "mb_pop True (one_message 3) late_ruby = Inr b2" "queue_of b2 []" "m_msg_counter b2 = m_msg_counter (one_message 3)"
      "m_last_arrival_time b2 = m_last_arrival_time (one_message 3)"
    using mb_pop_queue [OF one_message_queue(1), of 3 late_ruby True] ready by auto
  have b2': "m_ordering_set b2" "m_consumer_ptr b2 = Some 1" using b2(1) om(1,2) by (auto simp: mb_pop_def Let_def)
  obtain b3 s3 where r3: "enqueue True sample_alloc (Some 6) 1 b2 late_ruby = ret (b3, s3)"
      "curTick (rs_evq s3) = curTick (rs_evq late_ruby)" "rs_clock s3 = rs_clock late_ruby"
    using sample_enqueue [OF b2(2) _ _ b2' _ late_ruby_fields(1-8), of 1] b2(3,4) om(3,4) late_ruby_fields(9) by (auto simp: counted_def)
  from r3(2,3) have "getTime s3 = getTime late_ruby" by (simp add: getTime_def)
  then have "visible_size b3 s3 = 2"
    using acc [of True sample_alloc late_ruby undefined undefined b2 "Some 6" 1 b3 s3] quiet b2(1) r3(1) om(7) by auto
  with b2(1) r3(1) show "\<exists>b2 b3 s3. mb_pop True (one_message 3) late_ruby = Inr b2 \<and>
      enqueue True sample_alloc (Some 6) 1 b2 late_ruby = ret (b3, s3) \<and> visible_size b3 s3 = 2" by blast
  obtain b4 s4 where r4: "enqueue True sample_alloc (Some 6) 1 (one_message 3) late_ruby = ret (b4, s4)"
      "curTick (rs_evq s4) = curTick (rs_evq late_ruby)" "rs_clock s4 = rs_clock late_ruby"
    using sample_enqueue [OF one_message_queue [of 3] om(4,1,2,3) late_ruby_fields(1-8), of 1] late_ruby_fields(9) by auto
  from r4(2,3) have time: "getTime s4 = getTime late_ruby" by (simp add: getTime_def)
  obtain n where "mn_time n = getTime late_ruby + 1" "queue_of b4 (takeWhile (\<lambda>x. mn_time x \<le>s mn_time n) [MessageBufferNode_new 3 1 (Some 5)] @
      n # dropWhile (\<lambda>x. mn_time x \<le>s mn_time n) [MessageBufferNode_new 3 1 (Some 5)])"
    using enqueue_queue [OF one_message_queue [of 3] om(4) r4(1)] disjI1 [OF late_ruby_fields(1)] by blast
  then have "queue_of b4 [MessageBufferNode_new 3 1 (Some 5), n]"
    by (simp add: late_ruby_fields(9) MessageBufferNode_new_def word_sle_eq)
  from mb_pop_queue [OF this, of s4 True] ready obtain b5 where b5: "mb_pop True b4 s4 = Inr b5" by (auto simp: time)
  with acc [of True sample_alloc late_ruby undefined undefined undefined "Some 6" 1 undefined undefined b4 s4 b5] quiet r4(1) time om(7)
  have "visible_size b5 s4 = 3 \<and> m_size b5 = 1" by auto
  with r4(1) b5 show "\<exists>b4 s4 b5. enqueue True sample_alloc (Some 6) 1 (one_message 3) late_ruby = ret (b4, s4) \<and>
      mb_pop True b4 s4 = Inr b5 \<and> visible_size b5 s4 = 3 \<and> m_size b5 = 1" by blast
qed

lemma ph_insert_collision:
  assumes q: "queue_of b [x]" and eq: "mn_time n = mn_time x" "mn_msg_counter n = mn_msg_counter x"
  shows "ph_insert chk d node_less_then_eq n (m_prio_heap b) = Inl (Assert ''n1.m_msg_counter != n2.m_msg_counter'')"
proof -
  let ?v = "m_heap (m_prio_heap b)"
  have sz: "m_current_size (m_prio_heap b) = 1" using queue_length [OF q] by (simp add: ph_size_def)
  have v: "vec_ok ?v" "1 < vec_size ?v" using q sz by (simp_all add: queue_of_def heap_ok_def)
  have "mset (body 1 (contents ?v)) = {#x#}" using q sz by (simp add: queue_of_def elems_def)
  then have x: "contents ?v ! 1 = x" using v nth_body [of 0 1 "contents ?v"] length_body [of 1 "contents ?v"]
    by (cases "body 1 (contents ?v)") auto
  obtain v1 where v1: "vec_setSize chk d 3 ?v = Inr v1" "vec_ok v1" "vec_size v1 = 3"
      "take (vec_size ?v) (contents v1) = take 3 (contents ?v)" using vec_setSize_ok [OF v(1)] .
  have "contents v1 ! 1 = take (vec_size ?v) (contents v1) ! 1" using v(2) by simp
  then have x1: "contents v1 ! 1 = x" using x v1(4) by simp
  have "vec_ref chk 1 v1 = Inr x" using v1 x1 by simp
  then have "sift_up chk node_less_then_eq n 2 v1 = Inl (Assert ''n1.m_msg_counter != n2.m_msg_counter'')"
    using eq by (simp add: sift_up.simps [of chk node_less_then_eq n 2 v1] node_less_then_eq_def)
  then show ?thesis using v1(1) sz by (simp add: ph_insert_def Let_def numeral_2_eq_2 numeral_3_eq_3)
qed

text \<open>
  Clearing the statistics while a message is in the buffer resets the counter that orders the
  messages: if the next message arrives at the same time as one with counter 1, the comparison
  of the two fails its assertion.
\<close>

theorem counter_reuse:
  assumes q: "queue_of b [x]" "mn_msg_counter x = 1" "mn_time x = getTime s + delta"
    and b: "m_ordering_set b" "\<not> rs_randomization s" "0 <s delta" "getTime s <s getTime s + delta"
      "m_strict_fifo b \<longrightarrow> m_last_arrival_time b \<le>s getTime s + delta"
    and m: "rs_msgs s p = Some y" "msg_LastEnqueueTime y \<le>s getTime s"
  shows "enqueue chk al (Some p) delta (clearStats b) s = fail (Assert ''n1.m_msg_counter != n2.m_msg_counter'')"
proof -
  let ?b = "count_message (getTime s) (clearStats b)" and ?t = "getTime s + delta"
  have f: "m_prio_heap ?b = m_prio_heap b" "m_msg_counter ?b = 1" "m_ordering_set ?b" "m_strict_fifo ?b = m_strict_fifo b"
      "m_last_arrival_time ?b = m_last_arrival_time b"
    using b(1) by (simp_all add: clearStats_def)
  have ar: "arrival delta ?b s = (?t, ?b, s)" using b(2) by (simp add: arrival_def Let_def)
  have nf: "\<not> (m_strict_fifo ?b \<and> ?t <s m_last_arrival_time ?b)" using b(5) f by (auto simp: word_sle_eq word_sless_alt)
  have g: "get_msg (Some p) s = ret y" using m(1) by (simp add: get_msg_def)
  have "ph_insert chk MessageBufferNode_default node_less_then_eq (MessageBufferNode_new ?t 1 (Some p)) (m_prio_heap b) =
      Inl (Assert ''n1.m_msg_counter != n2.m_msg_counter'')"
    using q(2,3) by (intro ph_insert_collision [OF q(1)]) (simp_all add: MessageBufferNode_new_def)
  then show ?thesis
    unfolding enqueue_def Let_def ar prod.case if_not_P [OF nf] using b(3,4) g m(2) f by (simp add: liftC_def fail_def)
qed

theorem counter_reuse_witness:
  "enqueue True (\<lambda>_. 77) (Some 5) 3 (clearStats (one_message 3)) sample_ruby = fail (Assert ''n1.m_msg_counter != n2.m_msg_counter'')"
  using counter_reuse [OF one_message_queue(1) [of 3] _ _ _ sample_fields(5) _ _ _ sample_fields(8), of 3 True "\<lambda>_. 77"]
    sample_ruby_fields(3) sample_fields(1,3)
  by (simp add: MessageBufferNode_new_def one_message_def word_sle_eq word_sless_alt)

end
