(* ===== verification/Branch_Tables.thy ===== *)
theory Branch_Tables
  imports Int_Math
begin

unbundle bit_operations_syntax

section \<open>The tables of the branch predictor\<close>

text \<open>
  Model of \<^verbatim>\<open>SatCounter\<close> (\<^verbatim>\<open>src/src/cpu/o3/sat_counter.hh\<close>) and of the tables under
  \<^verbatim>\<open>src/src/cpu/pred\<close>: the local predictor (\<^verbatim>\<open>2bit_local\<close>), the tournament predictor
  (\<^verbatim>\<open>tournament\<close>), the branch target buffer (\<^verbatim>\<open>btb\<close>) and the return address stack (\<^verbatim>\<open>ras\<close>).
  The value of a member that a constructor leaves uninitialised is an argument \<open>junk\<close> of the
  constructor, or \<^const>\<open>None\<close> where no code reads it. A shift of a 32-bit number by 32 or more
  places, undefined in C++, gives 0. The object a \<^verbatim>\<open>bp_history\<close> pointer points to is the value of
  an option: it has one owner, which gives it up to the call that deletes it.

  The lemmas show that on well-formed tables every index is in bounds, that a counter stays
  within its limit, what a lookup in the target buffer returns after an update, and that undoing
  a push or a pop of the return address stack loses at most the slot above the top.
\<close>

subsection \<open>Saturating counters\<close>

record sat_counter =
  initialVal :: uint8
  maxVal :: uint8
  counter :: uint8

definition SatCounter :: "uint8 \<Rightarrow> sat_counter" where
  "SatCounter junk = \<lparr>initialVal = 0, maxVal = junk, counter = 0\<rparr>"

definition SatCounter_bits :: "uint32 \<Rightarrow> sat_counter" where
  "SatCounter_bits bits = \<lparr>initialVal = 0, maxVal = ucast (push_bit (unat bits) 1 - 1 :: 32 word), counter = 0\<rparr>"

definition SatCounter_init :: "uint8 \<Rightarrow> uint32 \<Rightarrow> uint8 \<Rightarrow> sat_counter res" where
  "SatCounter_init junk bits initial_val =
     (let c = \<lparr>initialVal = junk, maxVal = ucast (push_bit (unat bits) 1 - 1 :: 32 word), counter = initial_val\<rparr>
      in if initial_val > maxVal c then Inl (Fatal ''BP: Initial counter value exceeds max size.'') else Inr c)"

definition setBits :: "uint32 \<Rightarrow> sat_counter \<Rightarrow> sat_counter" where
  "setBits bits c = c\<lparr>maxVal := ucast (push_bit (unat bits) 1 - 1 :: 32 word)\<rparr>"

definition sat_reset :: "sat_counter \<Rightarrow> sat_counter" where
  "sat_reset c = c\<lparr>counter := initialVal c\<rparr>"

definition sat_increment :: "sat_counter \<Rightarrow> sat_counter" where
  "sat_increment c = (if counter c < maxVal c then c\<lparr>counter := counter c + 1\<rparr> else c)"

definition sat_decrement :: "sat_counter \<Rightarrow> sat_counter" where
  "sat_decrement c = (if counter c > 0 then c\<lparr>counter := counter c - 1\<rparr> else c)"

definition sat_read :: "sat_counter \<Rightarrow> uint8" where
  "sat_read c = counter c"

text \<open>The two branches of every update: increment on taken, decrement on not taken.\<close>

definition sat_train :: "bool \<Rightarrow> sat_counter \<Rightarrow> sat_counter" where
  "sat_train taken c = (if taken then sat_increment c else sat_decrement c)"

subsection \<open>The local predictor\<close>

record LocalBP =
  lp_localCtrs :: "sat_counter list"
  lp_localPredictorSize :: uint32
  localPredictorSets :: uint32
  lp_localCtrBits :: uint32
  lp_instShiftAmt :: uint32
  indexMask :: uint32

definition LocalBP_new :: "uint8 \<Rightarrow> uint32 \<Rightarrow> uint32 \<Rightarrow> uint32 \<Rightarrow> LocalBP res" where
  "LocalBP_new junk psize cbits shift =
     (if \<not> isPowerOf2 psize then Inl (Fatal ''Invalid local predictor size!'')
      else if cbits = 0 then Inl (Fatal ''division by zero'')
      else let psets = psize div cbits
      in if \<not> isPowerOf2 psets then Inl (Fatal ''Invalid number of local predictor sets! Check localCtrBits.'')
      else Inr \<lparr>lp_localCtrs = map (setBits cbits) (replicate (unat psets) (SatCounter junk)),
                lp_localPredictorSize = psize, localPredictorSets = psets, lp_localCtrBits = cbits,
                lp_instShiftAmt = shift, indexMask = psets - 1\<rparr>)"

definition local_reset :: "LocalBP \<Rightarrow> LocalBP res" where
  "local_reset p = (if unat (localPredictorSets p) \<le> length (lp_localCtrs p)
     then Inr (p\<lparr>lp_localCtrs := map sat_reset (take (unat (localPredictorSets p)) (lp_localCtrs p)) @
                  drop (unat (localPredictorSets p)) (lp_localCtrs p)\<rparr>)
     else Inl BadPtr)"

definition getPrediction :: "LocalBP \<Rightarrow> uint8 \<Rightarrow> bool" where
  "getPrediction p count \<longleftrightarrow> drop_bit (unat (lp_localCtrBits p - 1)) count \<noteq> 0"

definition getLocalIndex :: "LocalBP \<Rightarrow> addr \<Rightarrow> uint32" where
  "getLocalIndex p branch_addr = ucast (drop_bit (unat (lp_instShiftAmt p)) branch_addr AND ucast (indexMask p))"

definition local_lookup :: "addr \<Rightarrow> LocalBP \<Rightarrow> bool res" where
  "local_lookup branch_addr p = bindR (arr_at (lp_localCtrs p) (getLocalIndex p branch_addr)) (\<lambda>c.
     Inr (getPrediction p (sat_read c)))"

definition local_update :: "addr \<Rightarrow> bool \<Rightarrow> 'h option \<Rightarrow> LocalBP \<Rightarrow> LocalBP res" where
  "local_update branch_addr taken bp_history p =
     bindR (assertR (bp_history = None) ''bp_history == NULL'') (\<lambda>_.
     bindR (arr_upd (lp_localCtrs p) (getLocalIndex p branch_addr) (sat_train taken)) (\<lambda>cs.
     Inr (p\<lparr>lp_localCtrs := cs\<rparr>)))"

definition local_squash :: "'h option \<Rightarrow> unit res" where
  "local_squash bp_history = assertR (bp_history = None) ''bp_history == NULL''"

subsection \<open>The tournament predictor\<close>

record BPHistory =
  hist_globalHistory :: uint32
  localPredTaken :: bool
  globalPredTaken :: bool
  globalUsed :: "bool option"

record TournamentBP =
  localCtrs :: "sat_counter list"
  localPredictorSize :: uint32
  localPredictorMask :: uint32
  localCtrBits :: uint32
  localHistoryTable :: "uint32 list"
  localHistoryTableSize :: uint32
  localHistoryBits :: uint32
  localHistoryMask :: uint32
  globalCtrs :: "sat_counter list"
  globalPredictorSize :: uint32
  globalCtrBits :: uint32
  globalHistory :: uint32
  globalHistoryBits :: uint32
  globalHistoryMask :: uint32
  choiceCtrs :: "sat_counter list"
  choicePredictorSize :: uint32
  choiceCtrBits :: uint32
  instShiftAmt :: uint32
  threshold :: uint32

text \<open>The three loops that resize a table and set the width of its counters.\<close>

definition counters :: "uint8 \<Rightarrow> uint32 \<Rightarrow> uint32 \<Rightarrow> sat_counter list" where
  "counters junk n bits = map (setBits bits) (replicate (unat n) (SatCounter junk))"

definition TournamentBP_new ::
  "uint8 \<Rightarrow> uint32 \<Rightarrow> uint32 \<Rightarrow> uint32 \<Rightarrow> uint32 \<Rightarrow> uint32 \<Rightarrow> uint32 \<Rightarrow> uint32 \<Rightarrow> uint32 \<Rightarrow> uint32 \<Rightarrow> uint32 \<Rightarrow>
   TournamentBP res" where
  "TournamentBP_new junk lpsize lcbits lhtsize lhbits gpsize gcbits ghbits cpsize ccbits shift =
     (if \<not> isPowerOf2 lpsize then Inl (Fatal ''Invalid local predictor size!'') else
      bindR (floorPow2 lpsize) (\<lambda>lp2.
      if \<not> isPowerOf2 lhtsize then Inl (Fatal ''Invalid local history table size!'')
      else if \<not> isPowerOf2 gpsize then Inl (Fatal ''Invalid global predictor size!'')
      else if \<not> isPowerOf2 gpsize then Inl (Fatal ''Invalid choice predictor size!'')
      else Inr \<lparr>localCtrs = counters junk lpsize lcbits,
                localPredictorSize = lpsize,
                localPredictorMask = lp2 - 1,
                localCtrBits = lcbits,
                localHistoryTable = replicate (unat lhtsize) 0,
                localHistoryTableSize = lhtsize,
                localHistoryBits = lhbits,
                localHistoryMask = push_bit (unat lhbits) 1 - 1,
                globalCtrs = counters junk gpsize gcbits,
                globalPredictorSize = gpsize,
                globalCtrBits = gcbits,
                globalHistory = 0,
                globalHistoryBits = ghbits,
                globalHistoryMask = push_bit (unat ghbits) 1 - 1,
                choiceCtrs = counters junk gpsize ccbits,
                choicePredictorSize = gpsize,
                choiceCtrBits = ccbits,
                instShiftAmt = shift,
                threshold = push_bit (unat (lcbits - 1)) 1 - 1\<rparr>))"

definition calcLocHistIdx :: "TournamentBP \<Rightarrow> addr \<Rightarrow> uint32" where
  "calcLocHistIdx t branch_addr =
     ucast (drop_bit (unat (instShiftAmt t)) branch_addr AND ucast (localHistoryTableSize t - 1))"

definition updateGlobalHistTaken :: "TournamentBP \<Rightarrow> TournamentBP" where
  "updateGlobalHistTaken t = t\<lparr>globalHistory := (push_bit 1 (globalHistory t) OR 1) AND globalHistoryMask t\<rparr>"

definition updateGlobalHistNotTaken :: "TournamentBP \<Rightarrow> TournamentBP" where
  "updateGlobalHistNotTaken t = t\<lparr>globalHistory := push_bit 1 (globalHistory t) AND globalHistoryMask t\<rparr>"

definition updateLocalHistTaken :: "uint32 \<Rightarrow> TournamentBP \<Rightarrow> TournamentBP res" where
  "updateLocalHistTaken i t = bindR (arr_upd (localHistoryTable t) i (\<lambda>h. push_bit 1 h OR 1)) (\<lambda>xs.
     Inr (t\<lparr>localHistoryTable := xs\<rparr>))"

definition updateLocalHistNotTaken :: "uint32 \<Rightarrow> TournamentBP \<Rightarrow> TournamentBP res" where
  "updateLocalHistNotTaken i t = bindR (arr_upd (localHistoryTable t) i (push_bit 1)) (\<lambda>xs.
     Inr (t\<lparr>localHistoryTable := xs\<rparr>))"

text \<open>The comparison of a counter with the threshold, the same for the three tables.\<close>

definition above :: "TournamentBP \<Rightarrow> sat_counter \<Rightarrow> bool" where
  "above t c \<longleftrightarrow> ucast (sat_read c) > threshold t"

definition tournament_lookup :: "addr \<Rightarrow> TournamentBP \<Rightarrow> (bool \<times> BPHistory \<times> TournamentBP) res" where
  "tournament_lookup branch_addr t =
     (let local_history_idx = calcLocHistIdx t branch_addr in
      bindR (arr_at (localHistoryTable t) local_history_idx) (\<lambda>lh.
      let local_predictor_idx = lh AND localPredictorMask t in
      bindR (arr_at (localCtrs t) local_predictor_idx) (\<lambda>lc.
      bindR (arr_at (globalCtrs t) (globalHistory t)) (\<lambda>gc.
      bindR (arr_at (choiceCtrs t) (globalHistory t)) (\<lambda>cc.
      let local_prediction = above t lc;
          global_prediction = above t gc;
          choice_prediction = above t cc;
          history = \<lparr>hist_globalHistory = globalHistory t, localPredTaken = local_prediction,
                     globalPredTaken = global_prediction, globalUsed = Some choice_prediction\<rparr>
      in bindR (assertR (globalHistory t < globalPredictorSize t \<and>
                         local_history_idx < localHistoryTableSize t \<and>
                         local_predictor_idx < localPredictorSize t) ''globalHistory < globalPredictorSize'') (\<lambda>_.
         if choice_prediction then
           (if global_prediction then Inr (True, history, updateGlobalHistTaken t)
            else Inr (False, history, updateGlobalHistNotTaken t))
         else
           (if local_prediction then Inr (True, history, updateGlobalHistTaken t)
            else Inr (False, history, updateGlobalHistNotTaken t))))))))"

definition uncondBr :: "TournamentBP \<Rightarrow> BPHistory \<times> TournamentBP" where
  "uncondBr t = (\<lparr>hist_globalHistory = globalHistory t, localPredTaken = True, globalPredTaken = True,
                   globalUsed = None\<rparr>, updateGlobalHistTaken t)"

text \<open>The first part of \<^verbatim>\<open>TournamentBP::update\<close>, on the choice predictor.\<close>

definition choice_update :: "bool \<Rightarrow> BPHistory option \<Rightarrow> TournamentBP \<Rightarrow> TournamentBP res" where
  "choice_update taken bp_history t =
     (case bp_history of None \<Rightarrow> Inr t
      | Some history \<Rightarrow>
         if localPredTaken history \<noteq> globalPredTaken history then
           (if localPredTaken history = taken
            then bindR (arr_upd (choiceCtrs t) (globalHistory t) sat_decrement) (\<lambda>cs. Inr (t\<lparr>choiceCtrs := cs\<rparr>))
            else if globalPredTaken history = taken
            then bindR (arr_upd (choiceCtrs t) (globalHistory t) sat_increment) (\<lambda>cs. Inr (t\<lparr>choiceCtrs := cs\<rparr>))
            else Inr t)
         else Inr t)"

definition tournament_update :: "addr \<Rightarrow> bool \<Rightarrow> BPHistory option \<Rightarrow> TournamentBP \<Rightarrow> TournamentBP res" where
  "tournament_update branch_addr taken bp_history t =
     (let local_history_idx = calcLocHistIdx t branch_addr in
      bindR (arr_at (localHistoryTable t) local_history_idx) (\<lambda>local_predictor_hist.
      let local_predictor_idx = local_predictor_hist AND localPredictorMask t in
      bindR (choice_update taken bp_history t) (\<lambda>t1.
      bindR (assertR (globalHistory t1 < globalPredictorSize t1 \<and>
                      local_history_idx < localHistoryTableSize t1 \<and>
                      local_predictor_idx < localPredictorSize t1) ''globalHistory < globalPredictorSize'') (\<lambda>_.
      bindR (arr_upd (localCtrs t1) local_predictor_idx (sat_train taken)) (\<lambda>lcs.
      bindR (arr_upd (globalCtrs t1) (globalHistory t1) (sat_train taken)) (\<lambda>gcs.
      let t2 = t1\<lparr>localCtrs := lcs, globalCtrs := gcs\<rparr>
      in if taken then updateLocalHistTaken local_history_idx t2
         else updateLocalHistNotTaken local_history_idx t2))))))"

definition tournament_squash :: "BPHistory option \<Rightarrow> TournamentBP \<Rightarrow> TournamentBP res" where
  "tournament_squash bp_history t =
     (case bp_history of None \<Rightarrow> Inl BadPtr
      | Some history \<Rightarrow> Inr (t\<lparr>globalHistory := hist_globalHistory history\<rparr>))"

subsection \<open>The branch target buffer\<close>

record BTBEntry =
  tag :: addr
  target :: addr
  tid :: int16
  valid :: bool

record DefaultBTB =
  btb :: "BTBEntry list"
  btb_numEntries :: uint32
  idxMask :: uint32
  tagBits :: uint32
  tagMask :: uint32
  btb_instShiftAmt :: uint32
  tagShiftAmt :: uint32

definition BTBEntry_new :: "int16 \<Rightarrow> BTBEntry" where
  "BTBEntry_new junk = \<lparr>tag = 0, target = 0, tid = junk, valid = False\<rparr>"

definition DefaultBTB_new :: "int16 \<Rightarrow> uint32 \<Rightarrow> uint32 \<Rightarrow> uint32 \<Rightarrow> DefaultBTB res" where
  "DefaultBTB_new junk entries tbits shift =
     (if \<not> isPowerOf2 entries then Inl (Fatal ''BTB entries is not a power of 2!'') else
      bindR (floorLog2 entries) (\<lambda>lg.
      Inr \<lparr>btb = map (\<lambda>e. e\<lparr>valid := False\<rparr>) (replicate (unat entries) (BTBEntry_new junk)),
           btb_numEntries = entries, idxMask = entries - 1, tagBits = tbits,
           tagMask = push_bit (unat tbits) 1 - 1, btb_instShiftAmt = shift,
           tagShiftAmt = shift + of_nat lg\<rparr>))"

definition DefaultBTB_reset :: "DefaultBTB \<Rightarrow> DefaultBTB res" where
  "DefaultBTB_reset b = (if unat (btb_numEntries b) \<le> length (btb b)
     then Inr (b\<lparr>btb := map (\<lambda>e. e\<lparr>valid := False\<rparr>) (take (unat (btb_numEntries b)) (btb b)) @
                 drop (unat (btb_numEntries b)) (btb b)\<rparr>)
     else Inl BadPtr)"

definition getIndex :: "DefaultBTB \<Rightarrow> addr \<Rightarrow> uint32" where
  "getIndex b inst_PC = ucast (drop_bit (unat (btb_instShiftAmt b)) inst_PC AND ucast (idxMask b))"

definition getTag :: "DefaultBTB \<Rightarrow> addr \<Rightarrow> addr" where
  "getTag b inst_PC = drop_bit (unat (tagShiftAmt b)) inst_PC AND ucast (tagMask b)"

definition DefaultBTB_valid :: "addr \<Rightarrow> int16 \<Rightarrow> DefaultBTB \<Rightarrow> bool res" where
  "DefaultBTB_valid inst_PC t b =
     (let btb_idx = getIndex b inst_PC; inst_tag = getTag b inst_PC in
      bindR (assertR (btb_idx < btb_numEntries b) ''btb_idx < numEntries'') (\<lambda>_.
      bindR (arr_at (btb b) btb_idx) (\<lambda>e.
      Inr (valid e \<and> inst_tag = tag e \<and> tid e = t))))"

definition DefaultBTB_lookup :: "addr \<Rightarrow> int16 \<Rightarrow> DefaultBTB \<Rightarrow> addr res" where
  "DefaultBTB_lookup inst_PC t b =
     (let btb_idx = getIndex b inst_PC; inst_tag = getTag b inst_PC in
      bindR (assertR (btb_idx < btb_numEntries b) ''btb_idx < numEntries'') (\<lambda>_.
      bindR (arr_at (btb b) btb_idx) (\<lambda>e.
      Inr (if valid e \<and> inst_tag = tag e \<and> tid e = t then target e else 0))))"

definition DefaultBTB_update :: "addr \<Rightarrow> addr \<Rightarrow> int16 \<Rightarrow> DefaultBTB \<Rightarrow> DefaultBTB res" where
  "DefaultBTB_update inst_PC tgt t b =
     (let btb_idx = getIndex b inst_PC in
      bindR (assertR (btb_idx < btb_numEntries b) ''btb_idx < numEntries'') (\<lambda>_.
      bindR (arr_upd (btb b) btb_idx (\<lambda>e. e\<lparr>tid := t, valid := True, target := tgt, tag := getTag b inst_PC\<rparr>)) (\<lambda>es.
      Inr (b\<lparr>btb := es\<rparr>))))"

subsection \<open>The return address stack\<close>

record ReturnAddrStack =
  addrStack :: "addr list"
  numEntries :: uint32
  usedEntries :: uint32
  tos :: uint32

definition ras_init :: "uint32 \<Rightarrow> ReturnAddrStack" where
  "ras_init n = \<lparr>addrStack = replicate (unat n) 0, numEntries = n, usedEntries = 0, tos = 0\<rparr>"

definition ras_reset :: "ReturnAddrStack \<Rightarrow> ReturnAddrStack res" where
  "ras_reset r = (if unat (numEntries r) \<le> length (addrStack r)
     then Inr (r\<lparr>usedEntries := 0, tos := 0,
                 addrStack := replicate (unat (numEntries r)) 0 @ drop (unat (numEntries r)) (addrStack r)\<rparr>)
     else Inl BadPtr)"

definition ras_top :: "ReturnAddrStack \<Rightarrow> addr res" where
  "ras_top r = arr_at (addrStack r) (tos r)"

definition incrTos :: "ReturnAddrStack \<Rightarrow> ReturnAddrStack" where
  "incrTos r = (let r1 = r\<lparr>tos := tos r + 1\<rparr> in if tos r1 = numEntries r1 then r1\<lparr>tos := 0\<rparr> else r1)"

definition decrTos :: "ReturnAddrStack \<Rightarrow> ReturnAddrStack" where
  "decrTos r = r\<lparr>tos := (if tos r = 0 then numEntries r - 1 else tos r - 1)\<rparr>"

definition ras_push :: "addr \<Rightarrow> ReturnAddrStack \<Rightarrow> ReturnAddrStack res" where
  "ras_push return_addr r =
     (let r1 = incrTos r in
      bindR (arr_upd (addrStack r1) (tos r1) (\<lambda>_. return_addr)) (\<lambda>st.
      let r2 = r1\<lparr>addrStack := st\<rparr>
      in Inr (if usedEntries r2 \<noteq> numEntries r2 then r2\<lparr>usedEntries := usedEntries r2 + 1\<rparr> else r2)))"

definition ras_pop :: "ReturnAddrStack \<Rightarrow> ReturnAddrStack" where
  "ras_pop r = decrTos (if usedEntries r > 0 then r\<lparr>usedEntries := usedEntries r - 1\<rparr> else r)"

definition ras_restore :: "uint32 \<Rightarrow> addr \<Rightarrow> ReturnAddrStack \<Rightarrow> ReturnAddrStack res" where
  "ras_restore top_entry_idx restored_target r =
     (let r1 = r\<lparr>tos := top_entry_idx\<rparr> in
      bindR (arr_upd (addrStack r1) (tos r1) (\<lambda>_. restored_target)) (\<lambda>st. Inr (r1\<lparr>addrStack := st\<rparr>)))"

definition ras_empty :: "ReturnAddrStack \<Rightarrow> bool" where
  "ras_empty r \<longleftrightarrow> usedEntries r = 0"

definition ras_full :: "ReturnAddrStack \<Rightarrow> bool" where
  "ras_full r \<longleftrightarrow> usedEntries r = numEntries r"

subsection \<open>Well-formed tables\<close>

definition counter_ok :: "sat_counter \<Rightarrow> bool" where
  "counter_ok c \<longleftrightarrow> counter c \<le> maxVal c"

lemma pred_less: "n \<noteq> 0 \<Longrightarrow> n - 1 < (n :: 'a::len word)"
  by (simp add: word_less_nat_alt unat_minus_one unat_gt_0)

lemma and_pred_less: "n \<noteq> 0 \<Longrightarrow> x AND (n - 1) < (n :: 'a::len word)"
  using word_and_le1 [of x "n - 1"] word_and_le2 [of x "n - 1"] pred_less [of n] by (auto intro: order.strict_trans1)

lemma ucast_and: "(ucast (x AND ucast y :: 64 word) :: 32 word) = ucast x AND (y :: 32 word)"
  by (rule bit_word_eqI) (auto simp: bit_simps)

lemma ucast_and_pred_less: "n \<noteq> 0 \<Longrightarrow> (ucast (x AND ucast (n - 1 :: 32 word) :: 64 word) :: 32 word) < n"
  unfolding ucast_and by (rule and_pred_less)

lemma counter_ok_step:
  assumes "counter_ok c"
  shows "counter_ok (sat_increment c)" "counter_ok (sat_decrement c)" "counter_ok (sat_train b c)"
proof -
  show i: "counter_ok (sat_increment c)"
    using assms by (auto simp: counter_ok_def sat_increment_def intro: inc_le)
  have "counter c \<noteq> 0 \<Longrightarrow> counter c - 1 \<le> maxVal c"
    using assms pred_less [of "counter c"] by (simp add: counter_ok_def)
  then show d: "counter_ok (sat_decrement c)"
    using assms by (simp add: counter_ok_def sat_decrement_def word_neq_0_conv)
  show "counter_ok (sat_train b c)" using i d by (simp add: sat_train_def)
qed

lemma list_all_update: "list_all P xs \<Longrightarrow> P y \<Longrightarrow> list_all P (xs[i := y])"
  by (auto simp: list_all_iff dest: set_update_subset_insert [THEN subsetD])

lemma counters_ok: "list_all counter_ok (counters junk n bits)" "length (counters junk n bits) = unat n"
  by (auto simp: counters_def list_all_iff counter_ok_def setBits_def SatCounter_def)

definition local_ok :: "LocalBP \<Rightarrow> bool" where
  "local_ok p \<longleftrightarrow> localPredictorSets p \<noteq> 0 \<and> length (lp_localCtrs p) = unat (localPredictorSets p) \<and>
     indexMask p = localPredictorSets p - 1 \<and> list_all counter_ok (lp_localCtrs p)"

definition tournament_ok :: "TournamentBP \<Rightarrow> bool" where
  "tournament_ok t \<longleftrightarrow>
     localPredictorSize t \<noteq> 0 \<and> length (localCtrs t) = unat (localPredictorSize t) \<and>
     localPredictorMask t = localPredictorSize t - 1 \<and>
     localHistoryTableSize t \<noteq> 0 \<and> length (localHistoryTable t) = unat (localHistoryTableSize t) \<and>
     length (globalCtrs t) = unat (globalPredictorSize t) \<and>
     length (choiceCtrs t) = unat (globalPredictorSize t) \<and>
     globalHistoryMask t < globalPredictorSize t \<and> globalHistory t \<le> globalHistoryMask t \<and>
     list_all counter_ok (localCtrs t) \<and> list_all counter_ok (globalCtrs t) \<and> list_all counter_ok (choiceCtrs t)"

definition btb_ok :: "DefaultBTB \<Rightarrow> bool" where
  "btb_ok b \<longleftrightarrow> btb_numEntries b \<noteq> 0 \<and> length (btb b) = unat (btb_numEntries b) \<and> idxMask b = btb_numEntries b - 1"

definition ras_ok :: "ReturnAddrStack \<Rightarrow> bool" where
  "ras_ok r \<longleftrightarrow> 0 < numEntries r \<and> length (addrStack r) = unat (numEntries r) \<and> tos r < numEntries r \<and>
     usedEntries r \<le> numEntries r"

lemma local_index_in: "local_ok p \<Longrightarrow> unat (getLocalIndex p a) < length (lp_localCtrs p)"
  by (simp add: local_ok_def getLocalIndex_def ucast_and_pred_less unat_mono)

lemma local_ops_ok:
  assumes "local_ok p"
  shows "local_lookup a p = Inr (getPrediction p (counter (lp_localCtrs p ! unat (getLocalIndex p a))))"
    "\<exists>p'. local_update a b (None :: 'h option) p = Inr p' \<and> local_ok p'"
proof -
  let ?i = "unat (getLocalIndex p a)"
  note i = local_index_in [OF assms, of a]
  then show "local_lookup a p = Inr (getPrediction p (counter (lp_localCtrs p ! ?i)))"
    by (simp add: local_lookup_def sat_read_def)
  have "counter_ok (lp_localCtrs p ! ?i)" using i assms by (simp add: local_ok_def list_all_length)
  then show "\<exists>p'. local_update a b (None :: 'h option) p = Inr p' \<and> local_ok p'"
    using i assms by (auto simp: local_update_def local_ok_def intro!: list_all_update counter_ok_step)
qed

lemma tournament_in_range:
  assumes "tournament_ok t"
  shows "unat (globalHistory t) < length (globalCtrs t)" "unat (globalHistory t) < length (choiceCtrs t)"
    "unat (calcLocHistIdx t a) < length (localHistoryTable t)" "unat (h AND localPredictorMask t) < length (localCtrs t)"
    "globalHistory t < globalPredictorSize t" "calcLocHistIdx t a < localHistoryTableSize t"
    "h AND localPredictorMask t < localPredictorSize t"
  using assms
  by (auto simp: tournament_ok_def calcLocHistIdx_def ucast_and_pred_less and_pred_less unat_mono
      intro: order.strict_trans1)

lemma shift_global_ok:
  "tournament_ok t \<Longrightarrow> tournament_ok (updateGlobalHistTaken t)"
  "tournament_ok t \<Longrightarrow> tournament_ok (updateGlobalHistNotTaken t)"
  by (simp_all add: tournament_ok_def updateGlobalHistTaken_def updateGlobalHistNotTaken_def word_and_le1)

subsection \<open>Operations on well-formed tables\<close>

definition shift_global :: "bool \<Rightarrow> TournamentBP \<Rightarrow> TournamentBP" where
  "shift_global b t = (if b then updateGlobalHistTaken t else updateGlobalHistNotTaken t)"

definition direction :: "addr \<Rightarrow> TournamentBP \<Rightarrow> bool" where
  "direction a t \<longleftrightarrow>
     (if above t (choiceCtrs t ! unat (globalHistory t)) then above t (globalCtrs t ! unat (globalHistory t))
      else above t (localCtrs t ! unat (localHistoryTable t ! unat (calcLocHistIdx t a) AND localPredictorMask t)))"

lemma tournament_lookup_ok:
  assumes "tournament_ok t"
  obtains h where "tournament_lookup a t = Inr (direction a t, h, shift_global (direction a t) t)"
    "hist_globalHistory h = globalHistory t"
proof -
  let ?g = "globalCtrs t ! unat (globalHistory t)" and ?c = "choiceCtrs t ! unat (globalHistory t)"
  let ?l = "localCtrs t ! unat (localHistoryTable t ! unat (calcLocHistIdx t a) AND localPredictorMask t)"
  let ?h = "\<lparr>hist_globalHistory = globalHistory t, localPredTaken = above t ?l, globalPredTaken = above t ?g,
    globalUsed = Some (above t ?c)\<rparr>"
  have "tournament_lookup a t = Inr (direction a t, ?h, shift_global (direction a t) t)"
    by (cases "above t ?c"; cases "above t ?g"; cases "above t ?l")
      (simp_all add: tournament_in_range [OF assms] tournament_lookup_def Let_def direction_def shift_global_def)
  then show thesis by (rule that) simp
qed

lemma shift_global_fields [simp]:
  "tournament_ok t \<Longrightarrow> tournament_ok (shift_global b t)"
  "globalHistoryMask (shift_global b t) = globalHistoryMask t"
  "(shift_global b t)\<lparr>globalHistory := globalHistory t\<rparr> = t"
  by (simp add: shift_global_def shift_global_ok)
    (simp_all add: shift_global_def updateGlobalHistTaken_def updateGlobalHistNotTaken_def)

lemma choice_update_ok:
  assumes "tournament_ok t"
  obtains t' where "choice_update b h t = Inr t'" "tournament_ok t'" "globalHistory t' = globalHistory t"
    "globalHistoryMask t' = globalHistoryMask t" "localCtrs t' = localCtrs t"
    "globalCtrs t' = globalCtrs t" "localHistoryTable t' = localHistoryTable t"
    "calcLocHistIdx t' = calcLocHistIdx t" "localPredictorMask t' = localPredictorMask t"
proof -
  let ?c = "choiceCtrs t ! unat (globalHistory t)"
  have i: "unat (globalHistory t) < length (choiceCtrs t)" by (rule tournament_in_range(2) [OF assms])
  then have "counter_ok ?c" using assms by (simp add: tournament_ok_def list_all_length)
  then have c: "counter_ok (f ?c) \<Longrightarrow> tournament_ok (t\<lparr>choiceCtrs := (choiceCtrs t)[unat (globalHistory t) := f ?c]\<rparr>)" for f
    using assms by (simp add: tournament_ok_def list_all_update)
  have keep: "\<exists>cs. t = t\<lparr>choiceCtrs := cs\<rparr> \<and> tournament_ok (t\<lparr>choiceCtrs := cs\<rparr>)"
    using assms by (intro exI [of _ "choiceCtrs t"]) simp
  have "\<exists>cs. choice_update b h t = Inr (t\<lparr>choiceCtrs := cs\<rparr>) \<and> tournament_ok (t\<lparr>choiceCtrs := cs\<rparr>)"
    using i assms c [of sat_increment] c [of sat_decrement] counter_ok_step [OF \<open>counter_ok ?c\<close>] keep
    by (cases h) (simp_all add: choice_update_def, blast)
  then obtain cs where "choice_update b h t = Inr (t\<lparr>choiceCtrs := cs\<rparr>)" "tournament_ok (t\<lparr>choiceCtrs := cs\<rparr>)"
    by blast
  then show thesis by (rule that) (simp_all add: calcLocHistIdx_def fun_eq_iff)
qed

lemma shift_local:
  assumes "unat i < length (localHistoryTable t)"
  shows "\<exists>xs. (if b then updateLocalHistTaken i t else updateLocalHistNotTaken i t) = Inr (t\<lparr>localHistoryTable := xs\<rparr>) \<and>
    length xs = length (localHistoryTable t)"
proof -
  have "(if b then updateLocalHistTaken i t else updateLocalHistNotTaken i t) = Inr (t\<lparr>localHistoryTable :=
      (localHistoryTable t)[unat i := if b then push_bit 1 (localHistoryTable t ! unat i) OR 1
         else push_bit 1 (localHistoryTable t ! unat i)]\<rparr>)"
    using assms by (simp add: updateLocalHistTaken_def updateLocalHistNotTaken_def)
  then show ?thesis by (metis length_list_update)
qed

lemma tournament_update_ok:
  assumes "tournament_ok t"
  obtains t' where "tournament_update a b h t = Inr t'" "tournament_ok t'" "globalHistory t' = globalHistory t"
    "globalHistoryMask t' = globalHistoryMask t"
proof -
  obtain t1 where t1: "choice_update b h t = Inr t1" "tournament_ok t1" "globalHistory t1 = globalHistory t"
      "globalHistoryMask t1 = globalHistoryMask t" "localHistoryTable t1 = localHistoryTable t"
      "calcLocHistIdx t1 = calcLocHistIdx t" "localPredictorMask t1 = localPredictorMask t"
    using choice_update_ok [OF assms, of b h] by metis
  let ?i = "calcLocHistIdx t a"
  let ?l = "localHistoryTable t ! unat ?i AND localPredictorMask t"
  note r = tournament_in_range [OF t1(2), unfolded t1(3,5-7)]
  let ?t2 = "t1\<lparr>localCtrs := (localCtrs t1)[unat ?l := sat_train b (localCtrs t1 ! unat ?l)],
      globalCtrs := (globalCtrs t1)[unat (globalHistory t) := sat_train b (globalCtrs t1 ! unat (globalHistory t))]\<rparr>"
  have "counter_ok (localCtrs t1 ! unat ?l)" "counter_ok (globalCtrs t1 ! unat (globalHistory t))"
    using t1(2) r by (auto simp: tournament_ok_def list_all_length)
  then have ok: "tournament_ok ?t2"
    using t1(2) by (simp add: tournament_ok_def list_all_update counter_ok_step)
  have "tournament_update a b h t = (if b then updateLocalHistTaken ?i ?t2 else updateLocalHistNotTaken ?i ?t2)"
    using r t1 by (simp add: tournament_update_def Let_def)
  moreover have "\<exists>xs. (if b then updateLocalHistTaken ?i ?t2 else updateLocalHistNotTaken ?i ?t2) =
      Inr (?t2\<lparr>localHistoryTable := xs\<rparr>) \<and> length xs = length (localHistoryTable t1)"
    using shift_local [of ?i ?t2 b] r(3) t1(5) by simp
  ultimately obtain xs where xs: "tournament_update a b h t = Inr (?t2\<lparr>localHistoryTable := xs\<rparr>)"
      "length xs = length (localHistoryTable t1)"
    by metis
  have "tournament_ok (?t2\<lparr>localHistoryTable := xs\<rparr>)" using ok xs(2) by (simp add: tournament_ok_def)
  with xs(1) show thesis by (rule that) (simp_all add: t1(3,4))
qed

lemma btb_index_in: "btb_ok b \<Longrightarrow> getIndex b a < btb_numEntries b \<and> unat (getIndex b a) < length (btb b)"
  by (simp add: btb_ok_def getIndex_def ucast_and_pred_less unat_mono)

lemma btb_reads:
  assumes "btb_ok b"
  obtains v a' where "DefaultBTB_valid a t b = Inr v" "DefaultBTB_lookup a t b = Inr a'"
  using btb_index_in [OF assms, of a] by (auto simp: DefaultBTB_valid_def DefaultBTB_lookup_def Let_def)

lemma btb_update_ok:
  assumes "btb_ok b"
  obtains b' where "DefaultBTB_update a tg t b = Inr b'" "btb_ok b'" "DefaultBTB_valid a t b' = Inr True" "DefaultBTB_lookup a t b' = Inr tg"
    "\<And>a2 t2. getIndex b a2 \<noteq> getIndex b a \<Longrightarrow> DefaultBTB_valid a2 t2 b' = DefaultBTB_valid a2 t2 b \<and> DefaultBTB_lookup a2 t2 b' = DefaultBTB_lookup a2 t2 b"
proof -
  let ?e = "\<lambda>e. e\<lparr>tid := t, valid := True, target := tg, tag := getTag b a\<rparr>"
  let ?b = "b\<lparr>btb := (btb b)[unat (getIndex b a) := ?e (btb b ! unat (getIndex b a))]\<rparr>"
  have u: "DefaultBTB_update a tg t b = Inr ?b"
    using btb_index_in [OF assms, of a] by (simp add: DefaultBTB_update_def Let_def)
  have g: "getIndex ?b = getIndex b" "getTag ?b = getTag b" by (auto simp: getIndex_def getTag_def)
  have "btb_ok ?b" using assms by (simp add: btb_ok_def)
  moreover have "DefaultBTB_valid a t ?b = Inr True" "DefaultBTB_lookup a t ?b = Inr tg"
    using btb_index_in [OF assms, of a] g by (simp_all add: DefaultBTB_valid_def DefaultBTB_lookup_def Let_def)
  moreover have "DefaultBTB_valid a2 t2 ?b = DefaultBTB_valid a2 t2 b \<and> DefaultBTB_lookup a2 t2 ?b = DefaultBTB_lookup a2 t2 b"
    if "getIndex b a2 \<noteq> getIndex b a" for a2 t2
    using that btb_index_in [OF assms, of a2] g
    by (simp add: DefaultBTB_valid_def DefaultBTB_lookup_def Let_def word_unat_eq_iff)
  ultimately show thesis using u that by blast
qed

subsection \<open>Undoing calls and returns\<close>

text \<open>
  The same stack but for the \<open>n\<close> slots above the top and the count of used entries, which can
  only be smaller: undoing a return does not count its entry again, and neither does undoing
  a call that found the stack full.
\<close>

definition ras_near :: "nat \<Rightarrow> ReturnAddrStack \<Rightarrow> ReturnAddrStack \<Rightarrow> bool" where
  "ras_near n r r' \<longleftrightarrow> numEntries r' = numEntries r \<and> tos r' = tos r \<and> length (addrStack r') = length (addrStack r) \<and>
     usedEntries r' \<le> usedEntries r \<and>
     (\<forall>i<length (addrStack r). (\<forall>k. 1 \<le> k \<and> k \<le> n \<longrightarrow> i \<noteq> (unat (tos r) + k) mod length (addrStack r)) \<longrightarrow>
        addrStack r' ! i = addrStack r ! i)"

lemma tos_incr:
  assumes "ras_ok r"
  shows "unat (tos (incrTos r)) = Suc (unat (tos r)) mod length (addrStack r)" "tos (incrTos r) < numEntries r"
proof -
  have lt: "unat (tos r) < length (addrStack r)" "length (addrStack r) = unat (numEntries r)" "0 < numEntries r"
    using assms by (auto simp: ras_ok_def unat_mono)
  have b: "unat (numEntries r) < 2 ^ 32" using unsigned_less [of "numEntries r"] by simp
  from lt have s: "unat (tos r + 1) = Suc (unat (tos r))"
    using b by (simp add: unat_word_ariths)
  show "unat (tos (incrTos r)) = Suc (unat (tos r)) mod length (addrStack r)"
  proof (cases "tos r + 1 = numEntries r")
    case True
    then have "Suc (unat (tos r)) = length (addrStack r)" using s lt by simp
    then show ?thesis using True by (simp add: incrTos_def Let_def)
  next
    case False
    then have "Suc (unat (tos r)) \<noteq> length (addrStack r)" using s lt by (simp add: word_unat_eq_iff)
    then show ?thesis using False s lt by (simp add: incrTos_def Let_def)
  qed
  then show "tos (incrTos r) < numEntries r" using lt by (simp add: word_less_nat_alt)
qed

lemma tos_decr:
  assumes "ras_ok r"
  shows "Suc (unat (tos (decrTos r))) mod length (addrStack r) = unat (tos r)" "tos (decrTos r) < numEntries r"
proof -
  have lt: "unat (tos r) < length (addrStack r)" "length (addrStack r) = unat (numEntries r)" "0 < numEntries r"
    using assms by (auto simp: ras_ok_def unat_mono)
  have "Suc (unat (tos (decrTos r))) mod length (addrStack r) = unat (tos r) \<and> unat (tos (decrTos r)) < length (addrStack r)"
  proof (cases "tos r = 0")
    case True
    have "numEntries r \<noteq> 0" using lt(3) by auto
    then have "Suc (unat (numEntries r - 1)) = unat (numEntries r)" by (simp add: unat_minus_one unat_gt_0)
    then show ?thesis using True lt by (simp add: decrTos_def)
  next
    case False
    then have "Suc (unat (tos r - 1)) = unat (tos r)" by (simp add: unat_minus_one unat_gt_0)
    then show ?thesis using False lt by (simp add: decrTos_def)
  qed
  then show "Suc (unat (tos (decrTos r))) mod length (addrStack r) = unat (tos r)" "tos (decrTos r) < numEntries r"
    using lt(2) by (simp_all add: word_less_nat_alt)
qed

lemma ras_push_ok:
  assumes "ras_ok r"
  obtains r' where "ras_push a r = Inr r'" "ras_ok r'" "numEntries r' = numEntries r" "tos r' = tos (incrTos r)"
    "addrStack r' = (addrStack r)[unat (tos (incrTos r)) := a]"
proof -
  let ?r = "(incrTos r)\<lparr>addrStack := (addrStack r)[unat (tos (incrTos r)) := a]\<rparr>"
  let ?r' = "if usedEntries ?r \<noteq> numEntries ?r then ?r\<lparr>usedEntries := usedEntries ?r + 1\<rparr> else ?r"
  have f: "addrStack (incrTos r) = addrStack r" "numEntries (incrTos r) = numEntries r" "usedEntries (incrTos r) = usedEntries r"
    by (simp_all add: incrTos_def Let_def)
  have "unat (tos (incrTos r)) < length (addrStack r)"
    using tos_incr(2) [OF assms] assms by (simp add: ras_ok_def unat_mono)
  then have p: "ras_push a r = Inr ?r'" by (simp add: ras_push_def Let_def f)
  have "usedEntries r \<le> numEntries r" using assms by (simp add: ras_ok_def)
  then have "usedEntries r \<noteq> numEntries r \<Longrightarrow> usedEntries r + 1 \<le> numEntries r" by (auto intro: inc_le)
  then have "ras_ok ?r'" using assms f tos_incr(2) [OF assms] by (auto simp: ras_ok_def)
  with p show thesis by (rule that) (simp_all add: f)
qed

lemma ras_pop_fields:
  "addrStack (ras_pop r) = addrStack r" "numEntries (ras_pop r) = numEntries r" "tos (ras_pop r) = tos (decrTos r)"
  by (simp_all add: ras_pop_def decrTos_def)

lemma ras_pop_used: "usedEntries r \<le> numEntries r \<Longrightarrow> usedEntries (ras_pop r) \<le> numEntries r"
  using pred_less [of "usedEntries r"] by (auto simp: ras_pop_def decrTos_def word_neq_0_conv)

lemma ras_pop_used_less:
  shows "usedEntries (ras_pop r) \<le> usedEntries r" and "usedEntries r \<le> x + 1 \<Longrightarrow> usedEntries (ras_pop r) \<le> x"
proof -
  have e: "usedEntries (ras_pop r) = (if usedEntries r > 0 then usedEntries r - 1 else usedEntries r)"
    by (simp add: ras_pop_def decrTos_def)
  show "usedEntries (ras_pop r) \<le> usedEntries r" using pred_less [of "usedEntries r"] by (simp add: e word_neq_0_conv less_imp_le)
  assume "usedEntries r \<le> x + 1"
  then have "\<not> x < usedEntries r - 1" if "usedEntries r > 0"
    using inc_le [of x "usedEntries r - 1"] pred_less [of "usedEntries r"] that by (auto simp: word_neq_0_conv)
  then show "usedEntries (ras_pop r) \<le> x" by (auto simp: e not_less)
qed

lemma ras_push_used: "ras_push a r = Inr r' \<Longrightarrow> usedEntries r' \<le> usedEntries r + 1 \<or> usedEntries r' = usedEntries r"
  by (auto simp: ras_push_def incrTos_def Let_def split: if_splits)

lemma ras_pop_ok: "ras_ok r \<Longrightarrow> ras_ok (ras_pop r)"
  using tos_decr(2) [of r] ras_pop_used [of r] by (simp add: ras_ok_def ras_pop_fields)

lemma ras_restore_ok:
  assumes "ras_ok r" "i < numEntries r"
  obtains r' where "ras_restore i a r = Inr r'" "ras_ok r'" "numEntries r' = numEntries r" "tos r' = i"
    "addrStack r' = (addrStack r)[unat i := a]" "usedEntries r' = usedEntries r"
proof -
  have "unat i < length (addrStack r)" using assms by (simp add: ras_ok_def unat_mono)
  then have "ras_restore i a r = Inr (r\<lparr>tos := i, addrStack := (addrStack r)[unat i := a]\<rparr>)"
    by (simp add: ras_restore_def Let_def)
  moreover have "ras_ok (r\<lparr>tos := i, addrStack := (addrStack r)[unat i := a]\<rparr>)" using assms by (simp add: ras_ok_def)
  ultimately show thesis by (rule that) simp_all
qed

lemma ras_near_refl: "ras_ok r \<Longrightarrow> ras_near n r r"
  by (simp add: ras_near_def ras_ok_def)

lemma ras_near_ok: "ras_ok r \<Longrightarrow> ras_near n r r' \<Longrightarrow> ras_ok r'"
  by (auto simp: ras_near_def ras_ok_def)

lemma ras_near_mono: "ras_near n r r' \<Longrightarrow> n \<le> n' \<Longrightarrow> ras_near n' r r'"
  unfolding ras_near_def by (meson order.trans)

lemma ras_undo_return:
  assumes ok: "ras_ok r" and near: "ras_near n (ras_pop r) r1"
  shows "\<exists>r2. ras_restore (tos r) (addrStack r ! unat (tos r)) r1 = Inr r2 \<and> ras_near n r r2"
proof -
  let ?N = "length (addrStack r)"
  have N: "unat (tos r) < ?N" using ok by (simp add: ras_ok_def unat_mono)
  have "ras_ok r1" "tos r < numEntries r1"
    using ras_near_ok [OF ras_pop_ok [OF ok] near] near ok by (auto simp: ras_near_def ras_pop_fields ras_ok_def)
  then obtain r2 where r2: "ras_restore (tos r) (addrStack r ! unat (tos r)) r1 = Inr r2" "ras_ok r2"
      "numEntries r2 = numEntries r1" "tos r2 = tos r"
      "addrStack r2 = (addrStack r1)[unat (tos r) := addrStack r ! unat (tos r)]" "usedEntries r2 = usedEntries r1"
    by (rule ras_restore_ok)
  have "addrStack r2 ! i = addrStack r ! i"
    if i: "i < ?N" "\<forall>k. 1 \<le> k \<and> k \<le> n \<longrightarrow> i \<noteq> (unat (tos r) + k) mod ?N" for i
  proof (cases "i = unat (tos r)")
    case True
    then show ?thesis using r2(5) N near by (simp add: ras_near_def ras_pop_fields)
  next
    case False
    have "i \<noteq> (unat (tos (decrTos r)) + k) mod ?N" if k: "1 \<le> k" "k \<le> n" for k
    proof -
      have "(unat (tos (decrTos r)) + k) mod ?N = (Suc (unat (tos (decrTos r))) + (k - 1)) mod ?N" using k by simp
      also have "\<dots> = (unat (tos r) + (k - 1)) mod ?N"
        by (metis mod_add_left_eq tos_decr(1) [OF ok])
      finally show ?thesis using False i(2) [rule_format, of "k - 1"] k N
        by (cases "k = 1") (auto simp: le_diff_conv2)
    qed
    then show ?thesis using False i near r2(5) by (auto simp: ras_near_def ras_pop_fields)
  qed
  moreover have "usedEntries r2 \<le> usedEntries r" using near r2(6) order_trans [OF _ ras_pop_used_less(1) [of r]] by (simp add: ras_near_def)
  ultimately show ?thesis using r2 near ok by (auto simp: ras_near_def ras_pop_fields)
qed

lemma ras_undo_call:
  assumes ok: "ras_ok r" and push: "ras_push a r = Inr r0" and near: "ras_near n r0 r1"
  shows "ras_near (Suc n) r (ras_pop r1)"
proof -
  let ?N = "length (addrStack r)"
  obtain "ras_ok r0" and r0: "numEntries r0 = numEntries r" "tos r0 = tos (incrTos r)"
      "addrStack r0 = (addrStack r)[unat (tos (incrTos r)) := a]"
    using ras_push_ok [OF ok, of a] push by (metis sum.inject(2))
  then have ok1: "ras_ok r1" using near by (blast intro: ras_near_ok)
  have "tos (decrTos r1) < numEntries r" "Suc (unat (tos (decrTos r1))) mod ?N = Suc (unat (tos r)) mod ?N"
    using tos_decr [OF ok1] near r0 tos_incr(1) [OF ok] by (simp_all add: ras_near_def)
  then have t: "tos (decrTos r1) = tos r"
    using ok by (simp add: ras_ok_def word_unat_eq_iff word_less_nat_alt mod_Suc split: if_splits)
  have "addrStack r1 ! i = addrStack r ! i"
    if i: "i < ?N" "\<forall>k. 1 \<le> k \<and> k \<le> Suc n \<longrightarrow> i \<noteq> (unat (tos r) + k) mod ?N" for i
  proof -
    have "i \<noteq> (unat (tos r0) + k) mod ?N" if "k \<le> n" for k
      using i(2) [rule_format, of "Suc k"] that by (simp add: r0 tos_incr(1) [OF ok] mod_add_left_eq)
    then have "addrStack r1 ! i = addrStack r0 ! i" using near i(1) by (simp add: ras_near_def r0)
    moreover have "i \<noteq> unat (tos (incrTos r))" using i(2) [rule_format, of 1] by (simp add: tos_incr(1) [OF ok])
    ultimately show ?thesis using r0(3) by simp
  qed
  moreover have "usedEntries (ras_pop r1) \<le> usedEntries r"
    using ras_push_used [OF push]
  proof
    have le: "usedEntries r1 \<le> usedEntries r0" using near by (simp add: ras_near_def)
    show ?thesis if "usedEntries r0 \<le> usedEntries r + 1" by (rule ras_pop_used_less(2) [OF order_trans [OF le that]])
    show ?thesis if "usedEntries r0 = usedEntries r" using order_trans [OF ras_pop_used_less(1) le] that by simp
  qed
  ultimately show ?thesis using near t r0 by (simp add: ras_near_def ras_pop_fields)
qed

end
