(* ===== verification/Spec_Undo.thy ===== *)
theory Spec_Undo
  imports M5_Prelude
begin

section \<open>Speculation with an undo log\<close>

text \<open>
  The contract of a component that speculates: every step returns a record, and handing the
  records back in the opposite order takes the state back to where it was. A step may cost a
  bounded amount of information that the undoing does not bring back. The client, a run of
  steps that is undone as a whole, is verified once, against the contract. The branch
  prediction unit and the rename stage are instances; the steps of the first always return.
\<close>

fun run_steps :: "('op \<Rightarrow> 's \<Rightarrow> ('r \<times> 's) res) \<Rightarrow> 'op list \<Rightarrow> 's \<Rightarrow> ('r list \<times> 's) res" where
  "run_steps step [] s = Inr ([], s)"
| "run_steps step (x # xs) s = bindR (step x s) (\<lambda>(r, s1).
     bindR (run_steps step xs s1) (\<lambda>(rs, s2). Inr (rs @ [r], s2)))"

fun undo_all :: "('r \<Rightarrow> 's \<Rightarrow> 's res) \<Rightarrow> 'r list \<Rightarrow> 's \<Rightarrow> 's res" where
  "undo_all undo [] s = Inr s"
| "undo_all undo (r # rs) s = bindR (undo r s) (undo_all undo rs)"

lemma undo_all_append:
  "undo_all undo (rs @ rs') s = bindR (undo_all undo rs s) (undo_all undo rs')"
  by (induction rs arbitrary: s) (auto simp: bindR_def split: sum.split)

locale undo_log =
  fixes ok :: "'s \<Rightarrow> bool"
    and step :: "'op \<Rightarrow> 's \<Rightarrow> ('r \<times> 's) res"
    and undo :: "'r \<Rightarrow> 's \<Rightarrow> 's res"
    and restored :: "nat \<Rightarrow> 's \<Rightarrow> 's \<Rightarrow> bool"
    and cost :: "'op \<Rightarrow> nat"
    and logged :: "'op \<Rightarrow> 'r \<Rightarrow> bool"
  assumes nothing_lost: "ok s \<Longrightarrow> restored 0 s s"
    and step_keeps: "ok s \<Longrightarrow> step x s = Inr (r, s1) \<Longrightarrow> ok s1 \<and> logged x r"
    and step_undo: "ok s \<Longrightarrow> step x s = Inr (r, s1) \<Longrightarrow> restored n s1 s2 \<Longrightarrow>
      \<exists>s3. undo r s2 = Inr s3 \<and> restored (n + cost x) s s3"
begin

lemma run_keeps:
  assumes "ok s" "run_steps step xs s = Inr (rs, s1)"
  shows "ok s1 \<and> list_all2 logged (rev xs) rs"
  using assms
proof (induction xs arbitrary: s rs)
  case (Cons x xs)
  then obtain r s0 rs' where s0: "step x s = Inr (r, s0)" "run_steps step xs s0 = Inr (rs', s1)" "rs = rs' @ [r]" by auto
  then show ?case
    using step_keeps [OF Cons.prems(1) s0(1)] Cons.IH [OF _ s0(2)] by (auto intro!: list_all2_appendI)
qed simp

lemma undo_run:
  assumes "ok s" "run_steps step xs s = Inr (rs, s1)" "restored 0 s1 s2"
  shows "\<exists>s3. undo_all undo rs s2 = Inr s3 \<and> restored (sum_list (map cost xs)) s s3"
  using assms
proof (induction xs arbitrary: s rs)
  case (Cons x xs)
  then obtain r s0 rs' where s0: "step x s = Inr (r, s0)" "run_steps step xs s0 = Inr (rs', s1)" "rs = rs' @ [r]" by auto
  then obtain s3 where s3: "undo_all undo rs' s2 = Inr s3" "restored (sum_list (map cost xs)) s0 s3"
    using Cons.IH [of s0 rs'] step_keeps [OF Cons.prems(1)] Cons.prems(3) by blast
  show ?case
    using step_undo [OF Cons.prems(1) s0(1) s3(2)] s3(1) s0(3) by (auto simp: undo_all_append add.commute)
qed simp

lemma undo_run_all:
  assumes "ok s" "run_steps step xs s = Inr (rs, s1)"
  shows "\<exists>s2. undo_all undo rs s1 = Inr s2 \<and> restored (sum_list (map cost xs)) s s2"
  using undo_run [OF assms] run_keeps [OF assms] nothing_lost by blast

end

locale total_undo_log = undo_log +
  assumes step_returns: "ok s \<Longrightarrow> \<exists>r s1. step x s = Inr (r, s1)"
begin

lemma run_returns:
  assumes "ok s"
  shows "\<exists>rs s1. run_steps step xs s = Inr (rs, s1)"
  using assms
proof (induction xs arbitrary: s)
  case (Cons x xs)
  obtain r s0 where s0: "step x s = Inr (r, s0)" using step_returns [OF Cons.prems] by blast
  then show ?case using Cons.IH [of s0] step_keeps [OF Cons.prems s0] by auto
qed simp

end

end
