(* ===== verification/Branch_Predictor.thy ===== *)
theory Branch_Predictor
  imports Branch_Tables Spec_Undo
begin

unbundle bit_operations_syntax

section \<open>The branch prediction unit\<close>

text \<open>
  Model of \<^verbatim>\<open>BPredUnit\<close> (\<^verbatim>\<open>src/src/cpu/o3/bpred_unit.hh\<close>, \<^verbatim>\<open>src/src/cpu/o3/bpred_unit_impl.hh\<close>):
  prediction at fetch, training at commit, and the two ways of squashing. The unit composes one
  of the two direction predictors, the target buffer and one return address stack per thread,
  and keeps for each thread the list of predictions not yet committed, youngest first.
  Of a dynamic instruction the unit reads four attributes, the record \<open>br_inst\<close>; of the
  instruction set, the size of a machine instruction and whether it has a delay slot. The
  statistics are natural numbers. \<^verbatim>\<open>dump\<close> and \<^verbatim>\<open>regStats\<close>, which only print and name, are left
  out.

  The theorems show that a unit built from a sound configuration never reads outside a table and
  never fails an assertion but the one that compares sequence numbers; that squashing undoes
  predictions, up to the slots of the return address stack that calls overwrote; what a
  misprediction repairs and what it does not; and that the constructor gives the global history
  the width of the counters.
\<close>

subsection \<open>State\<close>

record br_inst =
  inst_seqNum :: "64 word"
  isUncondCtrl :: bool
  isReturn :: bool
  isCall :: bool

record isa =
  machInst_size :: addr
  has_delay_slot :: bool

datatype PredType = Local | Tournament

record PredictorHistory =
  seqNum :: "64 word"
  PC :: addr
  RASTarget :: addr
  RASIndex :: uint32
  hist_tid :: int16
  predTaken :: bool
  usedRAS :: bool
  wasCall :: bool
  bpHistory :: "BPHistory option"

record BPredUnit =
  predictor :: PredType
  predHist :: "PredictorHistory list list"
  localBP :: "LocalBP option"
  tournamentBP :: "TournamentBP option"
  BTB :: DefaultBTB
  RAS :: "ReturnAddrStack list"
  lookups :: nat
  condPredicted :: nat
  condIncorrect :: nat
  BTBLookups :: nat
  BTBHits :: nat
  stat_usedRAS :: nat
  RASIncorrect :: nat

record bp_params =
  predType :: string
  p_localPredictorSize :: uint32
  p_localCtrBits :: uint32
  p_localHistoryTableSize :: uint32
  p_localHistoryBits :: uint32
  p_globalPredictorSize :: uint32
  p_globalHistoryBits :: uint32
  p_globalCtrBits :: uint32
  p_choicePredictorSize :: uint32
  p_choiceCtrBits :: uint32
  BTBEntries :: uint32
  BTBTagSize :: uint32
  RASSize :: uint32
  p_instShiftAmt :: uint32

definition MaxThreads :: nat where
  "MaxThreads = 4"

definition BPredUnit_new :: "uint8 \<Rightarrow> int16 \<Rightarrow> bp_params \<Rightarrow> BPredUnit res" where
  "BPredUnit_new junk junk_tid p =
     bindR (DefaultBTB_new junk_tid (BTBEntries p) (BTBTagSize p) (p_instShiftAmt p)) (\<lambda>b.
     bindR (if predType p = ''local''
            then bindR (LocalBP_new junk (p_localPredictorSize p) (p_localCtrBits p) (p_instShiftAmt p))
                   (\<lambda>l. Inr (Local, Some l, None))
            else if predType p = ''tournament''
            then bindR (TournamentBP_new junk (p_localPredictorSize p) (p_localCtrBits p)
                          (p_localHistoryTableSize p) (p_localHistoryBits p) (p_globalPredictorSize p)
                          (p_globalHistoryBits p) (p_globalCtrBits p) (p_choicePredictorSize p)
                          (p_choiceCtrBits p) (p_instShiftAmt p))
                   (\<lambda>t. Inr (Tournament, None, Some t))
            else Inl (Fatal ''Invalid BP selected!'')) (\<lambda>(pt, l, t).
     Inr \<lparr>predictor = pt, predHist = replicate MaxThreads [], localBP = l, tournamentBP = t, BTB = b,
          RAS = replicate MaxThreads (ras_init (RASSize p)), lookups = 0, condPredicted = 0,
          condIncorrect = 0, BTBLookups = 0, BTBHits = 0, stat_usedRAS = 0, RASIncorrect = 0\<rparr>))"

subsection \<open>Dispatch to the chosen predictor\<close>

text \<open>Calls through the pointer of a predictor, which is not set when the other one was chosen.\<close>

definition with_local :: "BPredUnit \<Rightarrow> (LocalBP \<Rightarrow> 'a res) \<Rightarrow> 'a res" where
  "with_local u f = (case localBP u of None \<Rightarrow> Inl BadPtr | Some l \<Rightarrow> f l)"

definition with_tournament :: "BPredUnit \<Rightarrow> (TournamentBP \<Rightarrow> 'a res) \<Rightarrow> 'a res" where
  "with_tournament u f = (case tournamentBP u of None \<Rightarrow> Inl BadPtr | Some t \<Rightarrow> f t)"

definition BPUncond :: "BPredUnit \<Rightarrow> (BPHistory option \<times> BPredUnit) res" where
  "BPUncond u = (case predictor u of
       Local \<Rightarrow> Inr (None, u)
     | Tournament \<Rightarrow> with_tournament u (\<lambda>t. case uncondBr t of (h, t') \<Rightarrow> Inr (Some h, u\<lparr>tournamentBP := Some t'\<rparr>)))"

definition BPSquash :: "BPHistory option \<Rightarrow> BPredUnit \<Rightarrow> BPredUnit res" where
  "BPSquash bp_history u = (case predictor u of
       Local \<Rightarrow> with_local u (\<lambda>l. bindR (local_squash bp_history) (\<lambda>_. Inr u))
     | Tournament \<Rightarrow> with_tournament u (\<lambda>t. bindR (tournament_squash bp_history t) (\<lambda>t'.
         Inr (u\<lparr>tournamentBP := Some t'\<rparr>))))"

definition BPLookup :: "addr \<Rightarrow> BPredUnit \<Rightarrow> (bool \<times> BPHistory option \<times> BPredUnit) res" where
  "BPLookup inst_PC u = (case predictor u of
       Local \<Rightarrow> with_local u (\<lambda>l. bindR (local_lookup inst_PC l) (\<lambda>b. Inr (b, None, u)))
     | Tournament \<Rightarrow> with_tournament u (\<lambda>t. bindR (tournament_lookup inst_PC t) (\<lambda>(b, h, t').
         Inr (b, Some h, u\<lparr>tournamentBP := Some t'\<rparr>))))"

definition BPUpdate :: "addr \<Rightarrow> bool \<Rightarrow> BPHistory option \<Rightarrow> BPredUnit \<Rightarrow> BPredUnit res" where
  "BPUpdate inst_PC taken bp_history u = (case predictor u of
       Local \<Rightarrow> with_local u (\<lambda>l. bindR (local_update inst_PC taken bp_history l) (\<lambda>l'.
         Inr (u\<lparr>localBP := Some l'\<rparr>)))
     | Tournament \<Rightarrow> with_tournament u (\<lambda>t. bindR (tournament_update inst_PC taken bp_history t) (\<lambda>t'.
         Inr (u\<lparr>tournamentBP := Some t'\<rparr>))))"

definition BTBValid :: "addr \<Rightarrow> BPredUnit \<Rightarrow> bool res" where
  "BTBValid inst_PC u = DefaultBTB_valid inst_PC 0 (BTB u)"

definition BTBLookup :: "addr \<Rightarrow> BPredUnit \<Rightarrow> addr res" where
  "BTBLookup inst_PC u = DefaultBTB_lookup inst_PC 0 (BTB u)"

definition BTBUpdate :: "addr \<Rightarrow> addr \<Rightarrow> BPredUnit \<Rightarrow> BPredUnit res" where
  "BTBUpdate inst_PC target_PC u = bindR (DefaultBTB_update inst_PC target_PC 0 (BTB u)) (\<lambda>b. Inr (u\<lparr>BTB := b\<rparr>))"

subsection \<open>Prediction\<close>

definition PredictorHistory_new :: "64 word \<Rightarrow> addr \<Rightarrow> bool \<Rightarrow> BPHistory option \<Rightarrow> int16 \<Rightarrow> PredictorHistory" where
  "PredictorHistory_new seq_num inst_PC pred_taken bp_history t =
     \<lparr>seqNum = seq_num, PC = inst_PC, RASTarget = 0, RASIndex = 0, hist_tid = t, predTaken = pred_taken,
      usedRAS = False, wasCall = False, bpHistory = bp_history\<rparr>"

definition set_ras :: "int16 \<Rightarrow> ReturnAddrStack \<Rightarrow> BPredUnit \<Rightarrow> BPredUnit" where
  "set_ras t r u = u\<lparr>RAS := (RAS u)[unat t := r]\<rparr>"

definition predict_direction :: "br_inst \<Rightarrow> addr \<Rightarrow> BPredUnit \<Rightarrow> (bool \<times> BPHistory option \<times> BPredUnit) res" where
  "predict_direction inst pc u =
     (if isUncondCtrl inst then bindR (BPUncond u) (\<lambda>(h, u1). Inr (True, h, u1))
      else BPLookup pc (u\<lparr>condPredicted := condPredicted u + 1\<rparr>))"

definition predict_return ::
  "int16 \<Rightarrow> PredictorHistory \<Rightarrow> BPredUnit \<Rightarrow> (bool \<times> addr \<times> PredictorHistory \<times> BPredUnit) res" where
  "predict_return t h u =
     bindR (arr_at (RAS u) t) (\<lambda>r.
     bindR (ras_top r) (\<lambda>tgt.
     let rec1 = h\<lparr>usedRAS := True, RASIndex := tos r, RASTarget := tgt\<rparr> in
     bindR (assertR (RASIndex rec1 < 16) ''predict_record.RASIndex < 16'') (\<lambda>_.
     Inr (True, tgt, rec1, set_ras t (ras_pop r) (u\<lparr>stat_usedRAS := stat_usedRAS u + 1\<rparr>)))))"

definition ras_pc :: "isa \<Rightarrow> addr \<Rightarrow> addr" where
  "ras_pc m pc = (if has_delay_slot m then pc + 2 * machInst_size m else pc + machInst_size m)"

definition predict_call ::
  "isa \<Rightarrow> br_inst \<Rightarrow> addr \<Rightarrow> int16 \<Rightarrow> PredictorHistory \<Rightarrow> BPredUnit \<Rightarrow> (PredictorHistory \<times> BPredUnit) res" where
  "predict_call m inst pc t h u =
     (if isCall inst
      then bindR (arr_at (RAS u) t) (\<lambda>r. bindR (ras_push (ras_pc m pc) r) (\<lambda>r'.
             Inr (h\<lparr>wasCall := True\<rparr>, set_ras t r' u)))
      else Inr (h, u))"

definition predict_target ::
  "isa \<Rightarrow> br_inst \<Rightarrow> addr \<Rightarrow> int16 \<Rightarrow> PredictorHistory \<Rightarrow> BPredUnit \<Rightarrow>
   (bool \<times> addr \<times> PredictorHistory \<times> BPredUnit) res" where
  "predict_target m inst pc t h u0 =
     (let u = u0\<lparr>BTBLookups := BTBLookups u0 + 1\<rparr> in
      bindR (predict_call m inst pc t h u) (\<lambda>(rec1, u1).
      bindR (DefaultBTB_valid pc t (BTB u1)) (\<lambda>hit.
      if hit then
        (let u2 = u1\<lparr>BTBHits := BTBHits u1 + 1\<rparr> in
         bindR (DefaultBTB_lookup pc t (BTB u2)) (\<lambda>tgt. Inr (True, tgt, rec1, u2)))
      else Inr (False, pc, rec1, u1))))"

definition predict_record ::
  "isa \<Rightarrow> br_inst \<Rightarrow> addr \<Rightarrow> int16 \<Rightarrow> BPredUnit \<Rightarrow> (bool \<times> addr \<times> PredictorHistory \<times> BPredUnit) res" where
  "predict_record m inst pc t u =
     bindR (predict_direction inst pc (u\<lparr>lookups := lookups u + 1\<rparr>)) (\<lambda>(pred_taken, bp_history, u1).
     let h = PredictorHistory_new (inst_seqNum inst) pc pred_taken bp_history t in
     if pred_taken
     then (if isReturn inst then predict_return t h u1 else predict_target m inst pc t h u1)
     else Inr (pred_taken, pc, h, u1))"

definition predict :: "isa \<Rightarrow> br_inst \<Rightarrow> addr \<Rightarrow> int16 \<Rightarrow> BPredUnit \<Rightarrow> (bool \<times> addr \<times> BPredUnit) res" where
  "predict m inst pc t u =
     bindR (predict_record m inst pc t u) (\<lambda>(pred_taken, tgt, h, u1).
     bindR (arr_upd (predHist u1) t (\<lambda>hs. h # hs)) (\<lambda>hss.
     Inr (pred_taken, tgt, u1\<lparr>predHist := hss\<rparr>)))"

subsection \<open>Commit and squash\<close>

text \<open>
  The loops below work on the history of one thread, taken from the end where it shrinks. Their
  bodies do not touch the list, which is stored back when the loop ends.
\<close>

fun update_loop :: "64 word \<Rightarrow> PredictorHistory list \<Rightarrow> BPredUnit \<Rightarrow> (PredictorHistory list \<times> BPredUnit) res" where
  "update_loop done_sn [] u = Inr ([], u)"
| "update_loop done_sn (h # hs) u =
     (if seqNum h \<le> done_sn
      then bindR (BPUpdate (PC h) (predTaken h) (bpHistory h) u) (update_loop done_sn hs)
      else Inr (h # hs, u))"

definition bp_update :: "64 word \<Rightarrow> int16 \<Rightarrow> BPredUnit \<Rightarrow> BPredUnit res" where
  "bp_update done_sn t u =
     bindR (arr_at (predHist u) t) (\<lambda>hs.
     bindR (update_loop done_sn (rev hs) u) (\<lambda>(rest, u1).
     Inr (u1\<lparr>predHist := (predHist u1)[unat t := rev rest]\<rparr>)))"

definition squash_step :: "int16 \<Rightarrow> PredictorHistory \<Rightarrow> BPredUnit \<Rightarrow> BPredUnit res" where
  "squash_step t h u =
     bindR (if usedRAS h
            then bindR (arr_at (RAS u) t) (\<lambda>r. bindR (ras_restore (RASIndex h) (RASTarget h) r) (\<lambda>r'.
                   Inr (set_ras t r' u)))
            else if wasCall h
            then bindR (arr_at (RAS u) t) (\<lambda>r. Inr (set_ras t (ras_pop r) u))
            else Inr u)
       (BPSquash (bpHistory h))"

fun bp_squash_loop :: "64 word \<Rightarrow> int16 \<Rightarrow> PredictorHistory list \<Rightarrow> BPredUnit \<Rightarrow> (PredictorHistory list \<times> BPredUnit) res" where
  "bp_squash_loop squashed_sn t [] u = Inr ([], u)"
| "bp_squash_loop squashed_sn t (h # hs) u =
     (if seqNum h > squashed_sn then bindR (squash_step t h u) (bp_squash_loop squashed_sn t hs)
      else Inr (h # hs, u))"

definition bp_squash :: "64 word \<Rightarrow> int16 \<Rightarrow> BPredUnit \<Rightarrow> BPredUnit res" where
  "bp_squash squashed_sn t u =
     bindR (arr_at (predHist u) t) (\<lambda>hs.
     bindR (bp_squash_loop squashed_sn t hs u) (\<lambda>(rest, u1).
     Inr (u1\<lparr>predHist := (predHist u1)[unat t := rest]\<rparr>)))"

definition bp_mispredict :: "64 word \<Rightarrow> addr \<Rightarrow> bool \<Rightarrow> int16 \<Rightarrow> BPredUnit \<Rightarrow> BPredUnit res" where
  "bp_mispredict squashed_sn corr_target actually_taken t u0 =
     bindR (bp_squash squashed_sn t (u0\<lparr>condIncorrect := condIncorrect u0 + 1\<rparr>)) (\<lambda>u.
     bindR (arr_at (predHist u) t) (\<lambda>pred_hist.
     case pred_hist of
       [] \<Rightarrow> Inr u
     | h # hs \<Rightarrow>
         bindR (assertR (seqNum h = squashed_sn) ''pred_hist.front().seqNum == squashed_sn'') (\<lambda>_.
         let u1 = (if usedRAS h then u\<lparr>RASIncorrect := RASIncorrect u + 1\<rparr> else u) in
         bindR (BPUpdate (PC h) actually_taken (bpHistory h) u1) (\<lambda>u2.
         bindR (DefaultBTB_update (PC h) corr_target t (BTB u2)) (\<lambda>b.
         Inr (u2\<lparr>BTB := b, predHist := (predHist u2)[unat t := hs]\<rparr>))))))"

fun switchOut_loop :: "nat \<Rightarrow> nat \<Rightarrow> BPredUnit \<Rightarrow> BPredUnit res" where
  "switchOut_loop 0 i u = Inr u"
| "switchOut_loop (Suc n) i u = bindR (bp_squash 0 (of_nat i) u) (switchOut_loop n (Suc i))"

definition switchOut :: "BPredUnit \<Rightarrow> BPredUnit res" where
  "switchOut u = switchOut_loop MaxThreads 0 u"

definition takeOverFrom :: "BPredUnit \<Rightarrow> BPredUnit" where
  "takeOverFrom u = u"

subsection \<open>Well-formed units\<close>

definition shape :: "BPredUnit \<Rightarrow> PredType \<times> uint32 option \<times> uint32 list" where
  "shape u = (predictor u, map_option globalHistoryMask (tournamentBP u), map numEntries (RAS u))"

definition tables_ok :: "BPredUnit \<Rightarrow> bool" where
  "tables_ok u \<longleftrightarrow> length (predHist u) = MaxThreads \<and> length (RAS u) = MaxThreads \<and> btb_ok (BTB u) \<and>
     list_all (\<lambda>r. ras_ok r \<and> numEntries r \<le> 16) (RAS u) \<and>
     (case predictor u of
        Local \<Rightarrow> \<exists>l. localBP u = Some l \<and> local_ok l
      | Tournament \<Rightarrow> \<exists>t. tournamentBP u = Some t \<and> tournament_ok t)"

definition history_ok :: "PredType \<times> uint32 option \<times> uint32 list \<Rightarrow> nat \<Rightarrow> PredictorHistory \<Rightarrow> bool" where
  "history_ok sh i h \<longleftrightarrow> (case sh of (p, gm, ns) \<Rightarrow>
     (case p of
        Local \<Rightarrow> bpHistory h = None
      | Tournament \<Rightarrow> \<exists>g m. bpHistory h = Some g \<and> gm = Some m \<and> hist_globalHistory g \<le> m) \<and>
     (usedRAS h \<longrightarrow> RASIndex h < ns ! i))"

definition unit_ok :: "BPredUnit \<Rightarrow> bool" where
  "unit_ok u \<longleftrightarrow> tables_ok u \<and> (\<forall>i<MaxThreads. list_all (history_ok (shape u) i) (predHist u ! i))"

text \<open>What a prediction changes: the global history, and one push or pop on the stack of the thread.\<close>

definition dir_effect :: "BPHistory option \<Rightarrow> BPredUnit \<Rightarrow> BPredUnit \<Rightarrow> bool" where
  "dir_effect bh u u1 \<longleftrightarrow> predictor u1 = predictor u \<and> localBP u1 = localBP u \<and>
     (case predictor u of
        Local \<Rightarrow> bh = None \<and> tournamentBP u1 = tournamentBP u
      | Tournament \<Rightarrow> \<exists>t g b. tournamentBP u = Some t \<and> bh = Some g \<and> hist_globalHistory g = globalHistory t \<and>
          tournamentBP u1 = Some (shift_global b t))"

lemma predict_direction_ok:
  assumes "tables_ok u"
  obtains b bh u1 where "predict_direction i pc u = Inr (b, bh, u1)" "dir_effect bh u u1" "BTB u1 = BTB u"
    "RAS u1 = RAS u" "predHist u1 = predHist u"
proof (cases "predictor u")
  case Local
  then obtain l where l: "localBP u = Some l" "local_ok l" using assms by (auto simp: tables_ok_def)
  have "\<exists>b u1. predict_direction i pc u = Inr (b, None, u1) \<and> dir_effect None u u1 \<and> BTB u1 = BTB u \<and>
      RAS u1 = RAS u \<and> predHist u1 = predHist u"
    using Local l local_ops_ok(1) [OF l(2), of pc]
    by (cases "isUncondCtrl i") (simp_all add: predict_direction_def BPUncond_def BPLookup_def with_local_def dir_effect_def, auto)
  then show thesis using that by blast
next
  case Tournament
  then obtain t where t: "tournamentBP u = Some t" "tournament_ok t" using assms by (auto simp: tables_ok_def)
  obtain g where g: "tournament_lookup pc t = Inr (direction pc t, g, shift_global (direction pc t) t)"
      "hist_globalHistory g = globalHistory t"
    using tournament_lookup_ok [OF t(2), of pc] .
  have u: "snd (uncondBr t) = shift_global True t" "hist_globalHistory (fst (uncondBr t)) = globalHistory t"
    by (simp_all add: uncondBr_def shift_global_def)
  show thesis
  proof (cases "isUncondCtrl i")
    case True
    then have "predict_direction i pc u =
        Inr (True, Some (fst (uncondBr t)), u\<lparr>tournamentBP := Some (shift_global True t)\<rparr>)"
      using Tournament t(1) u(1) by (simp add: predict_direction_def BPUncond_def with_tournament_def case_prod_beta)
    then show thesis by (rule that) (use Tournament t u in \<open>auto simp: dir_effect_def\<close>)
  next
    case False
    then have "predict_direction i pc u = Inr (direction pc t, Some g,
        u\<lparr>condPredicted := condPredicted u + 1, tournamentBP := Some (shift_global (direction pc t) t)\<rparr>)"
      using Tournament t(1) g(1) by (simp add: predict_direction_def BPLookup_def with_tournament_def)
    then show thesis by (rule that) (use Tournament t g in \<open>auto simp: dir_effect_def\<close>)
  qed
qed

definition ras_effect :: "int16 \<Rightarrow> bool \<Rightarrow> PredictorHistory \<Rightarrow> BPredUnit \<Rightarrow> BPredUnit \<Rightarrow> bool" where
  "ras_effect t call h u u1 \<longleftrightarrow> (let r = RAS u ! unat t in
     usedRAS h \<and> RASIndex h = tos r \<and> RASTarget h = addrStack r ! unat (tos r) \<and>
       RAS u1 = (RAS u)[unat t := ras_pop r] \<or>
     \<not> usedRAS h \<and> wasCall h \<and> call \<and> (\<exists>a r'. ras_push a r = Inr r' \<and> RAS u1 = (RAS u)[unat t := r']) \<or>
     \<not> usedRAS h \<and> \<not> wasCall h \<and> RAS u1 = RAS u)"

definition spec_effect :: "int16 \<Rightarrow> br_inst \<Rightarrow> addr \<Rightarrow> PredictorHistory \<Rightarrow> BPredUnit \<Rightarrow> BPredUnit \<Rightarrow> bool" where
  "spec_effect t i pc h u u1 \<longleftrightarrow> dir_effect (bpHistory h) u u1 \<and> ras_effect t (isCall i) h u u1 \<and> BTB u1 = BTB u \<and>
     length (predHist u1) = length (predHist u) \<and> seqNum h = inst_seqNum i \<and> PC h = pc"

lemma thread_ras:
  assumes "tables_ok u" "unat t < MaxThreads"
  shows "arr_at (RAS u) t = Inr (RAS u ! unat t)" "ras_ok (RAS u ! unat t)" "numEntries (RAS u ! unat t) \<le> 16"
    "unat t < length (RAS u)" "unat (tos (RAS u ! unat t)) < length (addrStack (RAS u ! unat t))"
    "unat t < length (predHist u)"
  using assms by (auto simp: tables_ok_def list_all_length ras_ok_def unat_mono)

lemma predict_return_ok:
  assumes "tables_ok u" "unat t < MaxThreads" "h = PredictorHistory_new sn pc b bh t"
  obtains tgt h' u' where "predict_return t h u = Inr (True, tgt, h', u')" "ras_effect t c h' u u'"
    "predictor u' = predictor u" "localBP u' = localBP u" "tournamentBP u' = tournamentBP u" "BTB u' = BTB u"
    "predHist u' = predHist u" "seqNum h' = sn" "PC h' = pc" "bpHistory h' = bh"
proof -
  let ?r = "RAS u ! unat t"
  note r = thread_ras [OF assms(1,2)]
  have "tos ?r < 16" using r(2,3) by (auto simp: ras_ok_def)
  then have "predict_return t h u = Inr (True, addrStack ?r ! unat (tos ?r),
      h\<lparr>usedRAS := True, RASIndex := tos ?r, RASTarget := addrStack ?r ! unat (tos ?r)\<rparr>,
      set_ras t (ras_pop ?r) (u\<lparr>stat_usedRAS := stat_usedRAS u + 1\<rparr>))"
    using r(1,5) by (simp add: predict_return_def ras_top_def Let_def)
  then show thesis
    by (rule that) (simp_all add: ras_effect_def Let_def set_ras_def assms(3) PredictorHistory_new_def)
qed

lemma predict_target_ok:
  assumes "tables_ok u" "unat t < MaxThreads" "h = PredictorHistory_new sn pc b bh t"
  obtains b' tgt h' u' where "predict_target m i pc t h u = Inr (b', tgt, h', u')" "ras_effect t (isCall i) h' u u'"
    "predictor u' = predictor u" "localBP u' = localBP u" "tournamentBP u' = tournamentBP u" "BTB u' = BTB u"
    "predHist u' = predHist u" "seqNum h' = sn" "PC h' = pc" "bpHistory h' = bh"
proof -
  let ?r = "RAS u ! unat t" and ?u = "u\<lparr>BTBLookups := BTBLookups u + 1\<rparr>"
  note r = thread_ras [OF assms(1,2)]
  obtain r' where r': "ras_push (ras_pc m pc) ?r = Inr r'" using ras_push_ok [OF r(2)] by metis
  let ?h = "if isCall i then h\<lparr>wasCall := True\<rparr> else h"
  let ?u1 = "if isCall i then set_ras t r' ?u else ?u"
  have c: "predict_call m i pc t h ?u = Inr (?h, ?u1)" using r(1) r' by (simp add: predict_call_def)
  have e: "ras_effect t (isCall i) ?h u ?u1" using r'
    by (auto simp: ras_effect_def Let_def set_ras_def assms(3) PredictorHistory_new_def)
  have bb: "BTB ?u1 = BTB u" by (simp add: set_ras_def)
  obtain v a where v: "DefaultBTB_valid pc t (BTB u) = Inr v" "DefaultBTB_lookup pc t (BTB u) = Inr a"
    using btb_reads assms(1) unfolding tables_ok_def by metis
  have "predict_target m i pc t h u = (if v then Inr (True, a, ?h, ?u1\<lparr>BTBHits := BTBHits ?u1 + 1\<rparr>)
      else Inr (False, pc, ?h, ?u1))"
    unfolding predict_target_def Let_def c using v bb by simp
  then obtain b' tgt u2 where u2: "predict_target m i pc t h u = Inr (b', tgt, ?h, u2)"
      "u2 = ?u1\<lparr>BTBHits := BTBHits ?u1 + 1\<rparr> \<or> u2 = ?u1"
    by (cases v) auto
  have "RAS u2 = RAS ?u1" using u2(2) by auto
  then have "ras_effect t (isCall i) ?h u u2" using e by (simp add: ras_effect_def Let_def)
  with u2(1) show thesis
    by (rule that) (use u2(2) in \<open>auto simp: set_ras_def assms(3) PredictorHistory_new_def\<close>)
qed

lemma predict_record_ok:
  assumes "tables_ok u" "unat t < MaxThreads"
  obtains b tgt h u1 where "predict_record m i pc t u = Inr (b, tgt, h, u1)" "spec_effect t i pc h u u1" "predHist u1 = predHist u"
proof -
  let ?u = "u\<lparr>lookups := lookups u + 1\<rparr>"
  have ok: "tables_ok ?u" using assms(1) by (auto simp: tables_ok_def split: PredType.splits)
  obtain b bh u1 where d: "predict_direction i pc ?u = Inr (b, bh, u1)" "dir_effect bh ?u u1" "BTB u1 = BTB ?u"
      "RAS u1 = RAS ?u" "predHist u1 = predHist ?u"
    by (rule predict_direction_ok [OF ok])
  let ?h = "PredictorHistory_new (inst_seqNum i) pc b bh t"
  have ok1: "tables_ok u1"
    using d ok by (auto simp: tables_ok_def dir_effect_def split: PredType.splits)
  have pr: "predict_record m i pc t u =
      (if b then (if isReturn i then predict_return t ?h u1 else predict_target m i pc t ?h u1) else Inr (b, pc, ?h, u1))"
    unfolding predict_record_def d(1) by (simp add: Let_def)
  have "\<exists>b' tgt h u2. predict_record m i pc t u = Inr (b', tgt, h, u2) \<and> ras_effect t (isCall i) h u1 u2 \<and>
      predictor u2 = predictor u1 \<and> localBP u2 = localBP u1 \<and> tournamentBP u2 = tournamentBP u1 \<and> BTB u2 = BTB u1 \<and>
      predHist u2 = predHist u1 \<and> seqNum h = inst_seqNum i \<and> PC h = pc \<and> bpHistory h = bh"
  proof (cases b)
    case True
    then show ?thesis
      using predict_return_ok [OF ok1 assms(2) refl, of "inst_seqNum i" pc b bh "isCall i"]
        predict_target_ok [OF ok1 assms(2) refl, of m i pc "inst_seqNum i" b bh] pr
      by (cases "isReturn i") (simp, metis)+
  next
    case False
    then show ?thesis using pr by (auto simp: ras_effect_def PredictorHistory_new_def)
  qed
  then obtain b' tgt h u2 where h: "predict_record m i pc t u = Inr (b', tgt, h, u2)" "ras_effect t (isCall i) h u1 u2"
      "predictor u2 = predictor u1" "localBP u2 = localBP u1" "tournamentBP u2 = tournamentBP u1" "BTB u2 = BTB u1"
      "predHist u2 = predHist u1" "seqNum h = inst_seqNum i" "PC h = pc" "bpHistory h = bh"
    by blast
  have "dir_effect bh u u2" using d(2) h by (auto simp: dir_effect_def split: PredType.splits)
  moreover have "ras_effect t (isCall i) h u u2" using h(2) d(4) by (simp add: ras_effect_def)
  ultimately have "spec_effect t i pc h u u2" using h d by (simp add: spec_effect_def)
  with h(1) show thesis by (rule that) (use h(7) d(5) in simp)
qed

text \<open>Equal but for the statistics, the count of used stack entries and \<open>n\<close> slots above the top of the stack.\<close>

definition restored :: "int16 \<Rightarrow> nat \<Rightarrow> BPredUnit \<Rightarrow> BPredUnit \<Rightarrow> bool" where
  "restored t n u u' \<longleftrightarrow> predictor u' = predictor u \<and> localBP u' = localBP u \<and>
     tournamentBP u' = tournamentBP u \<and> BTB u' = BTB u \<and>
     (\<exists>r. RAS u' = (RAS u)[unat t := r] \<and> ras_near n (RAS u ! unat t) r)"

lemma spec_effect_ok:
  assumes "tables_ok u" "unat t < MaxThreads" "spec_effect t i pc h u u1"
  shows "tables_ok u1" "shape u1 = shape u" "history_ok (shape u) (unat t) h"
proof -
  note r = thread_ras [OF assms(1,2)]
  obtain r' where r': "RAS u1 = (RAS u)[unat t := r']" "ras_ok r'" "numEntries r' = numEntries (RAS u ! unat t)"
  proof -
    have "ras_push a (RAS u ! unat t) = Inr x \<Longrightarrow> ras_ok x \<and> numEntries x = numEntries (RAS u ! unat t)" for a x
      using ras_push_ok [OF r(2), of a] by (metis sum.inject(2))
    moreover have "RAS u = (RAS u)[unat t := RAS u ! unat t]" by simp
    ultimately show thesis
      using assms(3) that ras_pop_ok [OF r(2)] ras_pop_fields(2) r(2)
      unfolding spec_effect_def ras_effect_def Let_def by metis
  qed
  then show "tables_ok u1"
    using assms r(3,4) unfolding tables_ok_def spec_effect_def dir_effect_def
    by (auto simp: list_all_update split: PredType.splits)
  show "shape u1 = shape u"
    using assms(1,3) r' r(4) unfolding shape_def spec_effect_def dir_effect_def
    by (auto simp: map_list_update_id split: PredType.splits)
  have "usedRAS h \<Longrightarrow> RASIndex h < numEntries (RAS u ! unat t)"
    using assms(3) r(2) by (auto simp: spec_effect_def ras_effect_def Let_def ras_ok_def)
  then show "history_ok (shape u) (unat t) h"
    using assms(1,3) r(4) unfolding history_ok_def shape_def tables_ok_def spec_effect_def dir_effect_def
    by (auto simp: tournament_ok_def split: PredType.splits)
qed

lemma BPSquash_undo:
  assumes "tables_ok u" "dir_effect bh u u1" "predictor u2 = predictor u1" "localBP u2 = localBP u1"
    "tournamentBP u2 = tournamentBP u1"
  shows "BPSquash bh u2 = Inr (u2\<lparr>tournamentBP := tournamentBP u\<rparr>)"
proof (cases "predictor u")
  case Local
  then have "u2\<lparr>tournamentBP := tournamentBP u\<rparr> = u2" using assms by (simp add: dir_effect_def)
  then show ?thesis
    using Local assms by (auto simp: BPSquash_def with_local_def local_squash_def dir_effect_def tables_ok_def)
next
  case Tournament
  then show ?thesis
    using assms by (auto simp: BPSquash_def with_tournament_def tournament_squash_def dir_effect_def)
qed

lemma squash_step_undo:
  assumes ok: "tables_ok u" "unat t < MaxThreads" and eff: "spec_effect t i pc h u u1" and near: "restored t n u1 u2"
  shows "\<exists>u3. squash_step t h u2 = Inr u3 \<and> restored t (n + of_bool (isCall i)) u u3"
proof -
  let ?r = "RAS u ! unat t"
  note r = thread_ras [OF ok]
  obtain r2 where r2: "RAS u2 = (RAS u1)[unat t := r2]" "ras_near n (RAS u1 ! unat t) r2"
    using near by (auto simp: restored_def)
  obtain r3 u3 where s: "squash_step t h u2 = BPSquash (bpHistory h) u3" "u3 = u2\<lparr>RAS := (RAS u)[unat t := r3]\<rparr>"
      "ras_near (n + of_bool (isCall i)) ?r r3"
  proof -
    consider (ret) "usedRAS h" "RASIndex h = tos ?r" "RASTarget h = addrStack ?r ! unat (tos ?r)"
        "RAS u1 = (RAS u)[unat t := ras_pop ?r]"
      | (call) a r' where "\<not> usedRAS h" "wasCall h" "isCall i" "ras_push a ?r = Inr r'" "RAS u1 = (RAS u)[unat t := r']"
      | (none) "\<not> usedRAS h" "\<not> wasCall h" "RAS u1 = RAS u"
      using eff by (auto simp: spec_effect_def ras_effect_def Let_def)
    then show thesis
    proof cases
      case ret
      then obtain r3 where "ras_restore (tos ?r) (addrStack ?r ! unat (tos ?r)) r2 = Inr r3" "ras_near n ?r r3"
        using ras_undo_return [OF r(2)] r2(2) r(4) by auto
      then show thesis using ret r2(1) r(4)
        by (intro that [of _ r3]) (auto simp: squash_step_def set_ras_def intro: ras_near_mono)
    next
      case call
      then have "ras_near (Suc n) ?r (ras_pop r2)" using ras_undo_call [OF r(2) call(4)] r2(2) r(4) by simp
      then show thesis using call r2(1) r(4)
        by (intro that [of _ "ras_pop r2"]) (auto simp: squash_step_def set_ras_def)
    next
      case none
      then show thesis using r2 r(4)
        by (intro that [of u2 r2]) (auto simp: squash_step_def intro: ras_near_mono)
    qed
  qed
  have "BPSquash (bpHistory h) u3 = Inr (u3\<lparr>tournamentBP := tournamentBP u\<rparr>)"
    using eff near s(2) by (intro BPSquash_undo [OF ok(1), of _ u1]) (auto simp: spec_effect_def restored_def)
  moreover have "restored t (n + of_bool (isCall i)) u (u3\<lparr>tournamentBP := tournamentBP u\<rparr>)"
    using eff near s(2,3) by (auto simp: restored_def spec_effect_def dir_effect_def)
  ultimately show ?thesis using s(1) by auto
qed

subsection \<open>Speculation and its undoing\<close>

lemma spec_effect_predHist [simp]:
  "length hss = length (predHist u1) \<Longrightarrow> spec_effect t i pc h u (u1\<lparr>predHist := hss\<rparr>) = spec_effect t i pc h u u1"
  by (simp add: spec_effect_def dir_effect_def ras_effect_def split: PredType.split)

lemma predict_ok:
  assumes "tables_ok u" "unat t < MaxThreads"
  obtains b tgt h u1 where "predict m i pc t u = Inr (b, tgt, u1)" "spec_effect t i pc h u u1"
    "predHist u1 = (predHist u)[unat t := h # predHist u ! unat t]"
proof -
  obtain b tgt h u1 where p: "predict_record m i pc t u = Inr (b, tgt, h, u1)" "spec_effect t i pc h u u1"
      "predHist u1 = predHist u"
    by (rule predict_record_ok [OF assms])
  have "predict m i pc t u = Inr (b, tgt, u1\<lparr>predHist := (predHist u)[unat t := h # predHist u ! unat t]\<rparr>)"
    using p thread_ras(6) [OF assms] by (simp add: predict_def)
  then show thesis by (rule that) (simp_all add: p)
qed

text \<open>One prediction, with the entry it adds to the history.\<close>

definition speculate :: "isa \<Rightarrow> int16 \<Rightarrow> br_inst \<times> addr \<Rightarrow> BPredUnit \<Rightarrow> (PredictorHistory \<times> BPredUnit) res" where
  "speculate m t x u = bindR (predict m (fst x) (snd x) t u) (\<lambda>(b, tgt, u1). Inr (hd (predHist u1 ! unat t), u1))"

lemma speculate_ok:
  assumes "tables_ok u" "unat t < MaxThreads"
  obtains h u1 where "speculate m t x u = Inr (h, u1)" "spec_effect t (fst x) (snd x) h u u1"
    "predHist u1 = (predHist u)[unat t := h # predHist u ! unat t]"
proof -
  obtain b tgt h u1 where p: "predict m (fst x) (snd x) t u = Inr (b, tgt, u1)" "spec_effect t (fst x) (snd x) h u u1"
      "predHist u1 = (predHist u)[unat t := h # predHist u ! unat t]"
    by (rule predict_ok [OF assms])
  then have "speculate m t x u = Inr (h, u1)" using thread_ras(6) [OF assms] by (simp add: speculate_def)
  then show thesis using p(2,3) by (rule that)
qed

interpretation branch_spec: total_undo_log "\<lambda>u. tables_ok u \<and> unat t < MaxThreads" "speculate m t" "squash_step t"
  "restored t" "\<lambda>x. of_bool (isCall (fst x))" "\<lambda>x h. seqNum h = inst_seqNum (fst x)" for m t
proof (unfold_locales, goal_cases)
  case (1 u)
  then show ?case
    using thread_ras(2) [of u t]
    by (auto simp: restored_def ras_near_refl intro!: exI [of _ "RAS u ! unat t"])
next
  case (2 u x h u1)
  then have "spec_effect t (fst x) (snd x) h u u1" using speculate_ok [of u t m x] by auto
  then show ?case using 2 spec_effect_ok(1) [of u t "fst x" "snd x" h u1] by (auto simp: spec_effect_def)
next
  case (3 u x h u1 n u2)
  then have "spec_effect t (fst x) (snd x) h u u1" using speculate_ok [of u t m x] by auto
  then show ?case using squash_step_undo 3 by blast
next
  case (4 u x)
  then show ?case using speculate_ok by metis
qed

fun predict_all :: "isa \<Rightarrow> int16 \<Rightarrow> (br_inst \<times> addr) list \<Rightarrow> BPredUnit \<Rightarrow> BPredUnit res" where
  "predict_all m t [] u = Inr u"
| "predict_all m t (x # xs) u = bindR (predict m (fst x) (snd x) t u) (\<lambda>(b, tgt, u1). predict_all m t xs u1)"

lemma predict_all_run:
  "predict_all m t xs u = bindR (run_steps (speculate m t) xs u) (\<lambda>(rs, u1). Inr u1)"
  by (induction xs arbitrary: u) (auto simp: speculate_def bindR_def split: sum.splits)

lemma run_history:
  assumes "tables_ok u" "unat t < MaxThreads" "run_steps (speculate m t) xs u = Inr (rs, u1)"
  shows "predHist u1 = (predHist u)[unat t := rs @ predHist u ! unat t]"
  using assms
proof (induction xs arbitrary: u rs)
  case (Cons x xs)
  obtain h u0 where h: "speculate m t x u = Inr (h, u0)" "spec_effect t (fst x) (snd x) h u u0"
      "predHist u0 = (predHist u)[unat t := h # predHist u ! unat t]"
    by (rule speculate_ok [OF Cons.prems(1,2)])
  then obtain rs' where rs': "run_steps (speculate m t) xs u0 = Inr (rs', u1)" "rs = rs' @ [h]" using Cons.prems(3) by auto
  have "tables_ok u0" using spec_effect_ok(1) [OF Cons.prems(1,2) h(2)] .
  then show ?case using Cons.IH [OF _ Cons.prems(2) rs'(1)] rs'(2) h(3) thread_ras(6) [OF Cons.prems(1,2)] by simp
qed simp

lemma BPSquash_predHist: "BPSquash bh u = Inr u' \<Longrightarrow> predHist u' = predHist u \<and> RAS u' = RAS u \<and> BTB u' = BTB u"
  by (auto simp: BPSquash_def with_local_def with_tournament_def split: PredType.splits option.splits)

lemma squash_step_predHist: "squash_step t h u = Inr u' \<Longrightarrow> predHist u' = predHist u"
  by (auto simp: squash_step_def set_ras_def split: if_splits dest!: BPSquash_predHist)

lemma undo_all_predHist: "undo_all (squash_step t) hs u = Inr u' \<Longrightarrow> predHist u' = predHist u"
  by (induction hs arbitrary: u) (auto dest: squash_step_predHist)

lemma bp_squash_loop_undo:
  assumes "\<forall>h\<in>set new. sn < seqNum h" "\<forall>h\<in>set old. seqNum h \<le> sn"
  shows "bp_squash_loop sn t (new @ old) u = bindR (undo_all (squash_step t) new u) (\<lambda>u'. Inr (old, u'))"
  using assms(1)
proof (induction new arbitrary: u)
  case Nil
  then show ?case using assms(2) by (cases old) auto
next
  case (Cons h new)
  then show ?case by (auto simp: bindR_def split: sum.splits)
qed

lemma predict_squash:
  assumes ok: "tables_ok u" "unat t < MaxThreads"
    and old: "\<forall>h\<in>set (predHist u ! unat t). seqNum h \<le> sn" and new: "\<forall>x\<in>set xs. sn < inst_seqNum (fst x)"
  obtains u1 where "predict_all m t xs u = Inr u1" "tables_ok u1"
    "\<forall>v. restored t 0 u1 v \<and> predHist v = predHist u1 \<longrightarrow> (\<exists>u2. bp_squash sn t v = Inr u2 \<and>
       predHist u2 = predHist u \<and> restored t (length (filter (\<lambda>x. isCall (fst x)) xs)) u u2)"
proof -
  have c: "(\<Sum>x\<leftarrow>xs. of_bool (isCall (fst x))) = length (filter (\<lambda>x. isCall (fst x)) xs)" by (induction xs) auto
  obtain rs u1 where r: "run_steps (speculate m t) xs u = Inr (rs, u1)" "tables_ok u1"
      "list_all2 (\<lambda>x h. seqNum h = inst_seqNum (fst x)) (rev xs) rs"
      "\<And>v. restored t 0 u1 v \<Longrightarrow> \<exists>u2. undo_all (squash_step t) rs v = Inr u2 \<and>
         restored t (\<Sum>x\<leftarrow>xs. of_bool (isCall (fst x))) u u2"
  proof -
    have s: "tables_ok u \<and> unat t < MaxThreads" using ok by blast
    obtain rs u1 where r: "run_steps (speculate m t) xs u = Inr (rs, u1)" using branch_spec.run_returns [OF s] by blast
    show thesis using that [OF r] branch_spec.run_keeps [OF s r] branch_spec.undo_run [OF s r] by blast
  qed
  have h: "predHist u1 = (predHist u)[unat t := rs @ predHist u ! unat t]" by (rule run_history [OF ok r(1)])
  have sn: "sn < seqNum h" if hs: "h \<in> set rs" for h
  proof -
    obtain j where "j < length rs" "rs ! j = h" using hs by (auto simp: in_set_conv_nth)
    then have "j < length (rev xs)" "seqNum h = inst_seqNum (fst (rev xs ! j))"
      using r(3) by (auto simp: list_all2_conv_all_nth)
    then show ?thesis using new nth_mem [of j "rev xs"] by simp
  qed
  have "\<exists>u2. bp_squash sn t v = Inr u2 \<and> predHist u2 = predHist u \<and> restored t (length (filter (\<lambda>x. isCall (fst x)) xs)) u u2"
    if v: "restored t 0 u1 v" "predHist v = predHist u1" for v
  proof -
    obtain u2 where u2: "undo_all (squash_step t) rs v = Inr u2" "restored t (length (filter (\<lambda>x. isCall (fst x)) xs)) u u2"
      using r(4) [OF v(1)] c by auto
    have "bp_squash_loop sn t (rs @ predHist u ! unat t) v = Inr (predHist u ! unat t, u2)"
      using u2(1) sn bp_squash_loop_undo [OF _ old] by simp
    then have "bp_squash sn t v = Inr (u2\<lparr>predHist := predHist u\<rparr>)"
      using h v(2) thread_ras(6) [OF ok] undo_all_predHist [OF u2(1)] by (simp add: bp_squash_def)
    then show ?thesis using u2(2) by (auto simp: restored_def)
  qed
  then show thesis using r(1,2) by (intro that [of u1]) (auto simp: predict_all_run)
qed

subsection \<open>Every operation keeps the unit well-formed\<close>

lemma BPUpdate_ok:
  assumes "tables_ok u" "history_ok (shape u) i h"
  obtains u' where "BPUpdate a b (bpHistory h) u = Inr u'" "tables_ok u'" "shape u' = shape u" "predHist u' = predHist u"
    "RAS u' = RAS u" "BTB u' = BTB u"
    "map_option globalHistory (tournamentBP u') = map_option globalHistory (tournamentBP u)"
proof (cases "predictor u")
  case Local
  then obtain l where l: "localBP u = Some l" "local_ok l" using assms by (auto simp: tables_ok_def)
  have "bpHistory h = None" using assms(2) Local by (simp add: history_ok_def shape_def)
  moreover obtain l' where "local_update a b (None :: BPHistory option) l = Inr l'" "local_ok l'"
    using local_ops_ok(2) [OF l(2)] by blast
  ultimately have "BPUpdate a b (bpHistory h) u = Inr (u\<lparr>localBP := Some l'\<rparr>)" "tables_ok (u\<lparr>localBP := Some l'\<rparr>)"
    using Local l assms(1) by (simp_all add: BPUpdate_def with_local_def tables_ok_def)
  then show thesis by (rule that) (simp_all add: shape_def)
next
  case Tournament
  then obtain t where t: "tournamentBP u = Some t" "tournament_ok t" using assms by (auto simp: tables_ok_def)
  obtain t' where t': "tournament_update a b (bpHistory h) t = Inr t'" "tournament_ok t'" "globalHistory t' = globalHistory t"
      "globalHistoryMask t' = globalHistoryMask t"
    by (rule tournament_update_ok [OF t(2)])
  have "BPUpdate a b (bpHistory h) u = Inr (u\<lparr>tournamentBP := Some t'\<rparr>)" "tables_ok (u\<lparr>tournamentBP := Some t'\<rparr>)"
    using Tournament t t' assms(1) by (simp_all add: BPUpdate_def with_tournament_def tables_ok_def)
  then show thesis by (rule that) (use t t' in \<open>simp_all add: shape_def\<close>)
qed

lemma BPSquash_ok:
  assumes "tables_ok u" "history_ok (shape u) i h"
  obtains u' where "BPSquash (bpHistory h) u = Inr u'" "tables_ok u'" "shape u' = shape u" "predHist u' = predHist u"
    "RAS u' = RAS u" "BTB u' = BTB u"
proof (cases "predictor u")
  case Local
  then have "BPSquash (bpHistory h) u = Inr u"
    using assms by (auto simp: BPSquash_def with_local_def local_squash_def history_ok_def shape_def tables_ok_def)
  then show thesis using assms(1) by (rule that) simp_all
next
  case Tournament
  then obtain t g where t: "tournamentBP u = Some t" "tournament_ok t" "bpHistory h = Some g"
      "hist_globalHistory g \<le> globalHistoryMask t"
    using assms by (auto simp: tables_ok_def history_ok_def shape_def)
  let ?u = "u\<lparr>tournamentBP := Some (t\<lparr>globalHistory := hist_globalHistory g\<rparr>)\<rparr>"
  have "BPSquash (bpHistory h) u = Inr ?u" "tables_ok ?u"
    using Tournament t assms(1)
    by (simp_all add: BPSquash_def with_tournament_def tournament_squash_def tables_ok_def tournament_ok_def)
  then show thesis by (rule that) (simp_all add: shape_def t)
qed

lemma set_ras_ok:
  assumes "tables_ok u" "unat t < MaxThreads" "ras_ok r" "numEntries r = numEntries (RAS u ! unat t)"
  shows "tables_ok (set_ras t r u)" "shape (set_ras t r u) = shape u"
  using assms thread_ras(3,4) [OF assms(1,2)]
  by (auto simp: set_ras_def tables_ok_def shape_def list_all_update map_list_update_id split: PredType.splits)

lemma squash_step_ok:
  assumes "tables_ok u" "unat t < MaxThreads" "history_ok (shape u) (unat t) h"
  obtains u' where "squash_step t h u = Inr u'" "tables_ok u'" "shape u' = shape u" "predHist u' = predHist u" "BTB u' = BTB u"
proof -
  note r = thread_ras [OF assms(1,2)]
  obtain u1 where u1: "squash_step t h u = BPSquash (bpHistory h) u1" "tables_ok u1" "shape u1 = shape u"
      "predHist u1 = predHist u" "BTB u1 = BTB u"
  proof (cases "usedRAS h")
    case True
    then have "RASIndex h < numEntries (RAS u ! unat t)" using assms(3) r(4) by (simp add: history_ok_def shape_def)
    then obtain r' where r': "ras_restore (RASIndex h) (RASTarget h) (RAS u ! unat t) = Inr r'" "ras_ok r'"
        "numEntries r' = numEntries (RAS u ! unat t)"
      using ras_restore_ok [OF r(2)] by metis
    then show thesis using True r(1) set_ras_ok [OF assms(1,2) r'(2,3)]
      by (intro that [of "set_ras t r' u"]) (simp_all add: squash_step_def, simp_all add: set_ras_def)
  next
    case False
    note p = set_ras_ok [OF assms(1,2) ras_pop_ok [OF r(2)] ras_pop_fields(2)]
    show thesis
    proof (cases "wasCall h")
      case True
      then show thesis using False r(1) p
        by (intro that [of "set_ras t (ras_pop (RAS u ! unat t)) u"]) (simp_all add: squash_step_def, simp_all add: set_ras_def)
    next
      case c: False
      then show thesis using False assms(1) by (intro that [of u]) (simp_all add: squash_step_def)
    qed
  qed
  have h: "history_ok (shape u1) (unat t) h" using assms(3) u1(3) by simp
  show thesis using BPSquash_ok [OF u1(2) h] u1 that by metis
qed

lemma update_loop_ok:
  assumes "tables_ok u" "list_all (history_ok (shape u) i) hs"
  shows "\<exists>rest u'. update_loop sn hs u = Inr (rest, u') \<and> set rest \<subseteq> set hs \<and> tables_ok u' \<and> shape u' = shape u \<and>
    predHist u' = predHist u"
  using assms
proof (induction hs arbitrary: u)
  case (Cons h hs)
  obtain u1 where u1: "BPUpdate (PC h) (predTaken h) (bpHistory h) u = Inr u1" "tables_ok u1" "shape u1 = shape u"
      "predHist u1 = predHist u"
    using BPUpdate_ok [of u i h] Cons.prems by (metis list.pred_inject(2))
  show ?case using Cons.IH [OF u1(2)] Cons.prems u1 by auto
qed simp

lemma bp_squash_loop_ok:
  assumes "tables_ok u" "unat t < MaxThreads" "list_all (history_ok (shape u) (unat t)) hs"
  shows "\<exists>rest u'. bp_squash_loop sn t hs u = Inr (rest, u') \<and> set rest \<subseteq> set hs \<and> tables_ok u' \<and> shape u' = shape u \<and>
    predHist u' = predHist u"
  using assms
proof (induction hs arbitrary: u)
  case (Cons h hs)
  obtain u1 where u1: "squash_step t h u = Inr u1" "tables_ok u1" "shape u1 = shape u" "predHist u1 = predHist u"
    using squash_step_ok [of u t h] Cons.prems by (metis list.pred_inject(2))
  show ?case using Cons.IH [OF u1(2)] Cons.prems u1 by auto
qed simp

lemma unit_ok_history:
  assumes "unit_ok u" "tables_ok u'" "shape u' = shape u" "predHist u' = (predHist u)[unat t := hs]"
    "list_all (history_ok (shape u) (unat t)) hs"
  shows "unit_ok u'"
  using assms
  by (cases "unat t < MaxThreads") (auto simp: unit_ok_def nth_list_update tables_ok_def list_update_beyond)

lemma unit_ok_thread:
  "unit_ok u \<Longrightarrow> unat t < MaxThreads \<Longrightarrow> tables_ok u \<and> list_all (history_ok (shape u) (unat t)) (predHist u ! unat t)"
  by (simp add: unit_ok_def)

lemma tables_ok_predHist:
  "length hss = length (predHist u) \<Longrightarrow> tables_ok (u\<lparr>predHist := hss\<rparr>) = tables_ok u"
  by (simp add: tables_ok_def split: PredType.split)

lemma predict_keeps:
  assumes "unit_ok u" "unat t < MaxThreads"
  shows "\<exists>b tgt u1. predict m i pc t u = Inr (b, tgt, u1) \<and> unit_ok u1 \<and> shape u1 = shape u"
proof -
  note ok = unit_ok_thread [OF assms]
  obtain b tgt h u1 where p: "predict m i pc t u = Inr (b, tgt, u1)" "spec_effect t i pc h u u1"
      "predHist u1 = (predHist u)[unat t := h # predHist u ! unat t]"
    using predict_ok ok assms(2) by metis
  then have "unit_ok u1 \<and> shape u1 = shape u"
    using unit_ok_history [OF assms(1) _ _ p(3)] spec_effect_ok [OF _ assms(2) p(2)] ok by simp
  then show ?thesis using p(1) by blast
qed

lemma update_keeps:
  assumes "unit_ok u" "unat t < MaxThreads"
  shows "\<exists>u1. bp_update sn t u = Inr u1 \<and> unit_ok u1 \<and> shape u1 = shape u"
proof -
  note ok = unit_ok_thread [OF assms]
  obtain rest u' where l: "update_loop sn (rev (predHist u ! unat t)) u = Inr (rest, u')" "set rest \<subseteq> set (predHist u ! unat t)"
      "tables_ok u'" "shape u' = shape u" "predHist u' = predHist u"
    using update_loop_ok [of u "unat t" "rev (predHist u ! unat t)" sn] ok by (auto simp: list_all_iff)
  let ?u = "u'\<lparr>predHist := (predHist u)[unat t := rev rest]\<rparr>"
  have "bp_update sn t u = Inr ?u" using l thread_ras(6) [OF _ assms(2)] ok by (simp add: bp_update_def)
  moreover have "unit_ok ?u"
    using ok l by (intro unit_ok_history [OF assms(1), of _ t "rev rest"]) (auto simp: tables_ok_predHist shape_def list_all_iff)
  moreover have "shape ?u = shape u" using l(4) by (simp add: shape_def)
  ultimately show ?thesis by blast
qed

lemma squash_keeps:
  assumes "unit_ok u" "unat t < MaxThreads"
  shows "\<exists>u1. bp_squash sn t u = Inr u1 \<and> unit_ok u1 \<and> shape u1 = shape u"
proof -
  note ok = unit_ok_thread [OF assms]
  obtain rest u' where l: "bp_squash_loop sn t (predHist u ! unat t) u = Inr (rest, u')" "set rest \<subseteq> set (predHist u ! unat t)"
      "tables_ok u'" "shape u' = shape u" "predHist u' = predHist u"
    using bp_squash_loop_ok ok assms(2) by blast
  let ?u = "u'\<lparr>predHist := (predHist u)[unat t := rest]\<rparr>"
  have "bp_squash sn t u = Inr ?u" using l thread_ras(6) [OF _ assms(2)] ok by (simp add: bp_squash_def)
  moreover have "unit_ok ?u"
    using ok l by (intro unit_ok_history [OF assms(1), of _ t rest]) (auto simp: tables_ok_predHist shape_def list_all_iff)
  moreover have "shape ?u = shape u" using l(4) by (simp add: shape_def)
  ultimately show ?thesis by blast
qed

lemma unit_ok_condIncorrect [simp]:
  "unit_ok (u\<lparr>condIncorrect := n\<rparr>) = unit_ok u" "shape (u\<lparr>condIncorrect := n\<rparr>) = shape u"
  by (simp_all add: unit_ok_def tables_ok_def shape_def split: PredType.split)

lemma mispredict_front:
  assumes ok: "unit_ok u" "unat t < MaxThreads" and sq: "bp_squash sn t (u\<lparr>condIncorrect := condIncorrect u + 1\<rparr>) = Inr v"
    and hist: "predHist v ! unat t = h # hs" "seqNum h = sn"
  obtains u' where "bp_mispredict sn ct b t u = Inr u'" "unit_ok u'" "shape u' = shape u"
    "predHist u' = (predHist v)[unat t := hs]" "RAS u' = RAS v"
    "DefaultBTB_valid (PC h) t (BTB u') = Inr True" "DefaultBTB_lookup (PC h) t (BTB u') = Inr ct"
    "map_option globalHistory (tournamentBP u') = map_option globalHistory (tournamentBP v)"
proof -
  have v: "unit_ok v" "shape v = shape u"
    using squash_keeps [of "u\<lparr>condIncorrect := condIncorrect u + 1\<rparr>" t sn] ok sq by auto
  let ?v = "if usedRAS h then v\<lparr>RASIncorrect := RASIncorrect v + 1\<rparr> else v"
  have h: "history_ok (shape v) (unat t) h" "list_all (history_ok (shape v) (unat t)) hs"
    using unit_ok_thread [OF v(1) ok(2)] hist(1) by simp_all
  have ok': "tables_ok ?v" "shape ?v = shape v" "predHist ?v = predHist v" "RAS ?v = RAS v" "tournamentBP ?v = tournamentBP v"
    using v(1) by (auto simp: unit_ok_def tables_ok_def shape_def split: PredType.splits)
  obtain w where w: "BPUpdate (PC h) b (bpHistory h) ?v = Inr w" "tables_ok w" "shape w = shape v" "predHist w = predHist v"
      "RAS w = RAS v" "map_option globalHistory (tournamentBP w) = map_option globalHistory (tournamentBP v)"
    using BPUpdate_ok [of ?v "unat t" h "PC h" b] ok' h(1) by metis
  have "btb_ok (BTB w)" using w(2) by (simp add: tables_ok_def)
  then obtain bt where bt: "DefaultBTB_update (PC h) ct t (BTB w) = Inr bt" "btb_ok bt"
      "DefaultBTB_valid (PC h) t bt = Inr True" "DefaultBTB_lookup (PC h) t bt = Inr ct"
    using btb_update_ok by metis
  let ?u = "w\<lparr>BTB := bt, predHist := (predHist v)[unat t := hs]\<rparr>"
  have "length (predHist v) = MaxThreads" using v(1) by (simp add: unit_ok_def tables_ok_def)
  then have m: "bp_mispredict sn ct b t u = Inr ?u"
    unfolding bp_mispredict_def sq bindR_simps using hist w(1,4) bt(1) ok(2) by (simp add: Let_def)
  have "tables_ok (w\<lparr>BTB := bt\<rparr>)" using w(2) bt(2) by (auto simp: tables_ok_def split: PredType.splits)
  then have "unit_ok ?u"
    using w v(2) h(2) by (intro unit_ok_history [OF v(1), of _ t hs]) (simp_all add: tables_ok_predHist shape_def)
  with m show thesis by (rule that) (use w v(2) bt in \<open>simp_all add: shape_def\<close>)
qed

lemma mispredict_keeps:
  assumes "unit_ok u" "unat t < MaxThreads"
  shows "(\<exists>u1. bp_mispredict sn ct b t u = Inr u1 \<and> unit_ok u1 \<and> shape u1 = shape u) \<or>
    bp_mispredict sn ct b t u = Inl (Assert ''pred_hist.front().seqNum == squashed_sn'')"
proof -
  obtain v where v: "bp_squash sn t (u\<lparr>condIncorrect := condIncorrect u + 1\<rparr>) = Inr v" "unit_ok v" "shape v = shape u"
    using squash_keeps [of "u\<lparr>condIncorrect := condIncorrect u + 1\<rparr>" t sn] assms by auto
  have l: "unat t < length (predHist v)" using v(2) assms(2) by (simp add: unit_ok_def tables_ok_def)
  show ?thesis
  proof (cases "predHist v ! unat t")
    case Nil
    then show ?thesis using v l unfolding bp_mispredict_def v(1) by simp
  next
    case (Cons h hs)
    show ?thesis
    proof (cases "seqNum h = sn")
      case True
      then show ?thesis using mispredict_front [OF assms v(1) Cons, of ct b] by metis
    next
      case False
      then show ?thesis using Cons l unfolding bp_mispredict_def v(1) by simp
    qed
  qed
qed

lemma predict_all_keeps:
  assumes "unit_ok u" "unat t < MaxThreads" "predict_all m t xs u = Inr u'"
  shows "unit_ok u'"
  using assms
proof (induction xs arbitrary: u)
  case (Cons x xs)
  obtain b tgt u1 where "predict m (fst x) (snd x) t u = Inr (b, tgt, u1)" "unit_ok u1"
    using predict_keeps [OF Cons.prems(1,2)] by blast
  then show ?case using Cons.IH [of u1] Cons.prems(2,3) by simp
qed simp

lemma switchOut_loop_keeps:
  "unit_ok u \<Longrightarrow> i + n \<le> MaxThreads \<Longrightarrow> \<exists>u1. switchOut_loop n i u = Inr u1 \<and> unit_ok u1 \<and> shape u1 = shape u"
proof (induction n arbitrary: i u)
  case (Suc n)
  have "unat (of_nat i :: int16) = i" using Suc.prems(2) by (simp add: MaxThreads_def unat_of_nat)
  then obtain u1 where "bp_squash 0 (of_nat i) u = Inr u1" "unit_ok u1" "shape u1 = shape u"
    using squash_keeps [OF Suc.prems(1), of "of_nat i" 0] Suc.prems(2) by auto
  then show ?case using Suc.IH [of u1 "Suc i"] Suc.prems(2) by auto
qed simp

text \<open>The calls the fetch stage makes, and a sequence of them.\<close>

datatype bp_op =
    OpPredict br_inst addr int16
  | OpUpdate "64 word" int16
  | OpSquash "64 word" int16
  | OpMispredict "64 word" addr bool int16
  | OpSwitchOut

fun op_thread :: "bp_op \<Rightarrow> int16" where
  "op_thread (OpPredict i pc t) = t"
| "op_thread (OpUpdate sn t) = t"
| "op_thread (OpSquash sn t) = t"
| "op_thread (OpMispredict sn ct b t) = t"
| "op_thread OpSwitchOut = 0"

fun bp_apply :: "isa \<Rightarrow> bp_op \<Rightarrow> BPredUnit \<Rightarrow> BPredUnit res" where
  "bp_apply m (OpPredict i pc t) u = bindR (predict m i pc t u) (\<lambda>(b, tgt, u1). Inr u1)"
| "bp_apply m (OpUpdate sn t) u = bp_update sn t u"
| "bp_apply m (OpSquash sn t) u = bp_squash sn t u"
| "bp_apply m (OpMispredict sn ct b t) u = bp_mispredict sn ct b t u"
| "bp_apply m OpSwitchOut u = switchOut u"

fun bp_run :: "isa \<Rightarrow> bp_op list \<Rightarrow> BPredUnit \<Rightarrow> BPredUnit res" where
  "bp_run m [] u = Inr u"
| "bp_run m (x # xs) u = bindR (bp_apply m x u) (bp_run m xs)"

lemma bp_apply_keeps:
  assumes "unit_ok u" "unat (op_thread x) < MaxThreads"
  shows "(\<exists>u1. bp_apply m x u = Inr u1 \<and> unit_ok u1 \<and> shape u1 = shape u) \<or>
    bp_apply m x u = Inl (Assert ''pred_hist.front().seqNum == squashed_sn'')"
proof (cases x)
  case (OpPredict i pc t)
  then show ?thesis using predict_keeps [OF assms(1), of t m i pc] assms(2) by auto
next
  case OpSwitchOut
  then show ?thesis using switchOut_loop_keeps [OF assms(1), of 0 MaxThreads] by (simp add: switchOut_def)
qed (use assms update_keeps squash_keeps mispredict_keeps in auto)

lemma bp_run_keeps:
  assumes "unit_ok u" "\<forall>x\<in>set ops. unat (op_thread x) < MaxThreads"
  shows "(\<exists>u1. bp_run m ops u = Inr u1 \<and> unit_ok u1 \<and> shape u1 = shape u) \<or>
    bp_run m ops u = Inl (Assert ''pred_hist.front().seqNum == squashed_sn'')"
  using assms
proof (induction ops arbitrary: u)
  case (Cons x xs)
  from Cons.prems consider u1 where "bp_apply m x u = Inr u1" "unit_ok u1" "shape u1 = shape u"
    | "bp_apply m x u = Inl (Assert ''pred_hist.front().seqNum == squashed_sn'')"
    using bp_apply_keeps [of u x m] by auto
  then show ?case
  proof cases
    case 1
    then show ?thesis using Cons.IH [OF 1(2)] Cons.prems(2) by simp
  qed simp
qed simp

subsection \<open>Construction\<close>

lemma floorPow2_self: "isPowerOf2 n \<Longrightarrow> floorPow2 n = Inr n"
  by (auto simp: isPowerOf2_iff floorPow2_def floorLog2_exp push_bit_eq_mult)

lemma exp_pred_less:
  assumes "2 ^ unat b \<le> unat (n :: uint32)"
  shows "push_bit (unat (b :: uint32)) 1 - 1 < n" "unat (push_bit (unat b) 1 - 1 :: uint32) = 2 ^ unat b - 1"
proof -
  have "unat n < 2 ^ 32" using unsigned_less [of n] by simp
  then have "(2 :: nat) ^ unat b < 2 ^ 32" using assms by linarith
  then have "unat b < 32" by (rule power_less_imp_less_exp [rotated]) simp
  then have e: "unat (2 ^ unat b :: uint32) = 2 ^ unat b" by (simp add: unat_exp)
  then have "(2 ^ unat b :: uint32) \<noteq> 0" by (metis unat_0 power_not_zero zero_neq_numeral)
  then show u: "unat (push_bit (unat b) 1 - 1 :: uint32) = 2 ^ unat b - 1"
    using e by (simp add: push_bit_eq_mult unat_minus_one)
  show "push_bit (unat b) 1 - 1 < n" unfolding word_less_nat_alt u using assms zero_less_power [of "2 :: nat" "unat b"] by linarith
qed

text \<open>The configurations the unit can run with.\<close>

definition bp_config_ok :: "bp_params \<Rightarrow> bool" where
  "bp_config_ok p \<longleftrightarrow> 0 < RASSize p \<and> RASSize p \<le> 16 \<and>
     (predType p = ''tournament'' \<longrightarrow> 2 ^ unat (p_globalCtrBits p) \<le> unat (p_globalPredictorSize p))"

lemma LocalBP_new_ok: "LocalBP_new junk n b s = Inr l \<Longrightarrow> local_ok l"
  by (auto simp: LocalBP_new_def Let_def local_ok_def list_all_iff counter_ok_def setBits_def SatCounter_def
      isPowerOf2_def split: if_splits)

lemma DefaultBTB_new_ok: "DefaultBTB_new junk n b s = Inr x \<Longrightarrow> btb_ok x"
  by (auto simp: DefaultBTB_new_def btb_ok_def isPowerOf2_def split: if_splits)

lemma TournamentBP_new_ok:
  assumes "TournamentBP_new junk ls lcb lhs lhb gs gcb ghb cs ccb sh = Inr t" "2 ^ unat ghb \<le> unat gs"
  shows "tournament_ok t" "length (globalCtrs t) = unat gs" "globalHistoryMask t = push_bit (unat ghb) 1 - 1"
proof -
  have p: "isPowerOf2 ls" "isPowerOf2 lhs" "isPowerOf2 gs" using assms(1) by (auto simp: TournamentBP_new_def split: if_splits)
  then have "ls \<noteq> 0" "lhs \<noteq> 0" by (auto simp: isPowerOf2_def)
  then show "tournament_ok t" "length (globalCtrs t) = unat gs" "globalHistoryMask t = push_bit (unat ghb) 1 - 1"
    using assms(1) exp_pred_less(1) [OF assms(2)] p
    by (auto simp: TournamentBP_new_def floorPow2_self tournament_ok_def counters_ok)
qed

lemma BPredUnit_new_ok:
  assumes new: "BPredUnit_new junk jt p = Inr u" and cfg: "bp_config_ok p"
  shows "unit_ok u" "predHist u = replicate MaxThreads []"
    "predType p = ''tournament'' \<Longrightarrow> shape u = (Tournament, Some (push_bit (unat (p_globalCtrBits p)) 1 - 1), replicate MaxThreads (RASSize p))"
    "predType p = ''tournament'' \<Longrightarrow> \<exists>t. tournamentBP u = Some t \<and> length (globalCtrs t) = unat (p_globalPredictorSize p)"
proof -
  obtain b where b: "DefaultBTB_new jt (BTBEntries p) (BTBTagSize p) (p_instShiftAmt p) = Inr b" "BTB u = b"
    using new by (auto simp: BPredUnit_new_def)
  then have "btb_ok b" by (auto intro: DefaultBTB_new_ok)
  moreover have "ras_ok (ras_init (RASSize p))" using cfg by (simp add: bp_config_ok_def ras_ok_def ras_init_def)
  moreover have "case predictor u of Local \<Rightarrow> \<exists>l. localBP u = Some l \<and> local_ok l
      | Tournament \<Rightarrow> \<exists>t. tournamentBP u = Some t \<and> tournament_ok t"
  proof (cases "predType p = ''local''")
    case True
    then show ?thesis using new by (auto simp: BPredUnit_new_def intro: LocalBP_new_ok)
  next
    case False
    then have "predType p = ''tournament''" using new by (auto simp: BPredUnit_new_def split: if_splits)
    then show ?thesis using new cfg by (auto simp: BPredUnit_new_def bp_config_ok_def intro: TournamentBP_new_ok(1))
  qed
  moreover have "length (predHist u) = MaxThreads" "RAS u = replicate MaxThreads (ras_init (RASSize p))"
    using new by (auto simp: BPredUnit_new_def)
  ultimately have "tables_ok u" using b(2) cfg by (simp add: tables_ok_def bp_config_ok_def ras_init_def list_all_iff)
  moreover show h: "predHist u = replicate MaxThreads []" using new by (auto simp: BPredUnit_new_def)
  ultimately show "unit_ok u" by (simp add: unit_ok_def)
  assume t: "predType p = ''tournament''"
  then obtain t where "tournamentBP u = Some t" "predictor u = Tournament" "RAS u = replicate MaxThreads (ras_init (RASSize p))"
      "TournamentBP_new junk (p_localPredictorSize p) (p_localCtrBits p) (p_localHistoryTableSize p) (p_localHistoryBits p)
        (p_globalPredictorSize p) (p_globalHistoryBits p) (p_globalCtrBits p) (p_choicePredictorSize p)
        (p_choiceCtrBits p) (p_instShiftAmt p) = Inr t"
    using new by (auto simp: BPredUnit_new_def)
  then show "shape u = (Tournament, Some (push_bit (unat (p_globalCtrBits p)) 1 - 1), replicate MaxThreads (RASSize p))"
      "\<exists>t. tournamentBP u = Some t \<and> length (globalCtrs t) = unat (p_globalPredictorSize p)"
    using TournamentBP_new_ok(2,3) cfg t by (auto simp: shape_def bp_config_ok_def ras_init_def)
qed

lemma ras_near_top:
  assumes "ras_ok r" "ras_near n r r'" "n < unat (numEntries r)"
  shows "ras_top r' = ras_top r"
proof -
  let ?N = "length (addrStack r)"
  have t: "unat (tos r) < ?N" "?N = unat (numEntries r)" using assms(1) by (auto simp: ras_ok_def unat_mono)
  have "unat (tos r) \<noteq> (unat (tos r) + k) mod ?N" if k: "1 \<le> k" "k \<le> n" for k
    using k assms(3) t by (cases "unat (tos r) + k < ?N") (auto simp: le_mod_geq)
  then show ?thesis using assms(2) t(1) by (auto simp: ras_top_def ras_near_def)
qed

subsection \<open>Properties\<close>

text \<open>A small configuration and instructions for it, on which the properties are evaluated.\<close>

definition bp_small :: "string \<Rightarrow> bp_params" where
  "bp_small ty = \<lparr>predType = ty, p_localPredictorSize = 4, p_localCtrBits = 2, p_localHistoryTableSize = 2,
     p_localHistoryBits = 2, p_globalPredictorSize = 8, p_globalHistoryBits = 3, p_globalCtrBits = 2,
     p_choicePredictorSize = 8, p_choiceCtrBits = 2, BTBEntries = 2, BTBTagSize = 4, RASSize = 2, p_instShiftAmt = 2\<rparr>"

definition small_isa :: isa where
  "small_isa = \<lparr>machInst_size = 4, has_delay_slot = False\<rparr>"

definition small_inst :: "64 word \<Rightarrow> bool \<Rightarrow> bool \<Rightarrow> bool \<Rightarrow> br_inst" where
  "small_inst sn un rt call = \<lparr>inst_seqNum = sn, isUncondCtrl = un, isReturn = rt, isCall = call\<rparr>"

lemma small_config: "bp_config_ok (bp_small ty)"
  by (simp add: bp_config_ok_def bp_small_def)

lemma small_unit:
  obtains u where "BPredUnit_new 0 0 (bp_small ''tournament'') = Inr u" "unit_ok u" "predHist u = replicate MaxThreads []"
    "numEntries (RAS u ! 0) = 2"
proof -
  have "\<not> isl (BPredUnit_new 0 0 (bp_small ''tournament''))" by code_simp
  then obtain u where u: "BPredUnit_new 0 0 (bp_small ''tournament'') = Inr u" by (cases "BPredUnit_new 0 0 (bp_small ''tournament'')") auto
  have "map numEntries (RAS u) = replicate MaxThreads 2"
    using BPredUnit_new_ok(3) [OF u small_config] by (simp add: shape_def bp_small_def)
  then have "map numEntries (RAS u) ! 0 = 2" "RAS u \<noteq> []" by (auto simp: MaxThreads_def)
  then have "numEntries (RAS u ! 0) = 2" by (cases "RAS u") auto
  then show thesis using BPredUnit_new_ok(1,2) [OF u small_config] u that by blast
qed

text \<open>
  C22: Squashing undoes predictions. Let a thread have predicted any list of branches younger than
  a sequence number, all its earlier ones being at most that old. The predictions return, and
  squashing back to the number returns and restores the history of the thread, the direction
  predictor with its global history, the target buffer, the stacks of the other threads and the
  top index of the thread's own return address stack. Of that stack two things can differ: the
  slots above the top that the calls among the branches overwrote, so that the address on top is the
  same unless there were as many calls as slots, and the count of used entries, which can be
  smaller than before, since undoing a return does not count its entry again.
\<close>

theorem speculation_undone:
  assumes "unit_ok u" "unat t < MaxThreads"
    and "\<forall>h\<in>set (predHist u ! unat t). seqNum h \<le> sn" "\<forall>x\<in>set xs. sn < inst_seqNum (fst x)"
  shows "\<exists>u1 u2. predict_all m t xs u = Inr u1 \<and> bp_squash sn t u1 = Inr u2 \<and> predHist u2 = predHist u \<and>
    restored t (length (filter (\<lambda>x. isCall (fst x)) xs)) u u2 \<and>
    (length (filter (\<lambda>x. isCall (fst x)) xs) < unat (numEntries (RAS u ! unat t)) \<longrightarrow>
      ras_top (RAS u2 ! unat t) = ras_top (RAS u ! unat t))"
proof -
  have ok: "tables_ok u" using assms(1) by (simp add: unit_ok_def)
  let ?n = "length (filter (\<lambda>x. isCall (fst x)) xs)"
  obtain u1 where u1: "predict_all m t xs u = Inr u1" "tables_ok u1"
      "\<forall>v. restored t 0 u1 v \<and> predHist v = predHist u1 \<longrightarrow>
        (\<exists>u2. bp_squash sn t v = Inr u2 \<and> predHist u2 = predHist u \<and> restored t ?n u u2)"
    using predict_squash [OF ok assms(2-4), of m] .
  obtain u2 where u2: "bp_squash sn t u1 = Inr u2" "predHist u2 = predHist u" "restored t ?n u u2"
    using u1(3) [rule_format, of u1] branch_spec.nothing_lost [of u1 t] u1(2) assms(2) by auto
  then obtain r where r: "RAS u2 = (RAS u)[unat t := r]" "ras_near ?n (RAS u ! unat t) r" by (auto simp: restored_def)
  then have "?n < unat (numEntries (RAS u ! unat t)) \<Longrightarrow> ras_top (RAS u2 ! unat t) = ras_top (RAS u ! unat t)"
    using ras_near_top thread_ras [OF ok assms(2)] by simp
  then show ?thesis using u1(1) u2 by blast
qed

theorem speculation_undone_witness:
  "\<exists>u u1 u2. BPredUnit_new 0 0 (bp_small ''tournament'') = Inr u \<and>
     predict_all small_isa 0 [(small_inst 5 True True False, 64), (small_inst 6 True False True, 128)] u = Inr u1 \<and>
     bp_squash 4 0 u1 = Inr u2 \<and> restored 0 1 u u2 \<and> ras_top (RAS u2 ! 0) = ras_top (RAS u ! 0)"
proof -
  obtain u where u: "BPredUnit_new 0 0 (bp_small ''tournament'') = Inr u" "unit_ok u" "predHist u = replicate MaxThreads []"
      "numEntries (RAS u ! 0) = 2"
    by (rule small_unit)
  show ?thesis
    using speculation_undone [of u 0 4 "[(small_inst 5 True True False, 64), (small_inst 6 True False True, 128)]" small_isa] u
    by (auto simp: small_inst_def MaxThreads_def)
qed

text \<open>
  C23: A unit built from a configuration with 1 to 16 return address slots and a global history
  that fits the global table carries out every sequence of predictions, commits, squashes and
  switches of the CPU, and stays well formed: no table is read out of bounds, every saturating
  counter stays within its limit, and the only assertion that can fail is the one of a misprediction
  whose sequence number is not the youngest in the history.
\<close>

theorem predictor_never_fails:
  assumes "BPredUnit_new junk jt p = Inr u" "bp_config_ok p" "\<forall>x\<in>set ops. unat (op_thread x) < MaxThreads"
  shows "(\<exists>u'. bp_run m ops u = Inr u' \<and> unit_ok u') \<or>
    bp_run m ops u = Inl (Assert ''pred_hist.front().seqNum == squashed_sn'')"
  using bp_run_keeps [OF BPredUnit_new_ok(1) [OF assms(1,2)] assms(3)] by blast

theorem predictor_never_fails_witness:
  "\<exists>u u'. BPredUnit_new 0 0 (bp_small ''local'') = Inr u \<and>
     bp_run small_isa [OpPredict (small_inst 5 True False True) 64 0, OpPredict (small_inst 6 True True False) 96 1,
       OpSquash 5 1, OpMispredict 5 128 True 0, OpUpdate 6 1, OpSwitchOut] u = Inr u' \<and> unit_ok u'"
proof -
  let ?ops = "[OpPredict (small_inst 5 True False True) 64 0, OpPredict (small_inst 6 True True False) 96 1,
       OpSquash 5 1, OpMispredict 5 128 True 0, OpUpdate 6 1, OpSwitchOut]"
  have "\<not> isl (bindR (BPredUnit_new 0 0 (bp_small ''local'')) (bp_run small_isa ?ops))" by code_simp
  then obtain u u' where "BPredUnit_new 0 0 (bp_small ''local'') = Inr u" "bp_run small_isa ?ops u = Inr u'"
    by (auto simp: bindR_def split: sum.splits elim!: sum.collapse)
  then show ?thesis
    using predictor_never_fails [OF _ small_config, of 0 0 "''local''" u ?ops small_isa] by (auto simp: MaxThreads_def)
qed

text \<open>
  C24: Repairing a misprediction. After a branch was predicted and any younger ones after it,
  reporting the branch as mispredicted returns. Its entry and the younger ones leave the history,
  the younger calls and returns are undone on the return address stack (up to overwritten slots above
  the top and a smaller count of used entries), and from then on the
  target buffer returns the reported target for the branch, also when the branch was not taken.
  The global history is the one right after the prediction of the branch, which
  contains the predicted direction, not the actual one.
\<close>

theorem misprediction_repair:
  assumes "unit_ok u" "unat t < MaxThreads" "predict m i pc t u = Inr (b, tgt, u1)"
    and "\<forall>h\<in>set (predHist u ! unat t). seqNum h \<le> inst_seqNum i"
    and "\<forall>x\<in>set xs. inst_seqNum i < inst_seqNum (fst x)"
  shows "\<exists>u2 u3. predict_all m t xs u1 = Inr u2 \<and> bp_mispredict (inst_seqNum i) ct taken t u2 = Inr u3 \<and>
    predHist u3 = predHist u \<and>
    DefaultBTB_valid pc t (BTB u3) = Inr True \<and> DefaultBTB_lookup pc t (BTB u3) = Inr ct \<and>
    ras_near (length (filter (\<lambda>x. isCall (fst x)) xs)) (RAS u1 ! unat t) (RAS u3 ! unat t) \<and>
    map_option globalHistory (tournamentBP u3) = map_option globalHistory (tournamentBP u1)"
proof -
  have ok: "tables_ok u" using assms(1) by (simp add: unit_ok_def)
  let ?sn = "inst_seqNum i" and ?n = "length (filter (\<lambda>x. isCall (fst x)) xs)"
  obtain h where h: "spec_effect t i pc h u u1" "predHist u1 = (predHist u)[unat t := h # predHist u ! unat t]"
    using predict_ok [OF ok assms(2), of m i pc] assms(3) by auto
  have ok1: "unit_ok u1" "tables_ok u1"
    using predict_keeps [OF assms(1,2), of m i pc] assms(3) by (auto simp: unit_ok_def)
  have hh: "seqNum h = ?sn" "PC h = pc" using h(1) by (simp_all add: spec_effect_def)
  have len: "unat t < length (predHist u)" by (rule thread_ras(6) [OF ok assms(2)])
  have old: "\<forall>h\<in>set (predHist u1 ! unat t). seqNum h \<le> ?sn" using assms(4) h(2) hh(1) len by auto
  obtain u2 where u2: "predict_all m t xs u1 = Inr u2" "tables_ok u2"
      "\<forall>v. restored t 0 u2 v \<and> predHist v = predHist u2 \<longrightarrow>
        (\<exists>w. bp_squash ?sn t v = Inr w \<and> predHist w = predHist u1 \<and> restored t ?n u1 w)"
    using predict_squash [OF ok1(2) assms(2) old assms(5), of m] .
  let ?v = "u2\<lparr>condIncorrect := condIncorrect u2 + 1\<rparr>"
  have "restored t 0 u2 ?v" using branch_spec.nothing_lost [of u2 t] u2(2) assms(2) by (simp add: restored_def)
  then obtain w where w: "bp_squash ?sn t ?v = Inr w" "predHist w = predHist u1" "restored t ?n u1 w" using u2(3) [rule_format, of ?v] by auto
  have "unit_ok u2" using predict_all_keeps [OF ok1(1) assms(2) u2(1)] .
  moreover have "predHist w ! unat t = h # predHist u ! unat t" using w(2) h(2) len by simp
  ultimately obtain u3 where u3: "bp_mispredict ?sn ct taken t u2 = Inr u3"
      "predHist u3 = (predHist w)[unat t := predHist u ! unat t]" "RAS u3 = RAS w"
      "DefaultBTB_valid pc t (BTB u3) = Inr True" "DefaultBTB_lookup pc t (BTB u3) = Inr ct"
      "map_option globalHistory (tournamentBP u3) = map_option globalHistory (tournamentBP w)"
    using mispredict_front [OF _ assms(2) w(1) _ hh(1), of "predHist u ! unat t" ct taken] hh(2) by metis
  have "ras_near ?n (RAS u1 ! unat t) (RAS u3 ! unat t)" "tournamentBP w = tournamentBP u1"
    using w(3) u3(3) thread_ras(4) [OF ok1(2) assms(2)] by (auto simp: restored_def)
  then show ?thesis using u2(1) u3 w(2) h(2) len by (auto simp: list_update_id)
qed

theorem misprediction_repair_witness:
  "\<exists>u b tgt u1 u2 u3. BPredUnit_new 0 0 (bp_small ''tournament'') = Inr u \<and>
     predict small_isa (small_inst 5 False False False) 64 0 u = Inr (b, tgt, u1) \<and>
     predict_all small_isa 0 [(small_inst 6 True False True, 128)] u1 = Inr u2 \<and>
     bp_mispredict 5 256 True 0 u2 = Inr u3 \<and> DefaultBTB_lookup 64 0 (BTB u3) = Inr 256 \<and>
     ras_near 1 (RAS u1 ! 0) (RAS u3 ! 0)"
proof -
  obtain u where u: "BPredUnit_new 0 0 (bp_small ''tournament'') = Inr u" "unit_ok u" "predHist u = replicate MaxThreads []"
    by (rule small_unit)
  obtain b tgt u1 where p: "predict small_isa (small_inst 5 False False False) 64 0 u = Inr (b, tgt, u1)"
    using predict_keeps [OF u(2), of 0 small_isa "small_inst 5 False False False" 64] by (auto simp: MaxThreads_def)
  show ?thesis
    using misprediction_repair [OF u(2) _ p, of "[(small_inst 6 True False True, 128)]" 256 True] u p
    by (auto simp: small_inst_def MaxThreads_def)
qed

text \<open>The defaults of \<^verbatim>\<open>src/src/cpu/o3/O3CPU.py\<close>.\<close>

definition o3_default :: bp_params where
  "o3_default = \<lparr>predType = ''tournament'', p_localPredictorSize = 2048, p_localCtrBits = 2, p_localHistoryTableSize = 2048,
     p_localHistoryBits = 11, p_globalPredictorSize = 8192, p_globalHistoryBits = 13, p_globalCtrBits = 2,
     p_choicePredictorSize = 8192, p_choiceCtrBits = 2, BTBEntries = 4096, BTBTagSize = 16, RASSize = 16,
     p_instShiftAmt = 2\<rparr>"

lemma BPredUnit_new_tournament:
  assumes "predType p = ''tournament''" "isPowerOf2 (BTBEntries p)" "isPowerOf2 (p_localPredictorSize p)"
    "isPowerOf2 (p_localHistoryTableSize p)" "isPowerOf2 (p_globalPredictorSize p)"
  shows "\<exists>u. BPredUnit_new junk jt p = Inr u"
proof -
  have "\<exists>k. floorLog2 (BTBEntries p) = Inr k" using assms(2) by (auto simp: isPowerOf2_iff floorLog2_exp)
  then show ?thesis
    using assms by (auto simp: BPredUnit_new_def DefaultBTB_new_def TournamentBP_new_def floorPow2_self)
qed

lemma o3_default_unit: "\<exists>u. BPredUnit_new 0 0 o3_default = Inr u"
  by (rule BPredUnit_new_tournament) (simp_all add: o3_default_def isPowerOf2_def leastSigBit_def)

text \<open>
  C39: The constructor of the tournament predictor takes the width of the global history and the
  width of its counters in the opposite order of the call. So in a unit in use the global history
  has as many bits as the configuration gives to a counter, however large the global table: with
  the default configuration only 4 of the 8192 global counters are ever used.
\<close>

theorem global_history_width:
  assumes "BPredUnit_new junk jt p = Inr u" "bp_config_ok p" "predType p = ''tournament''"
    and "\<forall>x\<in>set ops. unat (op_thread x) < MaxThreads" "bp_run m ops u = Inr u'"
  shows "\<exists>t t'. tournamentBP u = Some t \<and> tournamentBP u' = Some t' \<and>
    length (globalCtrs t) = unat (p_globalPredictorSize p) \<and> unat (globalHistory t') < 2 ^ unat (p_globalCtrBits p)"
proof -
  note n = BPredUnit_new_ok [OF assms(1,2)]
  obtain t where t: "tournamentBP u = Some t" "length (globalCtrs t) = unat (p_globalPredictorSize p)" using n(4) assms(3) by auto
  have u': "unit_ok u'" "shape u' = shape u" using bp_run_keeps [OF n(1) assms(4), of m] assms(5) by auto
  then have "predictor u' = Tournament" "map_option globalHistoryMask (tournamentBP u') = Some (push_bit (unat (p_globalCtrBits p)) 1 - 1)"
    using n(3) [OF assms(3)] by (auto simp: shape_def)
  then obtain t' where t': "tournamentBP u' = Some t'" "globalHistory t' \<le> push_bit (unat (p_globalCtrBits p)) 1 - 1"
    using u'(1) by (auto simp: unit_ok_def tables_ok_def tournament_ok_def)
  have "2 ^ unat (p_globalCtrBits p) \<le> unat (p_globalPredictorSize p)" using assms(2,3) by (simp add: bp_config_ok_def)
  then have "unat (globalHistory t') \<le> 2 ^ unat (p_globalCtrBits p) - 1"
    using t'(2) exp_pred_less(2) by (metis word_le_nat_alt)
  then have "unat (globalHistory t') < 2 ^ unat (p_globalCtrBits p)"
    using zero_less_power [of "2 :: nat" "unat (p_globalCtrBits p)"] by linarith
  then show ?thesis using t t'(1) by blast
qed

theorem global_history_width_witness:
  "\<exists>u u' t t'. BPredUnit_new 0 0 o3_default = Inr u \<and> bp_run small_isa [OpSwitchOut] u = Inr u' \<and>
     tournamentBP u = Some t \<and> tournamentBP u' = Some t' \<and> length (globalCtrs t) = 8192 \<and> unat (globalHistory t') < 4"
proof -
  obtain u where u: "BPredUnit_new 0 0 o3_default = Inr u" using o3_default_unit by blast
  have c: "bp_config_ok o3_default" "predType o3_default = ''tournament''" by (simp_all add: bp_config_ok_def o3_default_def)
  obtain u' where u': "bp_run small_isa [OpSwitchOut] u = Inr u'"
    using switchOut_loop_keeps [OF BPredUnit_new_ok(1) [OF u c(1)], of 0 MaxThreads] by (auto simp: switchOut_def)
  show ?thesis
    using global_history_width [OF u c _ u'] u u' by (auto simp: MaxThreads_def o3_default_def)
qed

end
