(* ===== verification/Register_Renaming.thy ===== *)
theory Register_Renaming
  imports Spec_Undo "HOL-Library.Multiset"
begin

section \<open>Register renaming\<close>

text \<open>
  Model of the register renaming of the out-of-order CPU: the free list
  (\<^verbatim>\<open>src/src/cpu/o3/free_list.hh\<close>, \<^verbatim>\<open>free_list.cc\<close>), the rename map (\<^verbatim>\<open>rename_map.hh\<close>,
  \<^verbatim>\<open>rename_map.cc\<close>), the scoreboard (\<^verbatim>\<open>scoreboard.hh\<close>, \<^verbatim>\<open>scoreboard.cc\<close>) and, of the rename stage
  (\<^verbatim>\<open>rename.hh\<close>, \<^verbatim>\<open>rename_impl.hh\<close>), the renaming of operands and the history buffer that undoes
  and commits it. The pipeline control of the stage (stalls, skid buffers, time buffers) is not
  modelled. Register numbers are mathematical integers: the code keeps them in short integers,
  and the model is the code for configurations whose numbers stay below \<open>2 ^ 15\<close>. The constants of the instruction set are the
  record \<open>isa_regs\<close>, and the flattening of register windows is a function argument.

  The lemmas show that squashing is the inverse of renaming, by the contract of
  \<^verbatim>\<open>Spec_Undo\<close>, and that every physical register is at any time in exactly one place: on a free
  list, in a rename map, or held by an entry of a history buffer until it commits.
\<close>

subsection \<open>The free list\<close>

record isa_regs =
  ZeroReg :: int
  is_alpha :: bool
  FP_Base_DepTag :: int
  Ctrl_Base_DepTag :: int
  NumIntRegs :: int
  NumFloatRegs :: int
  NumMiscRegs :: int

record SimpleFreeList =
  freeIntRegs :: "int list"
  freeFloatRegs :: "int list"
  fl_numLogicalIntRegs :: int
  fl_numPhysicalIntRegs :: int
  fl_numLogicalFloatRegs :: int
  fl_numPhysicalFloatRegs :: int
  fl_numPhysicalRegs :: int

definition SimpleFreeList_new :: "int \<Rightarrow> int \<Rightarrow> int \<Rightarrow> int \<Rightarrow> int \<Rightarrow> SimpleFreeList" where
  "SimpleFreeList_new threads nli npi nlf npf =
     \<lparr>freeIntRegs = [nli * threads .. npi - 1], freeFloatRegs = [npi + nlf * threads .. npi + npf - 1],
      fl_numLogicalIntRegs = nli, fl_numPhysicalIntRegs = npi, fl_numLogicalFloatRegs = nlf,
      fl_numPhysicalFloatRegs = npf, fl_numPhysicalRegs = npi + npf\<rparr>"

definition getIntReg :: "SimpleFreeList \<Rightarrow> (int \<times> SimpleFreeList) res" where
  "getIntReg fl = (case freeIntRegs fl of
       [] \<Rightarrow> Inl (Panic ''No free integer registers!'')
     | r # rs \<Rightarrow> Inr (r, fl\<lparr>freeIntRegs := rs\<rparr>))"

definition getFloatReg :: "SimpleFreeList \<Rightarrow> (int \<times> SimpleFreeList) res" where
  "getFloatReg fl = (case freeFloatRegs fl of
       [] \<Rightarrow> Inl (Panic ''No free integer registers!'')
     | r # rs \<Rightarrow> Inr (r, fl\<lparr>freeFloatRegs := rs\<rparr>))"

definition addReg :: "isa_regs \<Rightarrow> int \<Rightarrow> SimpleFreeList \<Rightarrow> SimpleFreeList" where
  "addReg A freed_reg fl =
     (if freed_reg < fl_numPhysicalIntRegs fl then
        (if freed_reg \<noteq> ZeroReg A then fl\<lparr>freeIntRegs := freeIntRegs fl @ [freed_reg]\<rparr> else fl)
      else if freed_reg < fl_numPhysicalRegs fl then
        (if is_alpha A \<and> freed_reg = ZeroReg A + fl_numPhysicalIntRegs fl then fl
         else fl\<lparr>freeFloatRegs := freeFloatRegs fl @ [freed_reg]\<rparr>)
      else fl)"

definition addIntReg :: "int \<Rightarrow> SimpleFreeList \<Rightarrow> SimpleFreeList" where
  "addIntReg freed_reg fl = fl\<lparr>freeIntRegs := freeIntRegs fl @ [freed_reg]\<rparr>"

definition addFloatReg :: "int \<Rightarrow> SimpleFreeList \<Rightarrow> SimpleFreeList" where
  "addFloatReg freed_reg fl = fl\<lparr>freeFloatRegs := freeFloatRegs fl @ [freed_reg]\<rparr>"

definition hasFreeIntRegs :: "SimpleFreeList \<Rightarrow> bool" where
  "hasFreeIntRegs fl \<longleftrightarrow> freeIntRegs fl \<noteq> []"

definition hasFreeFloatRegs :: "SimpleFreeList \<Rightarrow> bool" where
  "hasFreeFloatRegs fl \<longleftrightarrow> freeFloatRegs fl \<noteq> []"

definition numFreeIntRegs :: "SimpleFreeList \<Rightarrow> int" where
  "numFreeIntRegs fl = int (length (freeIntRegs fl))"

definition numFreeFloatRegs :: "SimpleFreeList \<Rightarrow> int" where
  "numFreeFloatRegs fl = int (length (freeFloatRegs fl))"

subsection \<open>The rename map\<close>

record RenameEntry =
  physical_reg :: int
  entry_valid :: bool

record SimpleRenameMap =
  map_id :: int
  numLogicalIntRegs :: int
  numPhysicalIntRegs :: int
  numLogicalFloatRegs :: int
  numPhysicalFloatRegs :: int
  numMiscRegs :: int
  numLogicalRegs :: int
  numPhysicalRegs :: int
  intZeroReg :: int
  floatZeroReg :: int
  intRenameMap :: "RenameEntry list"
  floatRenameMap :: "RenameEntry list"

definition RenameEntry_new :: RenameEntry where
  "RenameEntry_new = \<lparr>physical_reg = 0, entry_valid = False\<rparr>"

text \<open>The loops of \<^verbatim>\<open>init\<close>, which give consecutive registers to the entries of a map.\<close>

definition bind_entries :: "int \<Rightarrow> int \<Rightarrow> RenameEntry list" where
  "bind_entries first n = map (\<lambda>k. RenameEntry_new\<lparr>physical_reg := first + int k\<rparr>) [0..<nat n]"

definition rm_init ::
  "int \<Rightarrow> int \<Rightarrow> int \<Rightarrow> int \<Rightarrow> int \<Rightarrow> int \<Rightarrow> int \<Rightarrow> int \<Rightarrow> int \<Rightarrow> int \<Rightarrow> bool \<Rightarrow> SimpleRenameMap \<times> int \<times> int" where
  "rm_init nli npi ireg_idx nlf npf freg_idx misc izero fzero i bindRegs =
     (\<lparr>map_id = i, numLogicalIntRegs = nli, numPhysicalIntRegs = npi, numLogicalFloatRegs = nlf,
       numPhysicalFloatRegs = npf, numMiscRegs = misc, numLogicalRegs = nli + nlf, numPhysicalRegs = npi + npf,
       intZeroReg = izero, floatZeroReg = fzero,
       intRenameMap = bind_entries ireg_idx nli,
       floatRenameMap = replicate (nat nli) RenameEntry_new @ bind_entries freg_idx nlf\<rparr>,
      if bindRegs then ireg_idx + nli else ireg_idx,
      if bindRegs then freg_idx + nlf else freg_idx)"

definition entry_at :: "RenameEntry list \<Rightarrow> int \<Rightarrow> int res" where
  "entry_at es i = (if 0 \<le> i \<and> nat i < length es then Inr (physical_reg (es ! nat i)) else Inl BadPtr)"

definition set_entry :: "RenameEntry list \<Rightarrow> int \<Rightarrow> int \<Rightarrow> RenameEntry list res" where
  "set_entry es i r = (if 0 \<le> i \<and> nat i < length es
     then Inr (es[nat i := (es ! nat i)\<lparr>physical_reg := r\<rparr>]) else Inl BadPtr)"

definition rm_rename ::
  "isa_regs \<Rightarrow> int \<Rightarrow> SimpleRenameMap \<Rightarrow> SimpleFreeList \<Rightarrow> ((int \<times> int) \<times> SimpleRenameMap \<times> SimpleFreeList) res" where
  "rm_rename A arch_reg m fl =
     (if arch_reg < numLogicalIntRegs m then
        bindR (entry_at (intRenameMap m) arch_reg) (\<lambda>prev_reg.
        if arch_reg \<noteq> intZeroReg m then
          bindR (getIntReg fl) (\<lambda>(renamed_reg, fl1).
          bindR (set_entry (intRenameMap m) arch_reg renamed_reg) (\<lambda>es.
          bindR (assertR (renamed_reg \<ge> 0 \<and> renamed_reg < numPhysicalIntRegs m) ''renamed_reg >= 0'') (\<lambda>_.
          Inr ((renamed_reg, prev_reg), m\<lparr>intRenameMap := es\<rparr>, fl1))))
        else Inr ((intZeroReg m, prev_reg), m, fl))
      else if arch_reg < numLogicalRegs m then
        bindR (entry_at (floatRenameMap m) arch_reg) (\<lambda>prev_reg.
        if is_alpha A \<and> arch_reg = floatZeroReg m then Inr ((floatZeroReg m, prev_reg), m, fl)
        else
          bindR (getFloatReg fl) (\<lambda>(renamed_reg, fl1).
          bindR (set_entry (floatRenameMap m) arch_reg renamed_reg) (\<lambda>es.
          bindR (assertR (renamed_reg < numPhysicalRegs m \<and> renamed_reg \<ge> numPhysicalIntRegs m)
                   ''renamed_reg < numPhysicalRegs'') (\<lambda>_.
          Inr ((renamed_reg, prev_reg), m\<lparr>floatRenameMap := es\<rparr>, fl1)))))
      else
        let renamed_reg = (arch_reg - numLogicalRegs m) + numPhysicalRegs m
        in Inr ((renamed_reg, renamed_reg), m, fl))"

definition rm_lookup :: "int \<Rightarrow> SimpleRenameMap \<Rightarrow> int res" where
  "rm_lookup arch_reg m =
     (if arch_reg < numLogicalIntRegs m then entry_at (intRenameMap m) arch_reg
      else if arch_reg < numLogicalRegs m then entry_at (floatRenameMap m) arch_reg
      else Inr (numPhysicalRegs m + (arch_reg - numLogicalRegs m)))"

definition rm_setEntry :: "int \<Rightarrow> int \<Rightarrow> SimpleRenameMap \<Rightarrow> SimpleRenameMap res" where
  "rm_setEntry arch_reg renamed_reg m =
     (if arch_reg < numLogicalIntRegs m then
        bindR (set_entry (intRenameMap m) arch_reg renamed_reg) (\<lambda>es. Inr (m\<lparr>intRenameMap := es\<rparr>))
      else if arch_reg < numLogicalIntRegs m + numLogicalFloatRegs m then
        bindR (set_entry (floatRenameMap m) arch_reg renamed_reg) (\<lambda>es. Inr (m\<lparr>floatRenameMap := es\<rparr>))
      else Inr m)"

definition rm_numFreeEntries :: "SimpleFreeList \<Rightarrow> int" where
  "rm_numFreeEntries fl =
     (if numFreeIntRegs fl < numFreeFloatRegs fl then numFreeIntRegs fl else numFreeFloatRegs fl)"

subsection \<open>The scoreboard\<close>

record Scoreboard =
  regScoreBoard :: "bool list"
  sb_numLogicalIntRegs :: int
  sb_numPhysicalIntRegs :: int
  sb_numLogicalFloatRegs :: int
  sb_numPhysicalFloatRegs :: int
  sb_numMiscRegs :: int
  sb_numLogicalRegs :: int
  sb_numPhysicalRegs :: int
  zeroRegIdx :: int

definition Scoreboard_new :: "int \<Rightarrow> int \<Rightarrow> int \<Rightarrow> int \<Rightarrow> int \<Rightarrow> int \<Rightarrow> int \<Rightarrow> Scoreboard" where
  "Scoreboard_new threads nli npi nlf npf misc zero =
     \<lparr>regScoreBoard = map (\<lambda>k. let i = int k in
        i < nli * threads \<or> npi \<le> i \<and> i < npi + nlf * threads \<or>
        npi + npf \<le> i \<and> i < npi + npf + misc * threads) [0..<nat (npi + npf + misc * threads)],
      sb_numLogicalIntRegs = nli, sb_numPhysicalIntRegs = npi, sb_numLogicalFloatRegs = nlf,
      sb_numPhysicalFloatRegs = npf, sb_numMiscRegs = misc, sb_numLogicalRegs = nli + nlf,
      sb_numPhysicalRegs = npi + npf, zeroRegIdx = zero\<rparr>"

text \<open>The test for a zero register, whose form depends on the instruction set.\<close>

definition sb_zero :: "isa_regs \<Rightarrow> int \<Rightarrow> Scoreboard \<Rightarrow> bool" where
  "sb_zero A r sb \<longleftrightarrow> r = zeroRegIdx sb \<or> is_alpha A \<and> r = zeroRegIdx sb + sb_numPhysicalIntRegs sb"

definition getReg :: "isa_regs \<Rightarrow> int \<Rightarrow> Scoreboard \<Rightarrow> bool res" where
  "getReg A phys_reg sb =
     (if sb_zero A phys_reg sb then Inr True
      else if 0 \<le> phys_reg \<and> nat phys_reg < length (regScoreBoard sb) then Inr (regScoreBoard sb ! nat phys_reg)
      else Inl BadPtr)"

definition sb_put :: "int \<Rightarrow> bool \<Rightarrow> Scoreboard \<Rightarrow> Scoreboard res" where
  "sb_put phys_reg b sb =
     (if 0 \<le> phys_reg \<and> nat phys_reg < length (regScoreBoard sb)
      then Inr (sb\<lparr>regScoreBoard := (regScoreBoard sb)[nat phys_reg := b]\<rparr>) else Inl BadPtr)"

definition setReg :: "int \<Rightarrow> Scoreboard \<Rightarrow> Scoreboard res" where
  "setReg phys_reg sb = sb_put phys_reg True sb"

definition unsetReg :: "isa_regs \<Rightarrow> int \<Rightarrow> Scoreboard \<Rightarrow> Scoreboard res" where
  "unsetReg A ready_reg sb = (if sb_zero A ready_reg sb then Inr sb else sb_put ready_reg False sb)"

subsection \<open>The history buffer of the rename stage\<close>

record RenameHistory =
  instSeqNum :: "64 word"
  archReg :: int
  newPhysReg :: int
  prevPhysReg :: int

record DefaultRename =
  renameMap :: "SimpleRenameMap list"
  freeList :: SimpleFreeList
  scoreboard :: Scoreboard
  historyBuffer :: "RenameHistory list list"
  maxPhysicalRegs :: int
  renameUndoneMaps :: nat
  renameCommittedMaps :: nat
  renameRenamedOperands :: nat
  renameRenameLookups :: nat

definition flat_src :: "isa_regs \<Rightarrow> (int \<Rightarrow> int) \<Rightarrow> (int \<Rightarrow> int) \<Rightarrow> int \<Rightarrow> int" where
  "flat_src A flattenInt flattenFloat src_reg =
     (if src_reg < FP_Base_DepTag A then flattenInt src_reg
      else if src_reg < Ctrl_Base_DepTag A then flattenFloat (src_reg - FP_Base_DepTag A) + NumIntRegs A
      else src_reg - FP_Base_DepTag A + NumIntRegs A)"

fun renameSrcRegs ::
  "isa_regs \<Rightarrow> (int \<Rightarrow> int) \<Rightarrow> (int \<Rightarrow> int) \<Rightarrow> int16 \<Rightarrow> int list \<Rightarrow> DefaultRename \<Rightarrow>
   ((int \<times> int \<times> bool) list \<times> DefaultRename) res" where
  "renameSrcRegs A fi ff t [] s = Inr ([], s)"
| "renameSrcRegs A fi ff t (src_reg # srcs) s =
     (let flat_src_reg = flat_src A fi ff src_reg in
      bindR (arr_at (renameMap s) t) (\<lambda>m.
      bindR (rm_lookup flat_src_reg m) (\<lambda>renamed_reg.
      bindR (getReg A renamed_reg (scoreboard s)) (\<lambda>ready.
      bindR (renameSrcRegs A fi ff t srcs (s\<lparr>renameRenameLookups := renameRenameLookups s + 1\<rparr>)) (\<lambda>(rs, s1).
      Inr ((flat_src_reg, renamed_reg, ready) # rs, s1))))))"

definition flat_dest :: "isa_regs \<Rightarrow> (int \<Rightarrow> int) \<Rightarrow> int \<Rightarrow> int" where
  "flat_dest A flattenInt dest_reg =
     (if dest_reg < FP_Base_DepTag A then flattenInt dest_reg else dest_reg - FP_Base_DepTag A + NumIntRegs A)"

text \<open>The body of the loop of \<^verbatim>\<open>renameDestRegs\<close>, for a sequence number and a flattened register.\<close>

definition rename_dest ::
  "isa_regs \<Rightarrow> int16 \<Rightarrow> 64 word \<times> int \<Rightarrow> DefaultRename \<Rightarrow> (RenameHistory \<times> DefaultRename) res" where
  "rename_dest A t x s =
     bindR (arr_at (renameMap s) t) (\<lambda>m.
     bindR (rm_rename A (snd x) m (freeList s)) (\<lambda>(info, m1, fl).
     bindR (unsetReg A (fst info) (scoreboard s)) (\<lambda>sb.
     let h = \<lparr>instSeqNum = fst x, archReg = snd x, newPhysReg = fst info, prevPhysReg = snd info\<rparr> in
     bindR (arr_upd (historyBuffer s) t (\<lambda>hs. h # hs)) (\<lambda>hb.
     Inr (h, s\<lparr>renameMap := (renameMap s)[unat t := m1], freeList := fl, scoreboard := sb, historyBuffer := hb,
               renameRenamedOperands := renameRenamedOperands s + 1\<rparr>)))))"

fun renameDestRegs ::
  "isa_regs \<Rightarrow> (int \<Rightarrow> int) \<Rightarrow> int16 \<Rightarrow> 64 word \<Rightarrow> int list \<Rightarrow> DefaultRename \<Rightarrow>
   ((int \<times> int \<times> int) list \<times> DefaultRename) res" where
  "renameDestRegs A fi t sn [] s = Inr ([], s)"
| "renameDestRegs A fi t sn (dest_reg # dests) s =
     bindR (rename_dest A t (sn, flat_dest A fi dest_reg) s) (\<lambda>(h, s1).
     bindR (renameDestRegs A fi t sn dests s1) (\<lambda>(rs, s2).
     Inr ((archReg h, newPhysReg h, prevPhysReg h) # rs, s2)))"

text \<open>The body of the loop of \<^verbatim>\<open>doSquash\<close>.\<close>

definition undo_rename :: "isa_regs \<Rightarrow> int16 \<Rightarrow> RenameHistory \<Rightarrow> DefaultRename \<Rightarrow> DefaultRename res" where
  "undo_rename A t h s =
     bindR (arr_at (renameMap s) t) (\<lambda>m.
     bindR (rm_setEntry (archReg h) (prevPhysReg h) m) (\<lambda>m1.
     let fl = addReg A (newPhysReg h) (freeList s) in
     bindR (if newPhysReg h \<ge> maxPhysicalRegs s then setReg (newPhysReg h) (scoreboard s) else Inr (scoreboard s)) (\<lambda>sb.
     Inr (s\<lparr>renameMap := (renameMap s)[unat t := m1], freeList := fl, scoreboard := sb,
            renameUndoneMaps := renameUndoneMaps s + 1\<rparr>))))"

fun doSquash_loop ::
  "isa_regs \<Rightarrow> 64 word \<Rightarrow> int16 \<Rightarrow> RenameHistory list \<Rightarrow> DefaultRename \<Rightarrow> (RenameHistory list \<times> DefaultRename) res" where
  "doSquash_loop A sn t [] s = Inr ([], s)"
| "doSquash_loop A sn t (h # hs) s =
     (if instSeqNum h > sn then bindR (undo_rename A t h s) (doSquash_loop A sn t hs) else Inr (h # hs, s))"

definition doSquash :: "isa_regs \<Rightarrow> 64 word \<Rightarrow> int16 \<Rightarrow> DefaultRename \<Rightarrow> DefaultRename res" where
  "doSquash A squashed_seq_num t s =
     bindR (arr_at (historyBuffer s) t) (\<lambda>hs.
     if hs = [] then Inr s
     else bindR (doSquash_loop A squashed_seq_num t hs s) (\<lambda>(rest, s1).
       Inr (s1\<lparr>historyBuffer := (historyBuffer s1)[unat t := rest]\<rparr>)))"

fun commit_loop :: "isa_regs \<Rightarrow> 64 word \<Rightarrow> RenameHistory list \<Rightarrow> DefaultRename \<Rightarrow> RenameHistory list \<times> DefaultRename" where
  "commit_loop A sn [] s = ([], s)"
| "commit_loop A sn (h # hs) s =
     (if instSeqNum h \<le> sn
      then commit_loop A sn hs (s\<lparr>freeList := addReg A (prevPhysReg h) (freeList s),
                                  renameCommittedMaps := renameCommittedMaps s + 1\<rparr>)
      else (h # hs, s))"

definition removeFromHistory :: "isa_regs \<Rightarrow> 64 word \<Rightarrow> int16 \<Rightarrow> DefaultRename \<Rightarrow> DefaultRename res" where
  "removeFromHistory A inst_seq_num t s =
     bindR (arr_at (historyBuffer s) t) (\<lambda>hs.
     if hs = [] then Inr s
     else if instSeqNum (last hs) > inst_seq_num then Inr s
     else case commit_loop A inst_seq_num (rev hs) s of (rest, s1) \<Rightarrow>
       Inr (s1\<lparr>historyBuffer := (historyBuffer s1)[unat t := rev rest]\<rparr>))"

text \<open>
  The part of the constructor of the CPU that sets up renaming. The map of a thread is bound to
  registers of its own only when the thread has a workload; the others all start at the same
  registers.
\<close>

fun init_maps :: "isa_regs \<Rightarrow> int \<Rightarrow> int \<Rightarrow> nat \<Rightarrow> nat \<Rightarrow> nat \<Rightarrow> int \<Rightarrow> int \<Rightarrow> SimpleRenameMap list" where
  "init_maps A npi npf active_threads 0 tid lreg_idx freg_idx = []"
| "init_maps A npi npf active_threads (Suc n) tid lreg_idx freg_idx =
     (let bindRegs = (int tid \<le> int active_threads - 1) in
      case rm_init (NumIntRegs A) npi lreg_idx (NumFloatRegs A) npf freg_idx (NumMiscRegs A) (ZeroReg A) (ZeroReg A) (int tid) bindRegs
      of (m, l, f) \<Rightarrow> m # init_maps A npi npf active_threads n (Suc tid) l f)"

definition rename_new :: "isa_regs \<Rightarrow> int \<Rightarrow> int \<Rightarrow> nat \<Rightarrow> nat \<Rightarrow> DefaultRename res" where
  "rename_new A npi npf threads active_threads =
     bindR (assertR (npi \<ge> int threads * NumIntRegs A) ''numPhysIntRegs >= numThreads * TheISA::NumIntRegs'') (\<lambda>_.
     bindR (assertR (npf \<ge> int threads * NumFloatRegs A) ''numPhysFloatRegs >= numThreads * TheISA::NumFloatRegs'') (\<lambda>_.
     Inr \<lparr>renameMap = init_maps A npi npf active_threads threads 0 0 npi,
          freeList = SimpleFreeList_new (int threads) (NumIntRegs A) npi (NumFloatRegs A) npf,
          scoreboard = Scoreboard_new (int threads) (NumIntRegs A) npi (NumFloatRegs A) npf
                         (NumMiscRegs A * int threads) (ZeroReg A),
          historyBuffer = replicate threads [], maxPhysicalRegs = npi + npf,
          renameUndoneMaps = 0, renameCommittedMaps = 0, renameRenamedOperands = 0, renameRenameLookups = 0\<rparr>))"

subsection \<open>Squashing undoes renaming\<close>

definition phys :: "SimpleRenameMap \<Rightarrow> int \<Rightarrow> int" where
  "phys m a = physical_reg (if a < numLogicalIntRegs m then intRenameMap m ! nat a else floatRenameMap m ! nat a)"

definition map_ok :: "isa_regs \<Rightarrow> int \<Rightarrow> int \<Rightarrow> SimpleRenameMap \<Rightarrow> bool" where
  "map_ok A npi npf m \<longleftrightarrow> numLogicalIntRegs m = NumIntRegs A \<and> numLogicalFloatRegs m = NumFloatRegs A \<and>
     numLogicalRegs m = NumIntRegs A + NumFloatRegs A \<and> numPhysicalIntRegs m = npi \<and> numPhysicalRegs m = npi + npf \<and>
     intZeroReg m = ZeroReg A \<and> floatZeroReg m = ZeroReg A \<and>
     int (length (intRenameMap m)) = NumIntRegs A \<and> int (length (floatRenameMap m)) = NumIntRegs A + NumFloatRegs A"

definition usable :: "isa_regs \<Rightarrow> int \<Rightarrow> int \<Rightarrow> bool" where
  "usable A npi r \<longleftrightarrow> r \<noteq> ZeroReg A \<and> \<not> (is_alpha A \<and> r = ZeroReg A + npi)"

definition free_ok :: "isa_regs \<Rightarrow> int \<Rightarrow> int \<Rightarrow> SimpleFreeList \<Rightarrow> bool" where
  "free_ok A npi npf fl \<longleftrightarrow> fl_numPhysicalIntRegs fl = npi \<and> fl_numPhysicalRegs fl = npi + npf \<and>
     (\<forall>r\<in>set (freeIntRegs fl). 0 \<le> r \<and> r < npi \<and> usable A npi r) \<and>
     (\<forall>r\<in>set (freeFloatRegs fl). npi \<le> r \<and> r < npi + npf \<and> usable A npi r)"

definition regs_ok :: "isa_regs \<Rightarrow> bool" where
  "regs_ok A \<longleftrightarrow> 0 \<le> ZeroReg A \<and> ZeroReg A < NumIntRegs A \<and> 0 \<le> NumFloatRegs A \<and>
     (is_alpha A \<longrightarrow> ZeroReg A < NumFloatRegs A)"

definition set_phys :: "SimpleRenameMap \<Rightarrow> int \<Rightarrow> int \<Rightarrow> SimpleRenameMap" where
  "set_phys m a r = (if a < numLogicalIntRegs m
     then m\<lparr>intRenameMap := (intRenameMap m)[nat a := (intRenameMap m ! nat a)\<lparr>physical_reg := r\<rparr>]\<rparr>
     else m\<lparr>floatRenameMap := (floatRenameMap m)[nat a := (floatRenameMap m ! nat a)\<lparr>physical_reg := r\<rparr>]\<rparr>)"

lemma set_phys_ok [simp]: "map_ok A npi npf (set_phys m a r) = map_ok A npi npf m"
  by (simp add: map_ok_def set_phys_def)

lemma in_map:
  assumes "map_ok A npi npf m" "0 \<le> a" "a < NumIntRegs A + NumFloatRegs A"
  shows "a < NumIntRegs A \<Longrightarrow> nat a < length (intRenameMap m)" "nat a < length (floatRenameMap m)"
  using assms by (auto simp: map_ok_def)

lemma phys_set_phys:
  assumes "map_ok A npi npf m" "0 \<le> a" "a < NumIntRegs A + NumFloatRegs A" "0 \<le> b"
  shows "phys (set_phys m a r) b = (if b = a then r else phys m b)"
  using in_map [OF assms(1-3)] assms by (auto simp: phys_def set_phys_def map_ok_def)

lemma set_phys_back:
  assumes "map_ok A npi npf m"
  shows "set_phys (set_phys m a r) a (phys m a) = m"
  by (cases "nat a < length (intRenameMap m)"; cases "nat a < length (floatRenameMap m)")
    (auto simp: set_phys_def phys_def list_update_beyond)

lemma rm_setEntry_eq:
  assumes "map_ok A npi npf m" "0 \<le> a" "a < NumIntRegs A + NumFloatRegs A"
  shows "rm_setEntry a r m = Inr (set_phys m a r)"
  using in_map [OF assms] assms by (auto simp: rm_setEntry_def set_phys_def set_entry_def map_ok_def)

lemma rm_lookup_eq:
  assumes "map_ok A npi npf m" "0 \<le> a" "a < NumIntRegs A + NumFloatRegs A"
  shows "rm_lookup a m = Inr (phys m a)"
  using in_map [OF assms] assms by (auto simp: rm_lookup_def phys_def entry_at_def map_ok_def)

lemma rm_rename_cases:
  assumes "rm_rename A a m fl = Inr ((new, prev), m1, fl1)" "map_ok A npi npf m" "regs_ok A"
  obtains (int) rs where "0 \<le> a" "a < NumIntRegs A" "a \<noteq> ZeroReg A" "freeIntRegs fl = new # rs" "prev = phys m a"
      "m1 = set_phys m a new" "fl1 = fl\<lparr>freeIntRegs := rs\<rparr>" "0 \<le> new" "new < npi"
  | (float) rs where "NumIntRegs A \<le> a" "a < NumIntRegs A + NumFloatRegs A" "freeFloatRegs fl = new # rs" "prev = phys m a"
      "m1 = set_phys m a new" "fl1 = fl\<lparr>freeFloatRegs := rs\<rparr>" "npi \<le> new" "new < npi + npf"
  | (zero) "a = ZeroReg A" "new = ZeroReg A" "prev = phys m a" "m1 = m" "fl1 = fl"
  | (misc) "NumIntRegs A + NumFloatRegs A \<le> a" "new = a - (NumIntRegs A + NumFloatRegs A) + (npi + npf)" "prev = new" "m1 = m" "fl1 = fl"
proof -
  consider "a < NumIntRegs A" | "NumIntRegs A \<le> a" "a < NumIntRegs A + NumFloatRegs A" | "NumIntRegs A + NumFloatRegs A \<le> a"
    by linarith
  then show thesis
  proof cases
    case 1
    have m: "numLogicalIntRegs m = NumIntRegs A" "intZeroReg m = ZeroReg A" "numPhysicalIntRegs m = npi"
      using assms(2) by (simp_all add: map_ok_def)
    show thesis
    proof (cases "a = ZeroReg A")
      case True
      then show thesis using assms(1) 1 m
        by (intro zero) (auto simp: rm_rename_def entry_at_def phys_def split: if_splits)
    next
      case False
      then obtain rs where "0 \<le> a" "freeIntRegs fl = new # rs" "prev = phys m a" "m1 = set_phys m a new"
          "fl1 = fl\<lparr>freeIntRegs := rs\<rparr>" "0 \<le> new" "new < npi"
        using assms(1) 1 m
        by (auto simp: rm_rename_def getIntReg_def set_phys_def phys_def entry_at_def set_entry_def split: list.splits if_splits)
      then show thesis using 1 False by (intro int) auto
    qed
  next
    case 2
    have m: "numLogicalIntRegs m = NumIntRegs A" "numLogicalRegs m = NumIntRegs A + NumFloatRegs A"
        "floatZeroReg m = ZeroReg A" "numPhysicalIntRegs m = npi" "numPhysicalRegs m = npi + npf" "a \<noteq> ZeroReg A"
      using assms(2,3) 2 by (auto simp: map_ok_def regs_ok_def)
    obtain rs where "freeFloatRegs fl = new # rs" "prev = phys m a" "m1 = set_phys m a new"
        "fl1 = fl\<lparr>freeFloatRegs := rs\<rparr>" "npi \<le> new" "new < npi + npf"
      using assms(1) 2 m
      by (auto simp: rm_rename_def getFloatReg_def set_phys_def phys_def entry_at_def set_entry_def split: list.splits if_splits)
    then show thesis using 2 by (intro float) auto
  next
    case 3
    then show thesis using assms by (intro misc) (auto simp: rm_rename_def map_ok_def regs_ok_def Let_def)
  qed
qed

definition ren_ok :: "isa_regs \<Rightarrow> int \<Rightarrow> int \<Rightarrow> DefaultRename \<Rightarrow> bool" where
  "ren_ok A npi npf s \<longleftrightarrow> regs_ok A \<and> NumIntRegs A \<le> npi \<and> NumFloatRegs A \<le> npf \<and> (\<forall>m\<in>set (renameMap s). map_ok A npi npf m) \<and>
     free_ok A npi npf (freeList s) \<and> maxPhysicalRegs s = npi + npf \<and> length (historyBuffer s) = length (renameMap s) \<and>
     zeroRegIdx (scoreboard s) = ZeroReg A \<and> sb_numPhysicalIntRegs (scoreboard s) = npi"

definition same_free :: "SimpleFreeList \<Rightarrow> SimpleFreeList \<Rightarrow> bool" where
  "same_free fl fl' \<longleftrightarrow> fl'\<lparr>freeIntRegs := [], freeFloatRegs := []\<rparr> = fl\<lparr>freeIntRegs := [], freeFloatRegs := []\<rparr> \<and>
     mset (freeIntRegs fl') = mset (freeIntRegs fl) \<and> mset (freeFloatRegs fl') = mset (freeFloatRegs fl)"

lemma same_free_fields:
  assumes "same_free fl fl'"
  shows "fl_numPhysicalIntRegs fl' = fl_numPhysicalIntRegs fl" "fl_numPhysicalRegs fl' = fl_numPhysicalRegs fl"
  using assms unfolding same_free_def by (metis SimpleFreeList.select_convs SimpleFreeList.surjective SimpleFreeList.update_convs(1,2))+

definition ren_restored :: "DefaultRename \<Rightarrow> DefaultRename \<Rightarrow> bool" where
  "ren_restored s s' \<longleftrightarrow> renameMap s' = renameMap s \<and> maxPhysicalRegs s' = maxPhysicalRegs s \<and>
     length (regScoreBoard (scoreboard s')) = length (regScoreBoard (scoreboard s)) \<and>
     same_free (freeList s) (freeList s')"

lemma rename_destE:
  assumes "rename_dest A t x s = Inr (h, s1)"
  obtains m1 fl sb where "unat t < length (renameMap s)" "unat t < length (historyBuffer s)"
    "rm_rename A (snd x) (renameMap s ! unat t) (freeList s) = Inr ((newPhysReg h, prevPhysReg h), m1, fl)"
    "unsetReg A (newPhysReg h) (scoreboard s) = Inr sb" "instSeqNum h = fst x" "archReg h = snd x"
    "s1 = s\<lparr>renameMap := (renameMap s)[unat t := m1], freeList := fl, scoreboard := sb,
       historyBuffer := (historyBuffer s)[unat t := h # historyBuffer s ! unat t],
       renameRenamedOperands := renameRenamedOperands s + 1\<rparr>"
  using assms that by (auto simp: rename_dest_def Let_def arr_upd_def)

lemma unsetReg_range:
  assumes "unsetReg A r sb = Inr sb'"
  shows "length (regScoreBoard sb') = length (regScoreBoard sb)" "zeroRegIdx sb' = zeroRegIdx sb"
    "sb_numPhysicalIntRegs sb' = sb_numPhysicalIntRegs sb"
    "\<not> sb_zero A r sb \<Longrightarrow> 0 \<le> r \<and> nat r < length (regScoreBoard sb)"
  using assms by (auto simp: unsetReg_def sb_put_def split: if_splits)

lemma rename_keeps:
  assumes "ren_ok A npi npf s" "rename_dest A t x s = Inr (h, s1)"
  shows "ren_ok A npi npf s1"
proof -
  obtain m1 fl sb where e: "unat t < length (renameMap s)"
    "rm_rename A (snd x) (renameMap s ! unat t) (freeList s) = Inr ((newPhysReg h, prevPhysReg h), m1, fl)"
    "unsetReg A (newPhysReg h) (scoreboard s) = Inr sb"
    "s1 = s\<lparr>renameMap := (renameMap s)[unat t := m1], freeList := fl, scoreboard := sb,
       historyBuffer := (historyBuffer s)[unat t := h # historyBuffer s ! unat t],
       renameRenamedOperands := renameRenamedOperands s + 1\<rparr>"
    using rename_destE [OF assms(2)] by metis
  have m: "map_ok A npi npf (renameMap s ! unat t)" "regs_ok A" using assms(1) e(1) by (auto simp: ren_ok_def)
  have "map_ok A npi npf m1 \<and> free_ok A npi npf fl"
    using rm_rename_cases [OF e(2) m] m assms(1)
    by cases (auto simp: ren_ok_def free_ok_def)
  then show ?thesis
    using assms(1) e(4) unsetReg_range(2,3) [OF e(3)] by (auto simp: ren_ok_def dest!: set_update_subset_insert [THEN subsetD])
qed

lemma undo_free:
  assumes "rm_rename A a m fl = Inr ((new, prev), m1, fl1)" "map_ok A npi npf m" "regs_ok A" "free_ok A npi npf fl"
    "NumIntRegs A \<le> npi" "NumFloatRegs A \<le> npf" "same_free fl1 fl2"
  shows "rm_setEntry a prev m1 = Inr m" "same_free fl (addReg A new fl2)"
proof -
  have z: "0 \<le> ZeroReg A" "ZeroReg A < NumIntRegs A" "0 \<le> NumFloatRegs A" using assms(3) by (auto simp: regs_ok_def)
  have n: "fl_numPhysicalIntRegs fl = npi" "fl_numPhysicalRegs fl = npi + npf" using assms(4) by (auto simp: free_ok_def)
  have "rm_setEntry a prev m1 = Inr m \<and> same_free fl (addReg A new fl2)"
    using assms(1-3)
  proof (cases rule: rm_rename_cases)
    case (int rs)
    then have "new < npi" "new \<noteq> ZeroReg A" using assms(4) by (auto simp: free_ok_def usable_def)
    then have "same_free fl (addReg A new fl2)"
      using int n same_free_fields [OF assms(7)] assms(7) by (simp add: addReg_def same_free_def)
    then show ?thesis
      using int assms(2) z rm_setEntry_eq [of A npi npf m1 a prev] set_phys_back [OF assms(2), of a new] by auto
  next
    case (float rs)
    then have "\<not> new < npi" "new < npi + npf" "\<not> (is_alpha A \<and> new = ZeroReg A + npi)"
      using assms(4) by (auto simp: free_ok_def usable_def)
    then have "same_free fl (addReg A new fl2)"
      using float n same_free_fields [OF assms(7)] assms(7) by (auto simp: addReg_def same_free_def)
    then show ?thesis
      using float assms(2) z rm_setEntry_eq [of A npi npf m1 a prev] set_phys_back [OF assms(2), of a new] by auto
  next
    case zero
    then have "addReg A new fl2 = fl2"
      using assms(5) n z same_free_fields [OF assms(7)] by (simp add: addReg_def)
    moreover have "set_phys m a (phys m a) = m" by (simp add: set_phys_def phys_def)
    ultimately show ?thesis
      using zero assms(2,7) z rm_setEntry_eq [of A npi npf m a prev] by auto
  next
    case misc
    then have "addReg A new fl2 = fl2"
      using assms(5,6) n z same_free_fields [OF assms(7)] by (simp add: addReg_def)
    moreover have "rm_setEntry a prev m1 = Inr m" using misc assms(2) z by (auto simp: rm_setEntry_def map_ok_def)
    ultimately show ?thesis using misc assms(7) by auto
  qed
  then show "rm_setEntry a prev m1 = Inr m" "same_free fl (addReg A new fl2)" by blast+
qed

lemma undo_rename_restores:
  assumes ok: "ren_ok A npi npf s" and r: "rename_dest A t x s = Inr (h, s1)" and near: "ren_restored s1 s2"
  shows "\<exists>s3. undo_rename A t h s2 = Inr s3 \<and> ren_restored s s3"
proof -
  let ?m = "renameMap s ! unat t"
  obtain m1 fl sb where e: "unat t < length (renameMap s)" "unat t < length (historyBuffer s)"
    "rm_rename A (snd x) ?m (freeList s) = Inr ((newPhysReg h, prevPhysReg h), m1, fl)"
    "unsetReg A (newPhysReg h) (scoreboard s) = Inr sb" "instSeqNum h = fst x" "archReg h = snd x"
    "s1 = s\<lparr>renameMap := (renameMap s)[unat t := m1], freeList := fl, scoreboard := sb,
       historyBuffer := (historyBuffer s)[unat t := h # historyBuffer s ! unat t],
       renameRenamedOperands := renameRenamedOperands s + 1\<rparr>"
    by (rule rename_destE [OF r])
  have n: "renameMap s2 = (renameMap s)[unat t := m1]" "same_free fl (freeList s2)" "maxPhysicalRegs s2 = npi + npf"
      "length (regScoreBoard (scoreboard s2)) = length (regScoreBoard (scoreboard s))"
    using near e(7) ok unsetReg_range(1) [OF e(4)] by (auto simp: ren_restored_def ren_ok_def)
  have c: "map_ok A npi npf ?m" "regs_ok A" "free_ok A npi npf (freeList s)" "NumIntRegs A \<le> npi" "NumFloatRegs A \<le> npf"
      "zeroRegIdx (scoreboard s) = ZeroReg A" "sb_numPhysicalIntRegs (scoreboard s) = npi" "maxPhysicalRegs s = npi + npf"
    using ok e(1) by (auto simp: ren_ok_def)
  note u = undo_free [OF e(3) c(1-5) n(2)]
  have "npi + npf \<le> newPhysReg h \<Longrightarrow> \<not> sb_zero A (newPhysReg h) (scoreboard s)"
    using c by (auto simp: sb_zero_def regs_ok_def)
  then obtain sb' where sb': "(if newPhysReg h \<ge> maxPhysicalRegs s2 then setReg (newPhysReg h) (scoreboard s2) else Inr (scoreboard s2)) = Inr sb'"
      "length (regScoreBoard sb') = length (regScoreBoard (scoreboard s))"
    using unsetReg_range(4) [OF e(4)] n(3,4) by (cases "npi + npf \<le> newPhysReg h") (auto simp: setReg_def sb_put_def)
  let ?s = "s2\<lparr>renameMap := renameMap s, freeList := addReg A (newPhysReg h) (freeList s2), scoreboard := sb',
    renameUndoneMaps := renameUndoneMaps s2 + 1\<rparr>"
  have "undo_rename A t h s2 = Inr ?s"
    unfolding undo_rename_def using e(1,6) n(1) u(1) sb'(1) by (simp add: Let_def)
  moreover have "ren_restored s ?s" using u(2) sb'(2) n(3) c(8) by (simp add: ren_restored_def)
  ultimately show ?thesis by blast
qed

interpretation rename_log: undo_log "ren_ok A npi npf" "rename_dest A t" "undo_rename A t" "\<lambda>n. ren_restored" "\<lambda>x. 0"
  "\<lambda>x h. instSeqNum h = fst x \<and> archReg h = snd x" for A npi npf t
proof (unfold_locales, goal_cases)
  case (1 s)
  show ?case by (simp add: ren_restored_def same_free_def)
next
  case (2 s x h s1)
  then show ?case using rename_keeps by (auto elim: rename_destE)
next
  case (3 s x h s1 n s2)
  then show ?case by (rule undo_rename_restores)
qed

subsection \<open>Conservation of registers\<close>

definition reg_count :: "isa_regs \<Rightarrow> int" where
  "reg_count A = NumIntRegs A + NumFloatRegs A"

definition dest_ok :: "isa_regs \<Rightarrow> int \<Rightarrow> bool" where
  "dest_ok A a \<longleftrightarrow> 0 \<le> a \<and> a < reg_count A + NumMiscRegs A \<and> a \<noteq> ZeroReg A \<and>
     \<not> (is_alpha A \<and> a = NumIntRegs A + ZeroReg A)"

definition mapped :: "isa_regs \<Rightarrow> SimpleRenameMap \<Rightarrow> int list" where
  "mapped A m = map (phys m) [0..reg_count A - 1]"

definition held :: "int \<Rightarrow> RenameHistory list \<Rightarrow> int list" where
  "held npr hs = map prevPhysReg (filter (\<lambda>h. newPhysReg h < npr) hs)"

text \<open>
  The places of the physical registers. An entry of the history buffer holds its previous register
  if it renamed an integer or a floating-point register.
\<close>

definition live :: "isa_regs \<Rightarrow> DefaultRename \<Rightarrow> int multiset" where
  "live A s = mset (freeIntRegs (freeList s)) + mset (freeFloatRegs (freeList s)) +
     (\<Sum>m\<leftarrow>renameMap s. mset (mapped A m)) + (\<Sum>hs\<leftarrow>historyBuffer s. mset (held (maxPhysicalRegs s) hs))"

text \<open>Undoing the history entry by entry finds, each time, the register the entry put into the map.\<close>

fun chain :: "int \<Rightarrow> RenameHistory list \<Rightarrow> (int \<Rightarrow> int) \<Rightarrow> bool" where
  "chain nl [] f \<longleftrightarrow> True"
| "chain nl (h # hs) f \<longleftrightarrow> (if archReg h < nl then f (archReg h) = newPhysReg h \<and> chain nl hs (f(archReg h := prevPhysReg h))
     else chain nl hs f)"

definition entry_ok :: "isa_regs \<Rightarrow> int \<Rightarrow> int \<Rightarrow> RenameHistory \<Rightarrow> bool" where
  "entry_ok A npi npf h \<longleftrightarrow> dest_ok A (archReg h) \<and>
     (if archReg h < reg_count A
      then 0 \<le> newPhysReg h \<and> newPhysReg h < npi + npf \<and> usable A npi (newPhysReg h) \<and>
           0 \<le> prevPhysReg h \<and> prevPhysReg h < npi + npf \<and> usable A npi (prevPhysReg h)
      else newPhysReg h = prevPhysReg h \<and> npi + npf \<le> newPhysReg h \<and> newPhysReg h < npi + npf + NumMiscRegs A)"

definition thread_ok :: "isa_regs \<Rightarrow> int \<Rightarrow> int \<Rightarrow> SimpleRenameMap \<Rightarrow> RenameHistory list \<Rightarrow> bool" where
  "thread_ok A npi npf m hs \<longleftrightarrow>
     (\<forall>a. dest_ok A a \<and> a < reg_count A \<longrightarrow> 0 \<le> phys m a \<and> phys m a < npi + npf \<and> usable A npi (phys m a)) \<and>
     (\<forall>h\<in>set hs. entry_ok A npi npf h) \<and> chain (reg_count A) hs (\<lambda>a. phys m a)"

definition acct :: "isa_regs \<Rightarrow> int \<Rightarrow> int \<Rightarrow> DefaultRename \<Rightarrow> bool" where
  "acct A npi npf s \<longleftrightarrow> ren_ok A npi npf s \<and> 0 \<le> NumMiscRegs A \<and>
     npi + npf + NumMiscRegs A \<le> int (length (regScoreBoard (scoreboard s))) \<and>
     (\<forall>i<length (renameMap s). thread_ok A npi npf (renameMap s ! i) (historyBuffer s ! i)) \<and>
     live A s = mset [0..npi + npf - 1]"

lemma chain_cong:
  assumes "\<And>a. 0 \<le> a \<Longrightarrow> a < nl \<Longrightarrow> f a = g a" "\<forall>h\<in>set hs. 0 \<le> archReg h"
  shows "chain nl hs f = chain nl hs g"
  using assms
proof (induction hs arbitrary: f g)
  case (Cons h hs)
  have "chain nl hs (f(archReg h := p)) = chain nl hs (g(archReg h := p))" for p
    using Cons.prems by (intro Cons.IH) auto
  moreover have "chain nl hs f = chain nl hs g" using Cons.prems by (intro Cons.IH) auto
  ultimately show ?case using Cons.prems by auto
qed simp

lemma chain_prefix: "chain nl (hs @ hs') f \<Longrightarrow> chain nl hs f"
  by (induction hs arbitrary: f) (auto split: if_splits)

lemma mset_map_update:
  assumes "distinct xs" "a \<in> set xs"
  shows "add_mset (f a) (mset (map (f(a := v)) xs)) = add_mset v (mset (map f xs))"
  using assms
proof (induction xs)
  case (Cons x xs)
  then show ?case by (cases "x = a") (auto simp: fun_upd_def intro!: image_mset_cong)
qed simp

lemma mapped_set_phys:
  assumes "map_ok A npi npf m" "0 \<le> a" "a < reg_count A"
  shows "add_mset (phys m a) (mset (mapped A (set_phys m a v))) = add_mset v (mset (mapped A m))"
proof -
  have eq: "map (phys (set_phys m a v)) [0..reg_count A - 1] = map ((phys m)(a := v)) [0..reg_count A - 1]"
    using assms by (auto simp: phys_set_phys reg_count_def)
  show ?thesis
    unfolding mapped_def eq using mset_map_update [of "[0..reg_count A - 1]" a "phys m" v] assms(2,3) by simp
qed

lemma sum_list_update_mset:
  fixes f :: "'x \<Rightarrow> 'y multiset"
  assumes "i < length xs"
  shows "(\<Sum>x\<leftarrow>xs[i := y]. f x) + f (xs ! i) = (\<Sum>x\<leftarrow>xs. f x) + f y"
  using assms
proof (induction xs arbitrary: i)
  case (Cons x xs)
  then show ?case by (cases i) (auto simp: ac_simps)
qed simp

lemma addReg_usable:
  assumes "free_ok A npi npf fl" "0 \<le> r" "r < npi + npf" "usable A npi r"
  shows "free_ok A npi npf (addReg A r fl)"
    "mset (freeIntRegs (addReg A r fl)) + mset (freeFloatRegs (addReg A r fl)) =
     add_mset r (mset (freeIntRegs fl) + mset (freeFloatRegs fl))"
  using assms by (auto simp: addReg_def free_ok_def usable_def)

lemma addReg_misc: "free_ok A npi npf fl \<Longrightarrow> npi + npf \<le> r \<Longrightarrow> 0 \<le> npf \<Longrightarrow> addReg A r fl = fl"
  by (auto simp: addReg_def free_ok_def)

lemma acctD:
  assumes "acct A npi npf s"
  shows "ren_ok A npi npf s" "regs_ok A" "free_ok A npi npf (freeList s)" "maxPhysicalRegs s = npi + npf"
    "NumIntRegs A \<le> npi" "NumFloatRegs A \<le> npf" "0 < npi" "0 \<le> npf" "length (historyBuffer s) = length (renameMap s)"
    "i < length (renameMap s) \<Longrightarrow> map_ok A npi npf (renameMap s ! i)"
    "i < length (renameMap s) \<Longrightarrow> thread_ok A npi npf (renameMap s ! i) (historyBuffer s ! i)"
  using assms by (auto simp: acct_def ren_ok_def regs_ok_def)

lemma thread_ok_rename:
  assumes t: "thread_ok A npi npf m hs" and m: "map_ok A npi npf m" and h: "entry_ok A npi npf h" "archReg h < reg_count A"
    and prev: "prevPhysReg h = phys m (archReg h)"
  shows "thread_ok A npi npf (set_phys m (archReg h) (newPhysReg h)) (h # hs)"
proof -
  let ?m = "set_phys m (archReg h) (newPhysReg h)"
  have a: "0 \<le> archReg h" "archReg h < NumIntRegs A + NumFloatRegs A" using h by (auto simp: entry_ok_def dest_ok_def reg_count_def)
  have p: "phys ?m b = (if b = archReg h then newPhysReg h else phys m b)" if "0 \<le> b" for b
    using phys_set_phys [OF m a that] .
  have "\<forall>h\<in>set hs. 0 \<le> archReg h" using t by (auto simp: thread_ok_def entry_ok_def dest_ok_def)
  then have "chain (reg_count A) hs ((phys ?m)(archReg h := prevPhysReg h)) = chain (reg_count A) hs (phys m)"
    using p prev by (intro chain_cong) auto
  then have "chain (reg_count A) (h # hs) (phys ?m)" using t h(2) p [OF a(1)] by (simp add: thread_ok_def)
  moreover have "0 \<le> phys ?m b \<and> phys ?m b < npi + npf \<and> usable A npi (phys ?m b)" if "dest_ok A b" "b < reg_count A" for b
    using that p [of b] t h by (auto simp: thread_ok_def entry_ok_def dest_ok_def)
  ultimately show ?thesis using t h(1) by (auto simp: thread_ok_def)
qed

lemma thread_ok_undo:
  assumes t: "thread_ok A npi npf m (h # hs)" and m: "map_ok A npi npf m" and h: "archReg h < reg_count A"
  shows "thread_ok A npi npf (set_phys m (archReg h) (prevPhysReg h)) hs" "phys m (archReg h) = newPhysReg h"
proof -
  let ?m = "set_phys m (archReg h) (prevPhysReg h)"
  have e: "entry_ok A npi npf h" using t by (simp add: thread_ok_def)
  then have a: "0 \<le> archReg h" "archReg h < NumIntRegs A + NumFloatRegs A" using h by (auto simp: entry_ok_def dest_ok_def reg_count_def)
  have p: "phys ?m b = (if b = archReg h then prevPhysReg h else phys m b)" if "0 \<le> b" for b
    using phys_set_phys [OF m a that] .
  have "\<forall>h\<in>set hs. 0 \<le> archReg h" using t by (auto simp: thread_ok_def entry_ok_def dest_ok_def)
  then have "chain (reg_count A) hs (phys ?m) = chain (reg_count A) hs ((phys m)(archReg h := prevPhysReg h))"
    using p by (intro chain_cong) auto
  moreover have "0 \<le> phys ?m b \<and> phys ?m b < npi + npf \<and> usable A npi (phys ?m b)" if "dest_ok A b" "b < reg_count A" for b
    using that p [of b] t e h by (auto simp: thread_ok_def entry_ok_def dest_ok_def)
  ultimately show "thread_ok A npi npf ?m hs" using t h by (auto simp: thread_ok_def)
  show "phys m (archReg h) = newPhysReg h" using t h by (simp add: thread_ok_def)
qed

lemma held_Cons: "mset (held npr (h # hs)) = (if newPhysReg h < npr then {#prevPhysReg h#} else {#}) + mset (held npr hs)"
  by (simp add: held_def)

definition free_set :: "SimpleFreeList \<Rightarrow> int multiset" where
  "free_set fl = mset (freeIntRegs fl) + mset (freeFloatRegs fl)"

lemma balance:
  fixes M :: "'x multiset"
  assumes "M' + a = M + a'" "H' + b = H + b'" "F' + a' + b' = F + a + b"
  shows "F' + M' + H' = F + M + H"
proof (rule multiset_eqI)
  fix x
  have "count M' x + count a x = count M x + count a' x" using assms(1) by (metis count_union)
  moreover have "count H' x + count b x = count H x + count b' x" using assms(2) by (metis count_union)
  moreover have "count F' x + count a' x + count b' x = count F x + count a x + count b x" using assms(3) by (metis count_union)
  ultimately show "count (F' + M' + H') x = count (F + M + H) x" by simp
qed

lemma live_update:
  assumes "i < length (renameMap s)" "length (historyBuffer s) = length (renameMap s)"
    "renameMap s' = (renameMap s)[i := m]" "historyBuffer s' = (historyBuffer s)[i := hs]" "maxPhysicalRegs s' = maxPhysicalRegs s"
    "free_set (freeList s') + mset (mapped A m) + mset (held (maxPhysicalRegs s) hs) =
     free_set (freeList s) + mset (mapped A (renameMap s ! i)) + mset (held (maxPhysicalRegs s) (historyBuffer s ! i))"
  shows "live A s' = live A s"
proof -
  have "(\<Sum>m\<leftarrow>renameMap s'. mset (mapped A m)) + mset (mapped A (renameMap s ! i)) =
      (\<Sum>m\<leftarrow>renameMap s. mset (mapped A m)) + mset (mapped A m)"
    using sum_list_update_mset [OF assms(1), of "\<lambda>m. mset (mapped A m)" m] assms(3) by simp
  moreover have "(\<Sum>hs\<leftarrow>historyBuffer s'. mset (held (maxPhysicalRegs s) hs)) + mset (held (maxPhysicalRegs s) (historyBuffer s ! i)) =
      (\<Sum>hs\<leftarrow>historyBuffer s. mset (held (maxPhysicalRegs s) hs)) + mset (held (maxPhysicalRegs s) hs)"
    using sum_list_update_mset [of i "historyBuffer s" "\<lambda>hs. mset (held (maxPhysicalRegs s) hs)" hs] assms(1,2,4) by simp
  ultimately have "free_set (freeList s') + (\<Sum>m\<leftarrow>renameMap s'. mset (mapped A m)) +
      (\<Sum>hs\<leftarrow>historyBuffer s'. mset (held (maxPhysicalRegs s) hs)) =
    free_set (freeList s) + (\<Sum>m\<leftarrow>renameMap s. mset (mapped A m)) + (\<Sum>hs\<leftarrow>historyBuffer s. mset (held (maxPhysicalRegs s) hs))"
    using assms(6) by (rule balance)
  then show ?thesis by (simp add: live_def free_set_def assms(5))
qed

lemma threads_update:
  assumes "acct A npi npf s" "i < length (renameMap s)" "thread_ok A npi npf m hs" "map_ok A npi npf m"
    "renameMap s' = (renameMap s)[i := m]" "historyBuffer s' = (historyBuffer s)[i := hs]" "maxPhysicalRegs s' = maxPhysicalRegs s"
    "free_ok A npi npf (freeList s')" "length (regScoreBoard (scoreboard s')) = length (regScoreBoard (scoreboard s))"
    "zeroRegIdx (scoreboard s') = zeroRegIdx (scoreboard s)"
    "sb_numPhysicalIntRegs (scoreboard s') = sb_numPhysicalIntRegs (scoreboard s)"
    "free_set (freeList s') + mset (mapped A m) + mset (held (npi + npf) hs) =
     free_set (freeList s) + mset (mapped A (renameMap s ! i)) + mset (held (npi + npf) (historyBuffer s ! i))"
  shows "acct A npi npf s'"
proof -
  note a = acctD [OF assms(1)]
  have "live A s' = live A s" using live_update [OF assms(2) a(9) assms(5-7)] assms(12) a(4) by simp
  moreover have "ren_ok A npi npf s'"
    using assms(4-11) a(1) by (auto simp: ren_ok_def dest!: set_update_subset_insert [THEN subsetD])
  moreover have "thread_ok A npi npf (renameMap s' ! j) (historyBuffer s' ! j)" if "j < length (renameMap s')" for j
    using that assms(2,3,5,6) a(9) a(11) by (cases "j = i") auto
  ultimately show ?thesis using assms(1,9) by (simp add: acct_def)
qed

lemma setReg_ok: "0 \<le> r \<Longrightarrow> nat r < length (regScoreBoard sb) \<Longrightarrow>
    \<exists>sb'. setReg r sb = Inr sb' \<and> length (regScoreBoard sb') = length (regScoreBoard sb) \<and> zeroRegIdx sb' = zeroRegIdx sb \<and>
      sb_numPhysicalIntRegs sb' = sb_numPhysicalIntRegs sb"
  by (simp add: setReg_def sb_put_def)

lemma rm_rename_total:
  assumes "map_ok A npi npf m" "free_ok A npi npf fl" "regs_ok A" "0 \<le> a"
  shows "(\<exists>new prev m1 fl1. rm_rename A a m fl = Inr ((new, prev), m1, fl1)) \<or>
    rm_rename A a m fl = Inl (Panic ''No free integer registers!'')"
proof -
  have m: "numLogicalIntRegs m = NumIntRegs A" "numLogicalRegs m = NumIntRegs A + NumFloatRegs A"
      "numPhysicalIntRegs m = npi" "numPhysicalRegs m = npi + npf" using assms(1) by (auto simp: map_ok_def)
  consider "a < NumIntRegs A" | "NumIntRegs A \<le> a" "a < NumIntRegs A + NumFloatRegs A" | "NumIntRegs A + NumFloatRegs A \<le> a"
    by linarith
  then show ?thesis
  proof cases
    case 1
    then have "nat a < length (intRenameMap m)" using assms by (auto simp: map_ok_def)
    then show ?thesis using 1 m assms(2,4)
      by (cases "freeIntRegs fl") (auto simp: rm_rename_def entry_at_def set_entry_def getIntReg_def free_ok_def)
  next
    case 2
    then have "nat a < length (floatRenameMap m)" using assms by (auto simp: map_ok_def)
    then show ?thesis using 2 m assms(2,4)
      by (cases "freeFloatRegs fl") (auto simp: rm_rename_def entry_at_def set_entry_def getFloatReg_def free_ok_def)
  next
    case 3
    then show ?thesis using m assms(3) by (auto simp: rm_rename_def Let_def regs_ok_def)
  qed
qed

lemma unsetReg_ok: "0 \<le> r \<Longrightarrow> nat r < length (regScoreBoard sb) \<Longrightarrow> \<exists>sb'. unsetReg A r sb = Inr sb'"
  by (simp add: unsetReg_def sb_put_def)

lemma rename_entry:
  assumes "acct A npi npf s" "i < length (renameMap s)" "dest_ok A a"
    "rm_rename A a (renameMap s ! i) (freeList s) = Inr ((new, prev), m1, fl1)"
    "h = \<lparr>instSeqNum = sn, archReg = a, newPhysReg = new, prevPhysReg = prev\<rparr>"
  shows "entry_ok A npi npf h" "free_ok A npi npf fl1" "map_ok A npi npf m1"
    "thread_ok A npi npf m1 (h # historyBuffer s ! i)"
    "free_set fl1 + mset (mapped A m1) + mset (held (npi + npf) (h # historyBuffer s ! i)) =
     free_set (freeList s) + mset (mapped A (renameMap s ! i)) + mset (held (npi + npf) (historyBuffer s ! i))"
proof -
  let ?m = "renameMap s ! i"
  note a = acctD [OF assms(1)] and m = acctD(10,11) [OF assms(1,2)]
  have t: "a < reg_count A \<Longrightarrow> 0 \<le> phys ?m a \<and> phys ?m a < npi + npf \<and> usable A npi (phys ?m a)"
    using m(2) assms(3) by (simp add: thread_ok_def)
  have "entry_ok A npi npf h \<and> free_ok A npi npf fl1 \<and> map_ok A npi npf m1 \<and> thread_ok A npi npf m1 (h # historyBuffer s ! i) \<and>
    free_set fl1 + mset (mapped A m1) + mset (held (npi + npf) (h # historyBuffer s ! i)) =
     free_set (freeList s) + mset (mapped A ?m) + mset (held (npi + npf) (historyBuffer s ! i))"
    using assms(4) m(1) a(2)
  proof (cases rule: rm_rename_cases)
    case (int rs)
    have l: "a < reg_count A" using int a(2) by (simp add: reg_count_def regs_ok_def)
    have e: "entry_ok A npi npf h" using int assms(3,5) a(3,7,8) t [OF l] l by (auto simp: entry_ok_def free_ok_def)
    have "thread_ok A npi npf m1 (h # historyBuffer s ! i)"
      using thread_ok_rename [OF m(2,1) e] int assms(5) l by simp
    moreover have "add_mset prev (mset (mapped A m1)) = add_mset new (mset (mapped A ?m))"
      using mapped_set_phys [OF m(1) int(1) l, of new] int by simp
    moreover have "new < npi + npf" using e assms(5) l by (simp add: entry_ok_def)
    ultimately show ?thesis using e int m(1) a(3) assms(5) by (simp add: free_set_def held_Cons free_ok_def)
  next
    case (float rs)
    have l: "a < reg_count A" "0 \<le> a" using float a(2) by (auto simp: reg_count_def regs_ok_def)
    have e: "entry_ok A npi npf h" using float assms(3,5) a(3,7,8) t [OF l(1)] l by (auto simp: entry_ok_def free_ok_def)
    have "thread_ok A npi npf m1 (h # historyBuffer s ! i)"
      using thread_ok_rename [OF m(2,1) e] float assms(5) l by simp
    moreover have "add_mset prev (mset (mapped A m1)) = add_mset new (mset (mapped A ?m))"
      using mapped_set_phys [OF m(1) l(2,1), of new] float by simp
    moreover have "new < npi + npf" using e assms(5) l by (simp add: entry_ok_def)
    ultimately show ?thesis using e float m(1) a(3) assms(5) by (simp add: free_set_def held_Cons free_ok_def)
  next
    case zero
    then show ?thesis using assms(3) by (simp add: dest_ok_def)
  next
    case misc
    then have "entry_ok A npi npf h" using assms(3,5) by (auto simp: entry_ok_def reg_count_def dest_ok_def)
    then show ?thesis using misc m a(3) assms(5) by (simp add: held_Cons thread_ok_def reg_count_def)
  qed
  then show "entry_ok A npi npf h" "free_ok A npi npf fl1" "map_ok A npi npf m1"
    "thread_ok A npi npf m1 (h # historyBuffer s ! i)"
    "free_set fl1 + mset (mapped A m1) + mset (held (npi + npf) (h # historyBuffer s ! i)) =
     free_set (freeList s) + mset (mapped A (renameMap s ! i)) + mset (held (npi + npf) (historyBuffer s ! i))"
    by blast+
qed

lemma rename_acct:
  assumes ok: "acct A npi npf s" "dest_ok A (snd x)" "unat t < length (renameMap s)"
  shows "(\<exists>h s1. rename_dest A t x s = Inr (h, s1) \<and> acct A npi npf s1 \<and> length (renameMap s1) = length (renameMap s)) \<or>
    rename_dest A t x s = Inl (Panic ''No free integer registers!'')"
proof -
  let ?m = "renameMap s ! unat t"
  note a = acctD [OF ok(1)] and m = acctD(10,11) [OF ok(1,3)]
  consider new prev m1 fl1 where "rm_rename A (snd x) ?m (freeList s) = Inr ((new, prev), m1, fl1)"
    | "rm_rename A (snd x) ?m (freeList s) = Inl (Panic ''No free integer registers!'')"
    using rm_rename_total [OF m(1) a(3,2), of "snd x"] ok(2) by (auto simp: dest_ok_def)
  then show ?thesis
  proof cases
    case 1
    let ?h = "\<lparr>instSeqNum = fst x, archReg = snd x, newPhysReg = new, prevPhysReg = prev\<rparr>"
    note e = rename_entry [OF ok(1,3,2) 1 refl [of ?h]]
    have "0 \<le> new" "new < npi + npf + NumMiscRegs A"
      using e(1) ok(1) a(7,8) by (auto simp: entry_ok_def acct_def split: if_splits)
    moreover from this have "nat new < length (regScoreBoard (scoreboard s))"
      using ok(1) by (simp add: acct_def nat_less_iff)
    ultimately obtain sb where sb: "unsetReg A new (scoreboard s) = Inr sb" using unsetReg_ok by blast
    let ?s = "s\<lparr>renameMap := (renameMap s)[unat t := m1], freeList := fl1, scoreboard := sb,
      historyBuffer := (historyBuffer s)[unat t := ?h # historyBuffer s ! unat t],
      renameRenamedOperands := renameRenamedOperands s + 1\<rparr>"
    have "rename_dest A t x s = Inr (?h, ?s)" using 1 sb ok(3) a(9) by (simp add: rename_dest_def Let_def)
    moreover have "acct A npi npf ?s"
      using e unsetReg_range(1-3) [OF sb] by (intro threads_update [OF ok(1,3)]) simp_all
    ultimately show ?thesis by auto
  next
    case 2
    then show ?thesis using ok(3) by (simp add: rename_dest_def)
  qed
qed

lemma undo_acct:
  assumes ok: "acct A npi npf s" "unat t < length (renameMap s)" "historyBuffer s ! unat t = h # hs"
  shows "\<exists>s1. undo_rename A t h s = Inr s1 \<and> historyBuffer s1 = historyBuffer s \<and> length (renameMap s1) = length (renameMap s) \<and>
    acct A npi npf (s1\<lparr>historyBuffer := (historyBuffer s)[unat t := hs]\<rparr>)"
proof -
  let ?m = "renameMap s ! unat t"
  note a = acctD [OF ok(1)] and m = acctD(10,11) [OF ok(1,2)]
  have t: "thread_ok A npi npf ?m (h # hs)" using m(2) ok(3) by simp
  then have e: "entry_ok A npi npf h" by (simp add: thread_ok_def)
  have z: "0 \<le> archReg h" "0 \<le> reg_count A" using e a(2) by (auto simp: entry_ok_def dest_ok_def reg_count_def regs_ok_def)
  have sl: "npi + npf + NumMiscRegs A \<le> int (length (regScoreBoard (scoreboard s)))" using ok(1) by (simp add: acct_def)
  show ?thesis
  proof (cases "archReg h < reg_count A")
    case True
    let ?m1 = "set_phys ?m (archReg h) (prevPhysReg h)" and ?fl = "addReg A (newPhysReg h) (freeList s)"
    let ?s = "s\<lparr>renameMap := (renameMap s)[unat t := ?m1], freeList := ?fl, renameUndoneMaps := renameUndoneMaps s + 1\<rparr>"
    have n: "0 \<le> newPhysReg h" "newPhysReg h < npi + npf" "usable A npi (newPhysReg h)" using e True by (auto simp: entry_ok_def)
    have "undo_rename A t h s = Inr ?s"
      using ok(2) rm_setEntry_eq [OF m(1) z(1), of "prevPhysReg h"] True n a(4) by (simp add: undo_rename_def reg_count_def)
    moreover have "acct A npi npf (?s\<lparr>historyBuffer := (historyBuffer s)[unat t := hs]\<rparr>)"
      using thread_ok_undo [OF t m(1) True] m(1) addReg_usable [OF a(3) n] n(2) ok(3)
        mapped_set_phys [OF m(1) z(1) True, of "prevPhysReg h"]
      by (intro threads_update [OF ok(1,2), where m = ?m1 and hs = hs]) (simp_all add: free_set_def held_Cons)
    ultimately show ?thesis by (intro exI [of _ ?s]) simp
  next
    case False
    then have n: "npi + npf \<le> newPhysReg h" "newPhysReg h < npi + npf + NumMiscRegs A" using e by (auto simp: entry_ok_def)
    then have "0 \<le> newPhysReg h" "nat (newPhysReg h) < length (regScoreBoard (scoreboard s))" using a(7,8) sl by auto
    then obtain sb where sb: "setReg (newPhysReg h) (scoreboard s) = Inr sb"
        "length (regScoreBoard sb) = length (regScoreBoard (scoreboard s))" "zeroRegIdx sb = zeroRegIdx (scoreboard s)"
        "sb_numPhysicalIntRegs sb = sb_numPhysicalIntRegs (scoreboard s)"
      using setReg_ok by blast
    let ?s = "s\<lparr>scoreboard := sb, renameUndoneMaps := renameUndoneMaps s + 1\<rparr>"
    have "rm_setEntry (archReg h) (prevPhysReg h) ?m = Inr ?m"
      using False z m(1) a(2) by (auto simp: rm_setEntry_def map_ok_def reg_count_def regs_ok_def)
    then have "undo_rename A t h s = Inr ?s"
      using ok(2) n(1) a(4) sb(1) addReg_misc [OF a(3) n(1) a(8)] by (simp add: undo_rename_def)
    moreover have "thread_ok A npi npf ?m hs" using t False by (auto simp: thread_ok_def)
    then have "acct A npi npf (?s\<lparr>historyBuffer := (historyBuffer s)[unat t := hs]\<rparr>)"
      using m(1) a(3) n(1) ok(3) sb(2-4)
      by (intro threads_update [OF ok(1,2), where m = ?m and hs = hs]) (simp_all add: held_Cons)
    ultimately show ?thesis by (intro exI [of _ ?s]) simp
  qed
qed

lemma undo_rename_frame:
  "undo_rename A t h (s\<lparr>historyBuffer := X\<rparr>) = bindR (undo_rename A t h s) (\<lambda>s1. Inr (s1\<lparr>historyBuffer := X\<rparr>))"
  by (cases s) (simp add: undo_rename_def Let_def bindR_assoc)

lemma doSquash_loop_acct:
  assumes "acct A npi npf (s\<lparr>historyBuffer := H[unat t := hs]\<rparr>)" "unat t < length (renameMap s)"
  shows "\<exists>rest s1. doSquash_loop A sn t hs s = Inr (rest, s1) \<and> historyBuffer s1 = historyBuffer s \<and>
    length (renameMap s1) = length (renameMap s) \<and> acct A npi npf (s1\<lparr>historyBuffer := H[unat t := rest]\<rparr>)"
  using assms
proof (induction hs arbitrary: s)
  case (Cons h hs)
  show ?case
  proof (cases "instSeqNum h > sn")
    case True
    let ?s = "s\<lparr>historyBuffer := H[unat t := h # hs]\<rparr>"
    have "length H = length (renameMap s)" using acctD(9) [OF Cons.prems(1)] by simp
    then have "historyBuffer ?s ! unat t = h # hs" "unat t < length (renameMap ?s)" using Cons.prems(2) by simp_all
    from undo_acct [OF Cons.prems(1) this(2,1)]
    obtain s1' where "undo_rename A t h ?s = Inr s1'" "length (renameMap s1') = length (renameMap s)"
        "acct A npi npf (s1'\<lparr>historyBuffer := H[unat t := hs]\<rparr>)" by auto
    then obtain s1 where s1: "undo_rename A t h s = Inr s1" "length (renameMap s1) = length (renameMap s)"
        "acct A npi npf (s1\<lparr>historyBuffer := H[unat t := hs]\<rparr>)"
      by (auto simp: undo_rename_frame)
    have "historyBuffer s1 = historyBuffer s" using s1(1) by (auto simp: undo_rename_def Let_def)
    then show ?thesis using Cons.IH [OF s1(3)] Cons.prems(2) s1 True by auto
  next
    case False
    then show ?thesis using Cons.prems by auto
  qed
qed auto

lemma doSquash_acct:
  assumes "acct A npi npf s" "unat t < length (renameMap s)"
  shows "\<exists>s1. doSquash A sn t s = Inr s1 \<and> acct A npi npf s1 \<and> length (renameMap s1) = length (renameMap s)"
proof -
  have l: "unat t < length (historyBuffer s)" using acctD(9) [OF assms(1)] assms(2) by simp
  have "acct A npi npf (s\<lparr>historyBuffer := (historyBuffer s)[unat t := historyBuffer s ! unat t]\<rparr>)" using assms(1) by simp
  from doSquash_loop_acct [OF this assms(2), of sn]
  show ?thesis using l assms(1) by (auto simp: doSquash_def)
qed

lemma commit_acct:
  assumes ok: "acct A npi npf s" "i < length (renameMap s)" "historyBuffer s ! i = hs @ [h]"
  shows "acct A npi npf (s\<lparr>freeList := addReg A (prevPhysReg h) (freeList s), renameCommittedMaps := n,
    historyBuffer := (historyBuffer s)[i := hs]\<rparr>)"
proof -
  note a = acctD [OF ok(1)] and m = acctD(10,11) [OF ok(1,2)]
  have t: "thread_ok A npi npf (renameMap s ! i) (hs @ [h])" using m(2) ok(3) by simp
  then have e: "entry_ok A npi npf h" and t': "thread_ok A npi npf (renameMap s ! i) hs"
    by (auto simp: thread_ok_def dest: chain_prefix)
  have "free_ok A npi npf (addReg A (prevPhysReg h) (freeList s)) \<and>
    free_set (addReg A (prevPhysReg h) (freeList s)) + mset (held (npi + npf) hs) =
    free_set (freeList s) + mset (held (npi + npf) (hs @ [h]))"
  proof (cases "archReg h < reg_count A")
    case True
    then have "0 \<le> prevPhysReg h" "prevPhysReg h < npi + npf" "usable A npi (prevPhysReg h)" "newPhysReg h < npi + npf"
      using e by (auto simp: entry_ok_def)
    then show ?thesis using addReg_usable [OF a(3)] by (simp add: free_set_def held_def)
  next
    case False
    then have "npi + npf \<le> prevPhysReg h" "\<not> newPhysReg h < npi + npf" using e by (auto simp: entry_ok_def)
    then show ?thesis using addReg_misc [OF a(3) _ a(8)] a(3) by (simp add: held_def)
  qed
  then show ?thesis
    using t' m(1) ok(3)
    by (intro threads_update [OF ok(1,2), where m = "renameMap s ! i" and hs = hs]) (simp_all add: union_commute union_lcomm)
qed

lemma commit_loop_acct:
  assumes "acct A npi npf (s\<lparr>historyBuffer := H[unat t := rev hs]\<rparr>)" "unat t < length (renameMap s)"
    "commit_loop A sn hs s = (rest, s1)"
  shows "historyBuffer s1 = historyBuffer s \<and> renameMap s1 = renameMap s \<and> acct A npi npf (s1\<lparr>historyBuffer := H[unat t := rev rest]\<rparr>)"
  using assms
proof (induction hs arbitrary: s)
  case (Cons h hs)
  show ?case
  proof (cases "instSeqNum h \<le> sn")
    case True
    let ?s = "s\<lparr>historyBuffer := H[unat t := rev (h # hs)]\<rparr>"
    let ?s1 = "s\<lparr>freeList := addReg A (prevPhysReg h) (freeList s), renameCommittedMaps := renameCommittedMaps s + 1\<rparr>"
    have "length H = length (renameMap s)" using acctD(9) [OF Cons.prems(1)] by simp
    then have "historyBuffer ?s ! unat t = rev hs @ [h]" "unat t < length (renameMap ?s)" using Cons.prems(2) by simp_all
    then have "acct A npi npf (?s1\<lparr>historyBuffer := H[unat t := rev hs]\<rparr>)"
      using commit_acct [OF Cons.prems(1), of "unat t" "rev hs" h "renameCommittedMaps s + 1"] by simp
    then show ?thesis using Cons.IH [of ?s1] Cons.prems(2,3) True by simp
  next
    case False
    then show ?thesis using Cons.prems by auto
  qed
qed auto

lemma removeFromHistory_acct:
  assumes "acct A npi npf s" "unat t < length (renameMap s)"
  shows "\<exists>s1. removeFromHistory A sn t s = Inr s1 \<and> acct A npi npf s1 \<and> length (renameMap s1) = length (renameMap s)"
proof -
  let ?hs = "historyBuffer s ! unat t"
  have l: "unat t < length (historyBuffer s)" using acctD(9) [OF assms(1)] assms(2) by simp
  obtain rest s1 where c: "commit_loop A sn (rev ?hs) s = (rest, s1)" by (cases "commit_loop A sn (rev ?hs) s")
  have "acct A npi npf (s\<lparr>historyBuffer := (historyBuffer s)[unat t := rev (rev ?hs)]\<rparr>)" using assms(1) by simp
  from commit_loop_acct [OF this assms(2) c] show ?thesis using l assms(1) c by (auto simp: removeFromHistory_def)
qed

text \<open>The calls on the history buffer, and a sequence of them.\<close>

datatype ren_op = RenRename int16 "64 word" int | RenSquash int16 "64 word" | RenCommit int16 "64 word"

fun ren_apply :: "isa_regs \<Rightarrow> ren_op \<Rightarrow> DefaultRename \<Rightarrow> DefaultRename res" where
  "ren_apply A (RenRename t sn a) s = bindR (rename_dest A t (sn, a) s) (\<lambda>(h, s1). Inr s1)"
| "ren_apply A (RenSquash t sn) s = doSquash A sn t s"
| "ren_apply A (RenCommit t sn) s = removeFromHistory A sn t s"

fun ren_run :: "isa_regs \<Rightarrow> ren_op list \<Rightarrow> DefaultRename \<Rightarrow> DefaultRename res" where
  "ren_run A [] s = Inr s"
| "ren_run A (x # xs) s = bindR (ren_apply A x s) (ren_run A xs)"

fun ren_op_ok :: "isa_regs \<Rightarrow> nat \<Rightarrow> ren_op \<Rightarrow> bool" where
  "ren_op_ok A n (RenRename t sn a) \<longleftrightarrow> unat t < n \<and> dest_ok A a"
| "ren_op_ok A n (RenSquash t sn) \<longleftrightarrow> unat t < n"
| "ren_op_ok A n (RenCommit t sn) \<longleftrightarrow> unat t < n"

lemma ren_apply_acct:
  assumes "acct A npi npf s" "ren_op_ok A (length (renameMap s)) x"
  shows "(\<exists>s1. ren_apply A x s = Inr s1 \<and> acct A npi npf s1 \<and> length (renameMap s1) = length (renameMap s)) \<or>
    ren_apply A x s = Inl (Panic ''No free integer registers!'')"
proof (cases x)
  case (RenRename t sn a)
  then show ?thesis using rename_acct [OF assms(1), of "(sn, a)" t] assms(2) by auto
qed (use assms doSquash_acct removeFromHistory_acct in auto)

lemma ren_run_acct:
  assumes "acct A npi npf s" "\<forall>x\<in>set ops. ren_op_ok A (length (renameMap s)) x"
  shows "(\<exists>s1. ren_run A ops s = Inr s1 \<and> acct A npi npf s1) \<or> ren_run A ops s = Inl (Panic ''No free integer registers!'')"
  using assms
proof (induction ops arbitrary: s)
  case (Cons x xs)
  consider s1 where "ren_apply A x s = Inr s1" "acct A npi npf s1" "length (renameMap s1) = length (renameMap s)"
    | "ren_apply A x s = Inl (Panic ''No free integer registers!'')"
    using ren_apply_acct [of A npi npf s x] Cons.prems by auto
  then show ?case
  proof cases
    case 1
    then show ?thesis using Cons.IH [OF 1(2)] Cons.prems(2) by simp
  qed simp
qed simp

subsection \<open>The initial state\<close>

lemma upto_append: "i \<le> j \<Longrightarrow> j \<le> k + 1 \<Longrightarrow> [i..k] = [i..j - 1] @ [j..k]"
proof (cases "j \<le> k")
  case False
  assume "i \<le> j" "j \<le> k + 1"
  with False have "j = k + 1" by simp
  then show ?thesis by simp
qed (simp add: upto_split1)

lemma map_upto_shift:
  assumes "\<And>a. i \<le> a \<Longrightarrow> a \<le> j \<Longrightarrow> f a = a + d"
  shows "map f [i..j] = [i + d..j + d]"
  using assms by (intro nth_equalityI) (auto simp: nth_upto algebra_simps)

definition map_at :: "isa_regs \<Rightarrow> int \<Rightarrow> int \<Rightarrow> int \<Rightarrow> int \<Rightarrow> int \<Rightarrow> SimpleRenameMap" where
  "map_at A npi npf i l f = fst (rm_init (NumIntRegs A) npi l (NumFloatRegs A) npf f (NumMiscRegs A) (ZeroReg A) (ZeroReg A) i True)"

text \<open>With at most one thread without a workload, every thread starts with registers of its own.\<close>

lemma init_maps_Suc:
  "i + Suc n \<le> Suc act \<Longrightarrow> init_maps A npi npf act (Suc n) i l f =
   map_at A npi npf (int i) l f # init_maps A npi npf act n (Suc i) (l + NumIntRegs A) (f + NumFloatRegs A)"
  by (cases n) (auto simp: map_at_def rm_init_def)

lemma map_at_ok:
  assumes "regs_ok A"
  shows "map_ok A npi npf (map_at A npi npf i l f)"
    "0 \<le> a \<Longrightarrow> a < NumIntRegs A \<Longrightarrow> phys (map_at A npi npf i l f) a = l + a"
    "NumIntRegs A \<le> a \<Longrightarrow> a < reg_count A \<Longrightarrow> phys (map_at A npi npf i l f) a = f + (a - NumIntRegs A)"
proof -
  show "map_ok A npi npf (map_at A npi npf i l f)"
    using assms by (simp add: map_ok_def map_at_def rm_init_def bind_entries_def regs_ok_def)
  show "0 \<le> a \<Longrightarrow> a < NumIntRegs A \<Longrightarrow> phys (map_at A npi npf i l f) a = l + a"
    by (simp add: phys_def map_at_def rm_init_def bind_entries_def)
  assume a: "NumIntRegs A \<le> a" "a < reg_count A"
  have "0 < NumIntRegs A" using assms by (simp add: regs_ok_def)
  then have "\<not> nat a < nat (NumIntRegs A)" "nat a - nat (NumIntRegs A) = nat (a - NumIntRegs A)"
      "nat (a - NumIntRegs A) < nat (NumFloatRegs A)"
    using a by (auto simp: reg_count_def nat_diff_distrib)
  then show "phys (map_at A npi npf i l f) a = f + (a - NumIntRegs A)"
    using a by (simp add: phys_def map_at_def rm_init_def bind_entries_def nth_append)
qed

lemma mapped_map_at:
  assumes "regs_ok A"
  shows "mapped A (map_at A npi npf i l f) = [l..l + NumIntRegs A - 1] @ [f..f + NumFloatRegs A - 1]"
proof -
  have n: "0 < NumIntRegs A" "0 \<le> NumFloatRegs A" using assms by (auto simp: regs_ok_def)
  then have "[0..reg_count A - 1] = [0..NumIntRegs A - 1] @ [NumIntRegs A..reg_count A - 1]"
    using upto_append [of 0 "NumIntRegs A" "reg_count A - 1"] by (simp add: reg_count_def)
  moreover have "map (phys (map_at A npi npf i l f)) [0..NumIntRegs A - 1] = [0 + l..NumIntRegs A - 1 + l]"
    using map_at_ok(2) [OF assms] by (intro map_upto_shift) auto
  moreover have "map (phys (map_at A npi npf i l f)) [NumIntRegs A..reg_count A - 1] =
      [NumIntRegs A + (f - NumIntRegs A)..reg_count A - 1 + (f - NumIntRegs A)]"
    using map_at_ok(3) [OF assms] by (intro map_upto_shift) auto
  ultimately show ?thesis by (simp add: mapped_def reg_count_def algebra_simps)
qed

lemma init_maps_nth:
  "k < n \<Longrightarrow> i + n \<le> Suc act \<Longrightarrow> init_maps A npi npf act n i l f ! k =
     map_at A npi npf (int i + int k) (l + int k * NumIntRegs A) (f + int k * NumFloatRegs A)"
proof (induction n arbitrary: k i l f)
  case (Suc n)
  then show ?case by (cases k) (simp_all add: init_maps_Suc algebra_simps del: init_maps.simps)
qed simp

lemma length_init_maps [simp]: "length (init_maps A npi npf act n i l f) = n"
  by (induction n arbitrary: i l f) (simp_all add: rm_init_def Let_def)

lemma init_maps_live:
  assumes "regs_ok A" "i + n \<le> Suc act"
  shows "(\<Sum>m\<leftarrow>init_maps A npi npf act n i l f. mset (mapped A m)) =
    mset [l..l + int n * NumIntRegs A - 1] + mset [f..f + int n * NumFloatRegs A - 1]"
  using assms(2)
proof (induction n arbitrary: i l f)
  case (Suc n)
  have n: "0 \<le> NumIntRegs A" "0 \<le> NumFloatRegs A" "0 \<le> int n * NumIntRegs A" "0 \<le> int n * NumFloatRegs A"
    using assms(1) by (auto simp: regs_ok_def)
  have "[l..l + int (Suc n) * NumIntRegs A - 1] =
      [l..l + NumIntRegs A - 1] @ [l + NumIntRegs A..l + NumIntRegs A + int n * NumIntRegs A - 1]"
    using upto_append [of l "l + NumIntRegs A" "l + int (Suc n) * NumIntRegs A - 1"] n by (simp add: algebra_simps)
  moreover have "[f..f + int (Suc n) * NumFloatRegs A - 1] =
      [f..f + NumFloatRegs A - 1] @ [f + NumFloatRegs A..f + NumFloatRegs A + int n * NumFloatRegs A - 1]"
    using upto_append [of f "f + NumFloatRegs A" "f + int (Suc n) * NumFloatRegs A - 1"] n by (simp add: algebra_simps)
  ultimately show ?case using Suc by (simp add: init_maps_Suc mapped_map_at [OF assms(1)] del: init_maps.simps)
qed simp

lemma init_thread_ok:
  assumes A: "regs_ok A" and k: "int (Suc k) * NumIntRegs A \<le> npi" "int (Suc k) * NumFloatRegs A \<le> npf"
  shows "thread_ok A npi npf (map_at A npi npf i (int k * NumIntRegs A) (npi + int k * NumFloatRegs A)) []"
proof -
  let ?m = "map_at A npi npf i (int k * NumIntRegs A) (npi + int k * NumFloatRegs A)"
  have z: "0 \<le> ZeroReg A" "ZeroReg A < NumIntRegs A" "0 \<le> NumFloatRegs A" "is_alpha A \<Longrightarrow> ZeroReg A < NumFloatRegs A"
    "0 \<le> int k * NumIntRegs A" "0 \<le> int k * NumFloatRegs A"
    using A by (auto simp: regs_ok_def)
  have np: "0 \<le> npi" "0 \<le> npf"
    using k mult_nonneg_nonneg [of "int (Suc k)" "NumIntRegs A"] mult_nonneg_nonneg [of "int (Suc k)" "NumFloatRegs A"] z by linarith+
  have "0 \<le> phys ?m a \<and> phys ?m a < npi + npf \<and> usable A npi (phys ?m a)" if d: "dest_ok A a" "a < reg_count A" for a
  proof (cases "a < NumIntRegs A")
    case True
    have p: "phys ?m a = int k * NumIntRegs A + a" using map_at_ok(2) [OF A] True d by (simp add: dest_ok_def)
    have "phys ?m a \<noteq> ZeroReg A"
    proof (cases "k = 0")
      case k0: False
      then have "NumIntRegs A \<le> int k * NumIntRegs A" using z mult_right_mono [of 1 "int k" "NumIntRegs A"] by simp
      moreover have "0 \<le> a" using d by (simp add: dest_ok_def)
      ultimately show ?thesis unfolding p using z by linarith
    qed (use p d in \<open>simp add: dest_ok_def\<close>)
    then show ?thesis using p True d z k np by (auto simp: usable_def dest_ok_def algebra_simps)
  next
    case False
    have p: "phys ?m a = npi + int k * NumFloatRegs A + (a - NumIntRegs A)" using map_at_ok(3) [OF A] False d by simp
    have "phys ?m a \<noteq> ZeroReg A + npi" if al: "is_alpha A"
    proof (cases "k = 0")
      case k0: False
      then have "NumFloatRegs A \<le> int k * NumFloatRegs A" using z mult_right_mono [of 1 "int k" "NumFloatRegs A"] by simp
      then show ?thesis unfolding p using z(4) [OF al] False by linarith
    qed (use p d al in \<open>auto simp: dest_ok_def\<close>)
    moreover have "int k * NumFloatRegs A + NumFloatRegs A \<le> npf" "int k * NumIntRegs A + NumIntRegs A \<le> npi"
      using k by (simp_all add: algebra_simps)
    then have "npi \<le> phys ?m a" "phys ?m a < npi + npf" "NumIntRegs A \<le> npi"
      unfolding p using z(5,6) False d(2) by (simp_all only: reg_count_def)
    ultimately show ?thesis using z np by (auto simp: usable_def)
  qed
  then show ?thesis by (simp add: thread_ok_def)
qed

lemma rename_new_acct:
  assumes A: "regs_ok A" "0 \<le> NumMiscRegs A" "0 < n" "n \<le> Suc act" and new: "rename_new A npi npf n act = Inr s"
  shows "acct A npi npf s" "length (renameMap s) = n" "historyBuffer s = replicate n []"
proof -
  have k: "int n * NumIntRegs A \<le> npi" "int n * NumFloatRegs A \<le> npf" and
    s: "renameMap s = init_maps A npi npf act n 0 0 npi" "historyBuffer s = replicate n []" "maxPhysicalRegs s = npi + npf"
      "freeList s = SimpleFreeList_new (int n) (NumIntRegs A) npi (NumFloatRegs A) npf"
      "scoreboard s = Scoreboard_new (int n) (NumIntRegs A) npi (NumFloatRegs A) npf (NumMiscRegs A * int n) (ZeroReg A)"
    using new by (auto simp: rename_new_def)
  have z: "0 \<le> ZeroReg A" "ZeroReg A < NumIntRegs A" "0 \<le> NumFloatRegs A" "is_alpha A \<Longrightarrow> ZeroReg A < NumFloatRegs A"
    using A(1) by (auto simp: regs_ok_def)
  define I F where "I = int n * NumIntRegs A" and "F = int n * NumFloatRegs A"
  have n1: "NumIntRegs A \<le> I" "NumFloatRegs A \<le> F" "I \<le> npi" "F \<le> npf" "NumIntRegs A * int n = I" "NumFloatRegs A * int n = F"
    using A(3) z k mult_right_mono [of 1 "int n" "NumIntRegs A"] mult_right_mono [of 1 "int n" "NumFloatRegs A"]
    by (simp_all add: I_def F_def)
  have "NumMiscRegs A * 1 \<le> NumMiscRegs A * int n" using A(2,3) by (intro mult_left_mono) auto
  moreover have "NumMiscRegs A * int n * 1 \<le> NumMiscRegs A * int n * int n" using A(2,3) by (intro mult_left_mono) auto
  ultimately have misc: "NumMiscRegs A \<le> NumMiscRegs A * int n * int n" by simp
  have fl: "free_ok A npi npf (freeList s)"
    using n1 z by (auto simp: s(4) SimpleFreeList_new_def free_ok_def usable_def)
  have th: "map_ok A npi npf (renameMap s ! i)" "thread_ok A npi npf (renameMap s ! i) []" if i: "i < n" for i
  proof -
    have "int (Suc i) * NumIntRegs A \<le> int n * NumIntRegs A" "int (Suc i) * NumFloatRegs A \<le> int n * NumFloatRegs A"
      using i z by (auto intro!: mult_right_mono)
    then show "map_ok A npi npf (renameMap s ! i)" "thread_ok A npi npf (renameMap s ! i) []"
      using init_thread_ok [OF A(1), of i npi npf] map_at_ok(1) [OF A(1)] k init_maps_nth [OF i, of 0 act A npi npf 0 npi] A(4)
      by (simp_all add: s(1))
  qed
  then have "ren_ok A npi npf s"
    using A(1) fl n1 s by (auto simp: ren_ok_def in_set_conv_nth Scoreboard_new_def)
  moreover have "live A s = mset [0..npi + npf - 1]"
  proof -
    have "[0..npi + npf - 1] = [0..I - 1] @ [I..npi - 1] @ [npi..npi + F - 1] @ [npi + F..npi + npf - 1]"
      using upto_append [of 0 npi "npi + npf - 1"] upto_append [of 0 I "npi - 1"]
        upto_append [of npi "npi + F" "npi + npf - 1"] n1 z by simp
    moreover have "(\<Sum>hs\<leftarrow>replicate k []. mset (held (maxPhysicalRegs s) hs)) = {#}" for k
      by (induction k) (simp_all add: held_def)
    then have "(\<Sum>hs\<leftarrow>historyBuffer s. mset (held (maxPhysicalRegs s) hs)) = {#}" by (simp add: s(2))
    then have "live A s = mset [I..npi - 1] + mset [npi + F..npi + npf - 1] + (mset [0..I - 1] + mset [npi..npi + F - 1])"
      using init_maps_live [OF A(1), of 0 n act npi npf 0 npi, folded I_def F_def] A(4)
      by (simp add: live_def s(1,4) SimpleFreeList_new_def n1(5,6))
    ultimately show ?thesis by (simp add: ac_simps)
  qed
  moreover have "npi + npf + NumMiscRegs A \<le> int (length (regScoreBoard (scoreboard s)))"
    using n1 z misc by (simp add: s(5) Scoreboard_new_def)
  ultimately show "acct A npi npf s" using A(2) th s by (simp add: acct_def)
  show "length (renameMap s) = n" "historyBuffer s = replicate n []" using s by simp_all
qed

subsection \<open>Properties\<close>

fun rename_insts :: "isa_regs \<Rightarrow> (int \<Rightarrow> int) \<Rightarrow> int16 \<Rightarrow> (64 word \<times> int list) list \<Rightarrow> DefaultRename \<Rightarrow> DefaultRename res" where
  "rename_insts A fi t [] s = Inr s"
| "rename_insts A fi t (x # xs) s = bindR (renameDestRegs A fi t (fst x) (snd x) s) (\<lambda>(rs, s1). rename_insts A fi t xs s1)"

definition dests :: "isa_regs \<Rightarrow> (int \<Rightarrow> int) \<Rightarrow> (64 word \<times> int list) list \<Rightarrow> (64 word \<times> int) list" where
  "dests A fi xs = concat (map (\<lambda>x. map (\<lambda>d. (fst x, flat_dest A fi d)) (snd x)) xs)"

lemma run_steps_append:
  "run_steps step (xs @ ys) s = bindR (run_steps step xs s) (\<lambda>(rs, s1). bindR (run_steps step ys s1) (\<lambda>(rs', s2). Inr (rs' @ rs, s2)))"
  by (induction xs arbitrary: s) (auto simp: bindR_def split: sum.splits)

lemma renameDestRegs_run:
  "bindR (renameDestRegs A fi t sn ds s) (\<lambda>(rs, s1). Inr s1) =
   bindR (run_steps (rename_dest A t) (map (\<lambda>d. (sn, flat_dest A fi d)) ds) s) (\<lambda>(hs, s1). Inr s1)"
proof (induction ds arbitrary: s)
  case (Cons d ds)
  show ?case
  proof (cases "rename_dest A t (sn, flat_dest A fi d) s")
    case (Inr p)
    then show ?thesis using Cons.IH [of "snd p"] by (auto simp: bindR_def split: sum.splits prod.splits)
  qed simp
qed simp

lemma rename_insts_run:
  assumes "rename_insts A fi t xs s = Inr s1"
  shows "\<exists>hs. run_steps (rename_dest A t) (dests A fi xs) s = Inr (hs, s1)"
  using assms
proof (induction xs arbitrary: s)
  case Nil
  then show ?case by (simp add: dests_def)
next
  case (Cons x xs)
  then obtain rs s0 where s0: "renameDestRegs A fi t (fst x) (snd x) s = Inr (rs, s0)" "rename_insts A fi t xs s0 = Inr s1" by auto
  then obtain hs where "run_steps (rename_dest A t) (map (\<lambda>d. (fst x, flat_dest A fi d)) (snd x)) s = Inr (hs, s0)"
    using renameDestRegs_run [of A fi t "fst x" "snd x" s, symmetric] by auto
  then show ?case using Cons.IH [OF s0(2)] by (auto simp: dests_def run_steps_append)
qed

lemma run_history_buffer:
  assumes "run_steps (rename_dest A t) xs s = Inr (hs, s1)" "unat t < length (historyBuffer s)"
  shows "historyBuffer s1 = (historyBuffer s)[unat t := hs @ historyBuffer s ! unat t]"
  using assms
proof (induction xs arbitrary: s hs)
  case (Cons x xs)
  then obtain h s0 hs' where s0: "rename_dest A t x s = Inr (h, s0)" "run_steps (rename_dest A t) xs s0 = Inr (hs', s1)" "hs = hs' @ [h]"
    by auto
  have "historyBuffer s0 = (historyBuffer s)[unat t := h # historyBuffer s ! unat t]" using s0(1) by (auto elim: rename_destE)
  then show ?case using Cons.IH [OF s0(2)] s0(3) Cons.prems(2) by simp
qed simp

lemma doSquash_loop_undo:
  assumes "\<forall>h\<in>set new. sn < instSeqNum h" "\<forall>h\<in>set old. instSeqNum h \<le> sn"
  shows "doSquash_loop A sn t (new @ old) s = bindR (undo_all (undo_rename A t) new s) (\<lambda>s'. Inr (old, s'))"
  using assms(1)
proof (induction new arbitrary: s)
  case Nil
  then show ?case using assms(2) by (cases old) auto
next
  case (Cons h new)
  then show ?case by (auto simp: bindR_def split: sum.splits)
qed

lemma undo_all_history: "undo_all (undo_rename A t) hs s = Inr s' \<Longrightarrow> historyBuffer s' = historyBuffer s"
  by (induction hs arbitrary: s) (auto simp: undo_rename_def Let_def)

text \<open>
  C26: Squashing undoes renaming. If a thread renames the destination registers of any list of
  instructions younger than a sequence number, its earlier history being at most that old, then
  squashing back to the number returns and restores the rename map and the history of the
  thread; the integer and the floating-point free list hold the same registers as before, in
  a possibly different order.
\<close>

theorem renaming_undone:
  assumes "ren_ok A npi npf s" "unat t < length (renameMap s)" "rename_insts A fi t xs s = Inr s1"
    and "\<forall>h\<in>set (historyBuffer s ! unat t). instSeqNum h \<le> sn" "\<forall>x\<in>set xs. sn < fst x"
  shows "\<exists>s2. doSquash A sn t s1 = Inr s2 \<and> renameMap s2 = renameMap s \<and> historyBuffer s2 = historyBuffer s \<and>
    mset (freeIntRegs (freeList s2)) = mset (freeIntRegs (freeList s)) \<and>
    mset (freeFloatRegs (freeList s2)) = mset (freeFloatRegs (freeList s))"
proof -
  let ?old = "historyBuffer s ! unat t"
  have l: "unat t < length (historyBuffer s)" using assms(1,2) by (simp add: ren_ok_def)
  obtain hs where hs: "run_steps (rename_dest A t) (dests A fi xs) s = Inr (hs, s1)" using rename_insts_run [OF assms(3)] by blast
  obtain s2 where s2: "undo_all (undo_rename A t) hs s1 = Inr s2" "ren_restored s s2"
    using rename_log.undo_run_all [OF assms(1) hs] by blast
  have h: "historyBuffer s1 = (historyBuffer s)[unat t := hs @ ?old]" by (rule run_history_buffer [OF hs l])
  have "list_all2 (\<lambda>x h. instSeqNum h = fst x \<and> archReg h = snd x) (rev (dests A fi xs)) hs"
    using rename_log.run_keeps [OF assms(1) hs] by blast
  moreover have "\<forall>x\<in>set (rev (dests A fi xs)). sn < fst x" using assms(5) by (auto simp: dests_def)
  ultimately have "\<forall>h\<in>set hs. sn < instSeqNum h" by (induction rule: list_all2_induct) auto
  then have loop: "doSquash_loop A sn t (hs @ ?old) s1 = Inr (?old, s2)" using s2(1) doSquash_loop_undo [OF _ assms(4)] by simp
  show ?thesis
  proof (cases "hs @ ?old = []")
    case True
    then have "doSquash A sn t s1 = Inr s1" "historyBuffer s1 = historyBuffer s" "s2 = s1"
      using h l s2(1) list_update_id [of "historyBuffer s" "unat t"] by (auto simp: doSquash_def)
    then show ?thesis using s2(2) by (simp add: ren_restored_def same_free_def)
  next
    case False
    then have "doSquash A sn t s1 = Inr (s2\<lparr>historyBuffer := historyBuffer s\<rparr>)"
      using h l loop undo_all_history [OF s2(1)] by (auto simp: doSquash_def)
    then show ?thesis using s2(2) by (simp add: ren_restored_def same_free_def)
  qed
qed

text \<open>A small register file, on which the properties are evaluated.\<close>

definition small_regs :: isa_regs where
  "small_regs = \<lparr>ZeroReg = 0, is_alpha = False, FP_Base_DepTag = 3, Ctrl_Base_DepTag = 5, NumIntRegs = 3, NumFloatRegs = 2,
     NumMiscRegs = 1\<rparr>"

lemma small_regs_ok: "regs_ok small_regs" "0 \<le> NumMiscRegs small_regs"
  by (simp_all add: regs_ok_def small_regs_def)

theorem renaming_undone_witness:
  "\<exists>s s1 s2. rename_new small_regs 6 4 1 1 = Inr s \<and> rename_insts small_regs id 0 [(5, [1, 3]), (6, [1])] s = Inr s1 \<and>
     doSquash small_regs 4 0 s1 = Inr s2 \<and> renameMap s2 = renameMap s \<and>
     mset (freeIntRegs (freeList s2)) = mset (freeIntRegs (freeList s))"
proof -
  have "\<not> isl (bindR (rename_new small_regs 6 4 1 1) (rename_insts small_regs id 0 [(5, [1, 3]), (6, [1])]))" by code_simp
  then obtain s s1 where s: "rename_new small_regs 6 4 1 1 = Inr s" "rename_insts small_regs id 0 [(5, [1, 3]), (6, [1])] s = Inr s1"
    by (auto simp: bindR_def split: sum.splits elim!: sum.collapse)
  note a = rename_new_acct [OF small_regs_ok _ _ s(1)]
  show ?thesis using renaming_undone [OF acctD(1) [OF a(1)] _ s(2), of 4] a(2,3) s by auto
qed

text \<open>
  C25: No physical register is lost or given out twice. The initial state of a CPU is given in
  which at most one thread has no workload and the register numbers fit into the short integers
  of the code. From it, any sequence of renamings of registers other than the zero registers,
  squashes and commits by any threads either stops because no register is free or leaves every
  physical register in exactly one place: a free list, the rename map of one thread, or the
  previous mapping held by one history entry.
\<close>

theorem registers_conserved:
  assumes "regs_ok A" "0 \<le> NumMiscRegs A" "0 < n" "n \<le> Suc active" "rename_new A npi npf n active = Inr s"
    "npi + npf + NumMiscRegs A < 2 ^ 15" "\<forall>x\<in>set ops. ren_op_ok A n x"
  shows "(\<exists>s'. ren_run A ops s = Inr s' \<and> live A s' = mset [0..npi + npf - 1]) \<or>
    ren_run A ops s = Inl (Panic ''No free integer registers!'')"
proof -
  note a = rename_new_acct [OF assms(1-5)]
  show ?thesis using ren_run_acct [OF a(1), of ops] assms(7) a(2) by (auto simp: acct_def)
qed

theorem registers_conserved_witness:
  "\<exists>s s'. rename_new small_regs 8 5 2 2 = Inr s \<and>
     ren_run small_regs [RenRename 0 5 1, RenRename 1 6 4, RenRename 0 7 5, RenSquash 0 6, RenCommit 1 6, RenRename 1 8 2] s = Inr s' \<and>
     live small_regs s' = mset [0..12]"
proof -
  let ?ops = "[RenRename 0 5 1, RenRename 1 6 4, RenRename 0 7 5, RenSquash 0 6, RenCommit 1 6, RenRename 1 8 2]"
  have "\<not> isl (bindR (rename_new small_regs 8 5 2 2) (ren_run small_regs ?ops))" by code_simp
  then obtain s s' where s: "rename_new small_regs 8 5 2 2 = Inr s" "ren_run small_regs ?ops s = Inr s'"
    by (auto simp: bindR_def split: sum.splits elim!: sum.collapse)
  have ok: "\<forall>x\<in>set ?ops. ren_op_ok small_regs 2 x" by (simp add: dest_ok_def reg_count_def small_regs_def)
  have "live small_regs s' = mset [0..12]" using registers_conserved [OF small_regs_ok _ _ s(1) _ ok] unfolding s(2) by (simp add: small_regs_def)
  then show ?thesis using s by blast
qed

end
