(* ===== verification/Timing_Port.thy ===== *)
theory Timing_Port
  imports Simulate Physical_Memory "HOL-Library.Multiset"
begin

section \<open>The timing port of a memory\<close>

text \<open>
  Model of \<^verbatim>\<open>src/src/mem/tport.hh\<close> and \<^verbatim>\<open>src/src/mem/tport.cc\<close>, and of the port of the physical memory
  in \<^verbatim>\<open>src/src/mem/physical.cc\<close>. A port answers a timing access by an atomic access and
  keeps the response in a list until its time; an event of the event queue sends the first packet
  of the list to the peer. A peer that is busy refuses the packet and asks for it again later.

  The peer's \<open>recvTiming\<close>, the owner's \<open>recvAtomic\<close> and the processing of the drain event are virtual
  and arguments here; so is the number of ticks in a millisecond. The port, the event queue, the
  packets and the memory form one state, since a peer may call the port back while it receives
  a packet.

  The theorems describe the port as a transition system: no assertion of the port fails, the
  packets leave in the order of their times and, for equal times, in the order in
  which they were handed over, and a timing read delivers the bytes of the memory.
\<close>

subsection \<open>State and construction\<close>

record deferred_packet =
  dp_tick :: tick
  dp_pkt :: nat

record timing_port =
  transmitList :: "deferred_packet list"
  sendEvent :: nat
  drainEvent :: "nat option"
  waitingOnRetry :: bool

record tsys =
  ts_port :: timing_port
  ts_evq :: evq
  ts_pkts :: "nat \<Rightarrow> packet option"
  ts_mem :: pmsys

definition SimpleTimingPort_new :: "nat \<Rightarrow> evq \<Rightarrow> (timing_port \<times> evq) comp" where
  "SimpleTimingPort_new p q = bindC (new_at p (new_event Default_Pri) q) (\<lambda>q1.
     ret (\<lparr>transmitList = [], sendEvent = p, drainEvent = None, waitingOnRetry = False\<rparr>, q1))"

definition SimpleTimingPort_delete :: "timing_port \<Rightarrow> evq \<Rightarrow> evq comp" where
  "SimpleTimingPort_delete tp q = delete_event (sendEvent tp) q"

definition set_list :: "deferred_packet list \<Rightarrow> tsys \<Rightarrow> tsys" where
  "set_list L s = s\<lparr>ts_port := (ts_port s)\<lparr>transmitList := L\<rparr>\<rparr>"

definition ts_pkt :: "nat \<Rightarrow> tsys \<Rightarrow> packet res" where
  "ts_pkt p s = (case ts_pkts s p of None \<Rightarrow> Inl BadPtr | Some x \<Rightarrow> Inr x)"

definition delete_pkt :: "nat \<Rightarrow> tsys \<Rightarrow> tsys res" where
  "delete_pkt p s = bindR (ts_pkt p s) (\<lambda>x.
     bindR (Packet_delete x (pm_reqs (ts_mem s)) (pm_bufs (ts_mem s))) (\<lambda>(rs, m).
     Inr (s\<lparr>ts_pkts := (ts_pkts s)(p := None), ts_mem := (ts_mem s)\<lparr>pm_reqs := rs, pm_bufs := m\<rparr>\<rparr>)))"

subsection \<open>The list of deferred packets\<close>

definition deferredPacketReady :: "tsys \<Rightarrow> bool" where
  "deferredPacketReady s \<longleftrightarrow> transmitList (ts_port s) \<noteq> [] \<and>
     dp_tick (hd (transmitList (ts_port s))) \<le>s curTick (ts_evq s)"

definition deferredPacketReadyTime :: "tsys \<Rightarrow> tick" where
  "deferredPacketReadyTime s = (if transmitList (ts_port s) = [] then MaxTick
     else dp_tick (hd (transmitList (ts_port s))))"

definition schedSendEvent :: "tick \<Rightarrow> tsys \<Rightarrow> tsys comp" where
  "schedSendEvent when s = (let ev = sendEvent (ts_port s) in bindC (deref (ts_evq s) ev) (\<lambda>e.
     if waitingOnRetry (ts_port s)
     then if scheduled e then fail (Assert ''!sendEvent->scheduled()'') else ret s
     else if \<not> scheduled e then bindC (schedule ev when (ts_evq s)) (\<lambda>q. ret (s\<lparr>ts_evq := q\<rparr>))
     else if when <s e_when e then bindC (reschedule ev when False (ts_evq s)) (\<lambda>q. ret (s\<lparr>ts_evq := q\<rparr>))
     else ret s))"

fun insert_deferred :: "deferred_packet \<Rightarrow> deferred_packet list \<Rightarrow> deferred_packet list option" where
  "insert_deferred d [] = None"
| "insert_deferred d (x # xs) = (if dp_tick d <s dp_tick x then Some (d # x # xs)
     else map_option (Cons x) (insert_deferred d xs))"

definition schedSendTiming :: "tick \<Rightarrow> nat \<Rightarrow> tick \<Rightarrow> tsys \<Rightarrow> tsys comp" where
  "schedSendTiming ms p when s =
     (let L = transmitList (ts_port s); d = \<lparr>dp_tick = when, dp_pkt = p\<rparr> in
      if \<not> curTick (ts_evq s) <s when then fail (Assert ''when > curTick'')
      else if \<not> when <s curTick (ts_evq s) + ms then fail (Assert ''when < curTick + SimClock::Int::ms'')
      else if L = [] \<or> when <s dp_tick (hd L) then schedSendEvent when (set_list (d # L) s)
      else if dp_tick (last L) \<le>s when then ret (set_list (L @ [d]) s)
      else (case insert_deferred d (tl L) of
              None \<Rightarrow> fail (Assert ''false'')
            | Some xs \<Rightarrow> ret (set_list (hd L # xs) s)))"

definition sent_ok :: "(nat \<Rightarrow> tsys \<Rightarrow> tsys comp) \<Rightarrow> tsys \<Rightarrow> tsys comp" where
  "sent_ok drained s =
     (let ev = sendEvent (ts_port s); now = curTick (ts_evq s) in
      bindC (case transmitList (ts_port s) of [] \<Rightarrow> ret s
        | d # _ \<Rightarrow> bindC (deref (ts_evq s) ev) (\<lambda>e.
            if scheduled e then ret s
            else bindC (schedule ev (if dp_tick d \<le>s now then now + 1 else dp_tick d) (ts_evq s)) (\<lambda>q.
              ret (s\<lparr>ts_evq := q\<rparr>)))) (\<lambda>s1.
      if transmitList (ts_port s1) = [] then
        (case drainEvent (ts_port s1) of None \<Rightarrow> ret s1
         | Some de \<Rightarrow> bindC (drained de s1) (\<lambda>s2. ret (s2\<lparr>ts_port := (ts_port s2)\<lparr>drainEvent := None\<rparr>\<rparr>)))
      else ret s1))"

definition sendDeferredPacket ::
  "(nat \<Rightarrow> tsys \<Rightarrow> (bool \<times> tsys) comp) \<Rightarrow> (nat \<Rightarrow> tsys \<Rightarrow> tsys comp) \<Rightarrow> tsys \<Rightarrow> tsys comp" where
  "sendDeferredPacket peer drained s =
     (if \<not> deferredPacketReady s then fail (Assert ''deferredPacketReady()'')
      else let dp = hd (transmitList (ts_port s)) in
        bindC (peer (dp_pkt dp) (set_list (tl (transmitList (ts_port s))) s)) (\<lambda>(success, s1).
        bindC (if success then sent_ok drained s1
               else bindC (deref (ts_evq s1) (sendEvent (ts_port s1))) (\<lambda>e.
                 if scheduled e then fail (Assert ''!sendEvent->scheduled()'')
                 else ret (set_list (dp # transmitList (ts_port s1)) s1))) (\<lambda>s2.
        ret (s2\<lparr>ts_port := (ts_port s2)\<lparr>waitingOnRetry := \<not> success\<rparr>\<rparr>))))"

definition recvRetry ::
  "(nat \<Rightarrow> tsys \<Rightarrow> (bool \<times> tsys) comp) \<Rightarrow> (nat \<Rightarrow> tsys \<Rightarrow> tsys comp) \<Rightarrow> tsys \<Rightarrow> tsys comp" where
  "recvRetry peer drained s = (if \<not> waitingOnRetry (ts_port s) then fail (Assert ''waitingOnRetry'')
     else sendDeferredPacket peer drained s)"

definition processSendEvent ::
  "(nat \<Rightarrow> tsys \<Rightarrow> (bool \<times> tsys) comp) \<Rightarrow> (nat \<Rightarrow> tsys \<Rightarrow> tsys comp) \<Rightarrow> tsys \<Rightarrow> tsys comp" where
  "processSendEvent peer drained s = (if waitingOnRetry (ts_port s) then fail (Assert ''!waitingOnRetry'')
     else sendDeferredPacket peer drained s)"

definition tp_drain :: "nat option \<Rightarrow> tsys \<Rightarrow> 32 word \<times> tsys" where
  "tp_drain de s = (if transmitList (ts_port s) = [] then (0, s)
     else (1, s\<lparr>ts_port := (ts_port s)\<lparr>drainEvent := de\<rparr>\<rparr>))"

subsection \<open>Accesses from the peer\<close>

fun tp_checkFunctional :: "(packet \<Rightarrow> printable) \<Rightarrow> deferred_packet list \<Rightarrow> nat \<Rightarrow> tsys \<Rightarrow> print_req option \<Rightarrow>
    (bool \<times> tsys \<times> print_req option) res" where
  "tp_checkFunctional obj [] p s prs = Inr (False, s, prs)"
| "tp_checkFunctional obj (d # ds) p s prs = bindR (ts_pkt p s) (\<lambda>pkt. bindR (ts_pkt (dp_pkt d) s) (\<lambda>target.
     bindR (checkFunctional_pkt (obj target) target pkt (pm_bufs (ts_mem s)) prs) (\<lambda>(done, pkt', m, prs').
     let s1 = s\<lparr>ts_pkts := (ts_pkts s)(p \<mapsto> pkt'), ts_mem := (ts_mem s)\<lparr>pm_bufs := m\<rparr>\<rparr> in
     if done then Inr (True, s1, prs') else tp_checkFunctional obj ds p s1 prs')))"

definition recvFunctional :: "(nat \<Rightarrow> tsys \<Rightarrow> (tick \<times> tsys) comp) \<Rightarrow> (packet \<Rightarrow> printable) \<Rightarrow> nat \<Rightarrow> tsys \<Rightarrow>
    print_req option \<Rightarrow> (tsys \<times> print_req option) comp" where
  "recvFunctional recvAtomic obj p s prs =
     bindC (liftC (tp_checkFunctional obj (transmitList (ts_port s)) p s prs)) (\<lambda>(done, s1, prs1).
     if done then ret (s1, prs1) else bindC (recvAtomic p s1) (\<lambda>(_, s2). ret (s2, prs1)))"

definition recvTiming :: "(nat \<Rightarrow> tsys \<Rightarrow> (tick \<times> tsys) comp) \<Rightarrow> tick \<Rightarrow> nat \<Rightarrow> tsys \<Rightarrow> (bool \<times> tsys) comp" where
  "recvTiming recvAtomic ms p s = bindC (liftC (ts_pkt p s)) (\<lambda>pkt.
     if memInhibitAsserted pkt then bindC (liftC (delete_pkt p s)) (\<lambda>s1. ret (True, s1))
     else bindC (recvAtomic p s) (\<lambda>(latency, s1).
       if needsResponse (pk_cmd pkt) then bindC (liftC (ts_pkt p s1)) (\<lambda>pkt1.
         if \<not> isResponse (pk_cmd pkt1) then fail (Assert ''pkt->isResponse()'')
         else bindC (schedSendTiming ms p (curTick (ts_evq s1) + latency) s1) (\<lambda>s2. ret (True, s2)))
       else bindC (liftC (delete_pkt p s1)) (\<lambda>s2. ret (True, s2))))"

definition mem_recvAtomic :: "nat \<Rightarrow> bool \<Rightarrow> (tick \<Rightarrow> tick \<Rightarrow> tick) \<Rightarrow> nat \<Rightarrow> tsys \<Rightarrow> (tick \<times> tsys) comp" where
  "mem_recvAtomic intRegBytes be rnd p s = liftC (bindR (ts_pkt p s) (\<lambda>pkt.
     bindR (doAtomicAccess intRegBytes be rnd pkt (ts_mem s)) (\<lambda>(lat, pkt', m).
     Inr (lat, s\<lparr>ts_pkts := (ts_pkts s)(p \<mapsto> pkt'), ts_mem := m\<rparr>))))"

definition mem_recvFunctional :: "(uint8 \<Rightarrow> string) \<Rightarrow> string \<Rightarrow> (packet \<Rightarrow> printable) \<Rightarrow> nat \<Rightarrow> tsys \<Rightarrow>
    print_req option \<Rightarrow> (tsys \<times> print_req option) res" where
  "mem_recvFunctional fmt name obj p s prs = bindR (ts_pkt p s) (\<lambda>pkt.
     bindR (pk_pushLabel name pkt prs) (\<lambda>prs1.
     bindR (tp_checkFunctional obj (transmitList (ts_port s)) p s prs1) (\<lambda>(done, s1, prs2).
     bindR (if done then Inr (s1, prs2)
            else bindR (ts_pkt p s1) (\<lambda>pkt1. bindR (doFunctionalAccess fmt pkt1 (ts_mem s1) prs2) (\<lambda>(pkt2, m, prs3).
              Inr (s1\<lparr>ts_pkts := (ts_pkts s1)(p \<mapsto> pkt2), ts_mem := m\<rparr>, prs3)))) (\<lambda>(s2, prs4).
     bindR (ts_pkt p s2) (\<lambda>pkt3. bindR (pk_popLabel pkt3 prs4) (\<lambda>prs5. Inr (s2, prs5)))))))"

subsection \<open>The list is sorted\<close>

abbreviation dp_time :: "deferred_packet \<Rightarrow> int" where
  "dp_time d \<equiv> sint (dp_tick d)"

definition enq_sorted :: "deferred_packet \<Rightarrow> deferred_packet list \<Rightarrow> deferred_packet list" where
  "enq_sorted d L = takeWhile (\<lambda>x. dp_time x \<le> dp_time d) L @ d # dropWhile (\<lambda>x. dp_time x \<le> dp_time d) L"

lemma mset_enq_sorted: "mset (enq_sorted d L) = add_mset d (mset L)"
proof -
  have "mset (enq_sorted d L) = add_mset d (mset (takeWhile (\<lambda>x. dp_time x \<le> dp_time d) L @ dropWhile (\<lambda>x. dp_time x \<le> dp_time d) L))"
    by (simp add: enq_sorted_def del: takeWhile_dropWhile_id)
  then show ?thesis by (simp only: takeWhile_dropWhile_id)
qed

lemma enq_sorted_Cons: "enq_sorted d (x # xs) = (if dp_time d < dp_time x then d # x # xs else x # enq_sorted d xs)"
  by (simp add: enq_sorted_def)

lemma enq_sorted_Nil [simp]: "enq_sorted d [] = [d]"
  by (simp add: enq_sorted_def)

lemma set_enq_sorted [simp]: "set (enq_sorted d L) = insert d (set L)"
  using mset_enq_sorted [of d L] by (metis set_mset_add_mset_insert set_mset_mset)

lemma sorted_enq: "sorted (map dp_time L) \<Longrightarrow> sorted (map dp_time (enq_sorted d L))"
  by (induction L) (auto simp: enq_sorted_Cons)

lemma enq_sorted_append: "\<forall>x \<in> set D. dp_time x \<le> dp_time d \<Longrightarrow> enq_sorted d (D @ L) = D @ enq_sorted d L"
  by (induction D) (auto simp: enq_sorted_Cons)

lemma sorted_le_last: "sorted (map dp_time L) \<Longrightarrow> x \<in> set L \<Longrightarrow> dp_time x \<le> dp_time (last L)"
  by (induction L) auto

lemma enq_sorted_last:
  assumes "sorted (map dp_time L)" "dp_time (last L) \<le> dp_time d"
  shows "enq_sorted d L = L @ [d]"
  using enq_sorted_append [of L d "[]"] sorted_le_last [OF assms(1)] assms(2) by force

lemma enq_sorted_middle: "L \<noteq> [] \<Longrightarrow> sorted (map dp_time L) \<Longrightarrow> dp_time d < dp_time (last L) \<Longrightarrow>
  insert_deferred d L = Some (enq_sorted d L)"
  by (induction L) (auto simp: enq_sorted_Cons word_sless_alt split: if_splits)

lemma enq_sorted_hd: "hd (enq_sorted d L) = (if L = [] \<or> dp_time d < dp_time (hd L) then d else hd L)"
  by (cases L) (auto simp: enq_sorted_Cons)

lemma sort_snoc: "sort_key dp_time (xs @ [d]) = enq_sorted d (sort_key dp_time xs)"
proof (rule properties_for_sort_key)
  show "mset (enq_sorted d (sort_key dp_time xs)) = mset (xs @ [d])" by (simp add: mset_enq_sorted)
  show "sorted (map dp_time (enq_sorted d (sort_key dp_time xs)))" by (simp add: sorted_enq)
  have same: "filter (\<lambda>x. dp_time x = k) (enq_sorted d L) = filter (\<lambda>x. dp_time x = k) L @ filter (\<lambda>x. dp_time x = k) [d]"
    if "sorted (map dp_time L)" for L k
    using that
  proof (induction L)
    case (Cons a L)
    have "filter (\<lambda>x. dp_time x = dp_time d) L = []" if "dp_time d < dp_time a"
      using that Cons.prems by (auto simp: filter_empty_conv)
    with Cons show ?case by (auto simp: enq_sorted_Cons)
  qed simp
  have flip: "(\<lambda>x. dp_time k = dp_time x) = (\<lambda>x. dp_time x = dp_time k)" for k by auto
  show "filter (\<lambda>x. dp_time k = dp_time x) (enq_sorted d (sort_key dp_time xs)) = filter (\<lambda>x. dp_time k = dp_time x) (xs @ [d])" for k
    unfolding flip using same [of "sort_key dp_time xs" "dp_time k"] by (simp add: sort_key_stable)
qed

subsection \<open>The send event\<close>

definition send_live :: "tsys \<Rightarrow> event \<Rightarrow> (nat \<times> int \<times> int) list \<Rightarrow> bool" where
  "send_live s e xs \<longleftrightarrow> agenda (ts_evq s) xs \<and> heap (ts_evq s) (sendEvent (ts_port s)) = Some e \<and> initialized e \<and>
     (scheduled e \<longleftrightarrow> sendEvent (ts_port s) \<in> fst ` set xs)"

definition time_ok :: "tick \<Rightarrow> bool" where
  "time_ok t \<longleftrightarrow> 0 \<le>s t \<and> t <s MaxTick"

definition port_mid :: "tsys \<Rightarrow> event \<Rightarrow> (nat \<times> int \<times> int) list \<Rightarrow> bool" where
  "port_mid s e xs \<longleftrightarrow> send_live s e xs \<and> time_ok (curTick (ts_evq s)) \<and>
     (let L = transmitList (ts_port s); now = sint (curTick (ts_evq s)) in sorted (map dp_time L) \<and>
       (scheduled e \<longrightarrow> \<not> waitingOnRetry (ts_port s) \<and> L \<noteq> [] \<and> now \<le> sint (e_when e) \<and>
          dp_time (hd L) \<le> sint (e_when e) \<and> sint (e_when e) \<le> max (dp_time (hd L)) (now + 1)))"

definition port_ok :: "tsys \<Rightarrow> bool" where
  "port_ok s \<longleftrightarrow> (\<exists>e xs. port_mid s e xs \<and> (let L = transmitList (ts_port s) in
     if waitingOnRetry (ts_port s) then L \<noteq> [] \<and> dp_time (hd L) \<le> sint (curTick (ts_evq s))
     else L \<noteq> [] \<longrightarrow> scheduled e))"

definition port_frame :: "tsys \<Rightarrow> deferred_packet list \<Rightarrow> tsys \<Rightarrow> bool" where
  "port_frame s L s' \<longleftrightarrow> (\<exists>q. s' = (set_list L s)\<lparr>ts_evq := q\<rparr> \<and> curTick q = curTick (ts_evq s))"

lemma set_list_simps [simp]:
  "ts_evq (set_list L s) = ts_evq s" "ts_pkts (set_list L s) = ts_pkts s" "ts_mem (set_list L s) = ts_mem s"
  "ts_port (set_list L s) = (ts_port s)\<lparr>transmitList := L\<rparr>" "set_list L (set_list L' s) = set_list L s"
  "set_list L (s\<lparr>ts_evq := q\<rparr>) = (set_list L s)\<lparr>ts_evq := q\<rparr>"
  by (simp_all add: set_list_def)

lemma set_list_same [simp]: "set_list (transmitList (ts_port s)) s = s"
  by (simp add: set_list_def)

lemma port_frameD:
  assumes "port_frame s L s'"
  shows "transmitList (ts_port s') = L" "sendEvent (ts_port s') = sendEvent (ts_port s)"
    "waitingOnRetry (ts_port s') = waitingOnRetry (ts_port s)" "drainEvent (ts_port s') = drainEvent (ts_port s)"
    "ts_pkts s' = ts_pkts s" "ts_mem s' = ts_mem s" "curTick (ts_evq s') = curTick (ts_evq s)"
  using assms by (auto simp: port_frame_def)

lemma port_frame_trans: "port_frame s L s' \<Longrightarrow> port_frame s' L' s'' \<Longrightarrow> port_frame s L' s''"
  by (auto simp: port_frame_def)

lemma port_frame_set [simp]: "port_frame s L (set_list L s)"
  unfolding port_frame_def by (rule exI [of _ "ts_evq s"]) (simp add: set_list_def)

lemma time_ok_sint: "time_ok t \<longleftrightarrow> 0 \<le> sint t \<and> sint t < 2 ^ 63 - 1"
  by (simp add: time_ok_def word_sle_eq word_sless_alt MaxTick_def)

lemma time_ok_next: "time_ok t \<Longrightarrow> sint (t + 1) = sint t + 1"
proof -
  assume "time_ok t"
  then have t: "0 \<le> sint t" "sint t < 2 ^ 63 - 1" by (simp_all add: time_ok_sint)
  have "sint (word_of_int (sint t + 1) :: tick) = signed_take_bit 63 (sint t + 1)" by (simp only: sint_sbintrunc') simp
  with t show ?thesis by (simp add: signed_take_bit_int_eq_self)
qed

lemma unsigned_le: "0 \<le> sint (a :: tick) \<Longrightarrow> sint a \<le> sint b \<Longrightarrow> a \<le> b"
  using uint_nonneg_signed [of a] uint_nonneg_signed [of b] by (simp add: word_le_def word_sle_eq)

lemma in_agenda_insort: "ev \<in> fst ` set (insort_key snd (ev, k) xs)"
  by (simp add: set_insort_key)

lemma send_live_new:
  assumes "agenda q (insort_key snd (sendEvent (ts_port s), k) ys)" "curTick q = curTick (ts_evq s)"
    and "heap q (sendEvent (ts_port s)) = Some e'"
  shows "send_live (s\<lparr>ts_evq := q\<rparr>) e' (insort_key snd (sendEvent (ts_port s), k) ys) \<and> scheduled e'"
proof -
  have "(sendEvent (ts_port s), k) \<in> set (insort_key snd (sendEvent (ts_port s), k) ys)" by (simp add: set_insort_key)
  from agenda_event [OF assms(1) this] assms(3) have "scheduled e'" "initialized e'" by auto
  with assms in_agenda_insort show ?thesis by (simp add: send_live_def)
qed

lemma schedule_send:
  assumes l: "send_live s e xs" and n: "\<not> scheduled e" and t: "0 \<le> sint (curTick (ts_evq s))" "sint (curTick (ts_evq s)) \<le> sint when"
  shows "\<exists>q e' ys. schedule (sendEvent (ts_port s)) when (ts_evq s) = ret q \<and> curTick q = curTick (ts_evq s) \<and>
    send_live (s\<lparr>ts_evq := q\<rparr>) e' ys \<and> scheduled e' \<and> e_when e' = when"
proof -
  have a: "agenda (ts_evq s) xs" "heap (ts_evq s) (sendEvent (ts_port s)) = Some e" "initialized e"
    using l by (simp_all add: send_live_def)
  obtain q e' where q: "schedule (sendEvent (ts_port s)) when (ts_evq s) = ret q" "heap q (sendEvent (ts_port s)) = Some e'"
    "ev_data e' = (when, e_priority e, sched_flags (isMain (ts_evq s)) (e_flags e))" "others (sendEvent (ts_port s)) (ts_evq s) q"
    "agenda q (insort_key snd (sendEvent (ts_port s), sint when, sint (e_priority e)) xs)"
    using schedule_agenda [OF a(1,2) n a(3) unsigned_le [OF t]] by blast
  moreover have "curTick q = curTick (ts_evq s)" using q(4) by (simp add: others_def)
  ultimately show ?thesis
    using send_live_new [OF q(5) _ q(2)] by (intro exI [of _ q] exI [of _ e'] exI) (auto simp: ev_data_def)
qed

lemma reschedule_send:
  assumes l: "send_live s e xs" and n: "scheduled e" and t: "sint (curTick (ts_evq s)) \<le> sint when"
  shows "\<exists>q e' ys. reschedule (sendEvent (ts_port s)) when False (ts_evq s) = ret q \<and> curTick q = curTick (ts_evq s) \<and>
    send_live (s\<lparr>ts_evq := q\<rparr>) e' ys \<and> scheduled e' \<and> e_when e' = when"
proof -
  have a: "agenda (ts_evq s) xs" "heap (ts_evq s) (sendEvent (ts_port s)) = Some e" "initialized e"
    "scheduled e \<longleftrightarrow> sendEvent (ts_port s) \<in> fst ` set xs" "False \<or> scheduled e" "curTick (ts_evq s) \<le>s when"
    using l n t by (simp_all add: send_live_def word_sle_eq)
  obtain q e' where q: "reschedule (sendEvent (ts_port s)) when False (ts_evq s) = ret q" "heap q (sendEvent (ts_port s)) = Some e'"
    "ev_data e' = (when, e_priority e, resched_flags (isMain (ts_evq s)) (e_flags e))" "others (sendEvent (ts_port s)) (ts_evq s) q"
    "agenda q (insort_key snd (sendEvent (ts_port s), sint when, sint (e_priority e)) (filter (\<lambda>x. fst x \<noteq> sendEvent (ts_port s)) xs))"
    using reschedule_agenda [OF a] by blast
  moreover have "curTick q = curTick (ts_evq s)" using q(4) by (simp add: others_def)
  ultimately show ?thesis
    using send_live_new [OF q(5) _ q(2)] by (intro exI [of _ q] exI [of _ e'] exI) (auto simp: ev_data_def)
qed

subsection \<open>Handing over a packet\<close>

definition in_window :: "tick \<Rightarrow> tsys \<Rightarrow> tick \<Rightarrow> bool" where
  "in_window ms s t \<longleftrightarrow> curTick (ts_evq s) <s t \<and> t <s curTick (ts_evq s) + ms"

lemma schedSendEvent_mid:
  assumes l: "send_live s e xs" and now: "time_ok (curTick (ts_evq s))"
    and L: "L = transmitList (ts_port s)" "sorted (map dp_time L)" "L \<noteq> []" "dp_tick (hd L) = when"
    and t: "sint (curTick (ts_evq s)) < sint when" and e: "scheduled e \<Longrightarrow> \<not> waitingOnRetry (ts_port s) \<and> sint when < sint (e_when e)"
  shows "\<exists>s' e' ys. schedSendEvent when s = ret s' \<and> port_frame s L s' \<and> port_mid s' e' ys \<and>
    (\<not> waitingOnRetry (ts_port s) \<longrightarrow> scheduled e')"
proof -
  let ?ev = "sendEvent (ts_port s)"
  have h: "heap (ts_evq s) ?ev = Some e" using l by (simp add: send_live_def)
  have now0: "0 \<le> sint (curTick (ts_evq s))" using now by (simp add: time_ok_sint)
  have fin: "port_frame s L (s\<lparr>ts_evq := q\<rparr>) \<and> port_mid (s\<lparr>ts_evq := q\<rparr>) e' ys"
    if "curTick q = curTick (ts_evq s)" "send_live (s\<lparr>ts_evq := q\<rparr>) e' ys" "e_when e' = when" "\<not> waitingOnRetry (ts_port s)"
    for q e' ys
    using that now L t by (auto simp: port_mid_def port_frame_def L(1))
  show ?thesis
  proof (cases "waitingOnRetry (ts_port s)")
    case True
    then have n: "\<not> scheduled e" using e by blast
    then have "schedSendEvent when s = ret s" using True h by (simp add: schedSendEvent_def)
    moreover have "port_mid s e xs" using l now L(2) n by (simp add: port_mid_def L(1))
    ultimately show ?thesis using True port_frame_set [of s L] by (auto simp: L(1))
  next
    case w: False
    show ?thesis
    proof (cases "scheduled e")
      case True
      obtain q e' ys where q: "reschedule ?ev when False (ts_evq s) = ret q" "curTick q = curTick (ts_evq s)"
        "send_live (s\<lparr>ts_evq := q\<rparr>) e' ys" "scheduled e'" "e_when e' = when"
        using reschedule_send [OF l True less_imp_le [OF t]] by blast
      have "schedSendEvent when s = ret (s\<lparr>ts_evq := q\<rparr>)"
        using w True h q(1) e [OF True] by (simp add: schedSendEvent_def word_sless_alt)
      with fin [OF q(2,3,5) w] q(4) show ?thesis by blast
    next
      case False
      obtain q e' ys where q: "schedule ?ev when (ts_evq s) = ret q" "curTick q = curTick (ts_evq s)"
        "send_live (s\<lparr>ts_evq := q\<rparr>) e' ys" "scheduled e'" "e_when e' = when"
        using schedule_send [OF l False now0 less_imp_le [OF t]] by blast
      have "schedSendEvent when s = ret (s\<lparr>ts_evq := q\<rparr>)"
        using w False h q(1) by (simp add: schedSendEvent_def)
      with fin [OF q(2,3,5) w] q(4) show ?thesis by blast
    qed
  qed
qed

lemma port_mid_list:
  assumes "port_mid s e xs" "sorted (map dp_time L)" "scheduled e \<Longrightarrow> L \<noteq> [] \<and> hd L = hd (transmitList (ts_port s))"
  shows "port_mid (set_list L s) e xs"
  using assms by (auto simp: port_mid_def send_live_def Let_def)

lemma submit_mid:
  assumes m: "port_mid s e xs" and t: "in_window ms s when"
    and L: "L = transmitList (ts_port s)" and d: "d = \<lparr>dp_tick = when, dp_pkt = p\<rparr>"
  shows "\<exists>s' e' ys. schedSendTiming ms p when s = ret s' \<and> port_frame s (enq_sorted d L) s' \<and> port_mid s' e' ys \<and>
    (scheduled e \<or> (L = [] \<and> \<not> waitingOnRetry (ts_port s)) \<longrightarrow> scheduled e')"
proof -
  have s: "sorted (map dp_time L)" "send_live s e xs" "time_ok (curTick (ts_evq s))"
    using m by (simp_all add: port_mid_def L Let_def)
  have dt: "dp_tick d = when" by (simp add: d)
  have w: "curTick (ts_evq s) <s when" "when <s curTick (ts_evq s) + ms" using t by (simp_all add: in_window_def)
  have sched: "\<not> waitingOnRetry (ts_port s)" "L \<noteq> []" "dp_time (hd L) \<le> sint (e_when e)" if "scheduled e"
    using m that by (simp_all add: port_mid_def L Let_def)
  note so = sorted_enq [OF s(1), of d]
  consider (front) "L = [] \<or> dp_time d < dp_time (hd L)" | (rear) "L \<noteq> []" "dp_time (hd L) \<le> dp_time d" "dp_time (last L) \<le> dp_time d"
    | (middle) "L \<noteq> []" "dp_time (hd L) \<le> dp_time d" "dp_time d < dp_time (last L)" by linarith
  then show ?thesis
  proof cases
    case front
    then have q: "enq_sorted d L = d # L" by (cases L) (auto simp: enq_sorted_Cons)
    have run: "schedSendTiming ms p when s = schedSendEvent when (set_list (d # L) s)"
      using front w by (auto simp: schedSendTiming_def L [symmetric] d word_sless_alt)
    have live: "send_live (set_list (d # L) s) e xs" using s(2) by (simp add: send_live_def)
    have "scheduled e \<Longrightarrow> \<not> waitingOnRetry (ts_port (set_list (d # L) s)) \<and> sint when < sint (e_when e)"
      using sched front dt by auto
    then obtain s' e' ys where s': "schedSendEvent when (set_list (d # L) s) = ret s'" "port_frame (set_list (d # L) s) (d # L) s'"
      "port_mid s' e' ys" "\<not> waitingOnRetry (ts_port s) \<longrightarrow> scheduled e'"
      using schedSendEvent_mid [OF live, of "d # L" "when"] s(3) so dt w(1) q by (auto simp: word_sless_alt)
    have "port_frame s (d # L) s'" by (rule port_frame_trans [OF port_frame_set s'(2)])
    with run q s' sched(1) show ?thesis by auto
  next
    case rear
    have "enq_sorted d L = L @ [d]" by (rule enq_sorted_last [OF s(1) rear(3)])
    moreover have "schedSendTiming ms p when s = ret (set_list (L @ [d]) s)"
      using rear w by (simp add: schedSendTiming_def L [symmetric] d word_sless_alt word_sle_eq)
    moreover have "port_mid (set_list (L @ [d]) s) e xs"
      using port_mid_list [OF m so] rear(1) calculation(1) by (simp add: L)
    ultimately show ?thesis using rear(1) by auto
  next
    case middle
    obtain x L' where x: "L = x # L'" using middle(1) by (cases L) auto
    have "insert_deferred d L' = Some (enq_sorted d L')" "enq_sorted d L = x # enq_sorted d L'"
      using middle s(1) enq_sorted_middle [of L' d] by (auto simp: x enq_sorted_Cons split: if_splits)
    moreover have "schedSendTiming ms p when s = ret (set_list (x # enq_sorted d L') s)"
      using middle w calculation(1) x by (simp add: schedSendTiming_def L [symmetric] d word_sless_alt word_sle_eq)
    moreover have "port_mid (set_list (x # enq_sorted d L') s) e xs"
      using port_mid_list [OF m so] calculation(2) x by (simp add: L)
    ultimately show ?thesis using middle(1) by auto
  qed
qed

lemma submit_ok:
  assumes "port_ok s" "in_window ms s when" "L = transmitList (ts_port s)"
  shows "\<exists>s'. schedSendTiming ms p when s = ret s' \<and> port_frame s (enq_sorted \<lparr>dp_tick = when, dp_pkt = p\<rparr> L) s' \<and> port_ok s'"
proof -
  let ?d = "\<lparr>dp_tick = when, dp_pkt = p\<rparr>"
  obtain e xs where e: "port_mid s e xs" "if waitingOnRetry (ts_port s) then L \<noteq> [] \<and> dp_time (hd L) \<le> sint (curTick (ts_evq s))
      else L \<noteq> [] \<longrightarrow> scheduled e"
    using assms(1) by (auto simp: port_ok_def Let_def assms(3))
  obtain s' e' ys where s': "schedSendTiming ms p when s = ret s'" "port_frame s (enq_sorted ?d L) s'" "port_mid s' e' ys"
      "scheduled e \<or> (L = [] \<and> \<not> waitingOnRetry (ts_port s)) \<longrightarrow> scheduled e'"
    using submit_mid [OF e(1) assms(2,3) refl] by blast
  note f = port_frameD [OF s'(2)]
  have ne: "enq_sorted ?d L \<noteq> []" by (simp add: enq_sorted_def)
  have "hd (enq_sorted ?d L) = hd L" if "L \<noteq> []" "dp_time (hd L) \<le> sint (curTick (ts_evq s))"
    using that assms(2) by (simp add: enq_sorted_hd in_window_def word_sless_alt)
  then have "port_ok s'"
    unfolding port_ok_def using s'(3,4) e(2) f ne by (intro exI [of _ e'] exI [of _ ys]) (auto simp: Let_def)
  with s' show ?thesis by blast
qed

subsection \<open>The environment of the port\<close>

text \<open>
  A peer that gets a packet either refuses it and does nothing, or accepts it, and may then hand
  further packets to the port before it returns. Other objects and the drain event change the
  event queue, but not the send event.
\<close>

datatype peer_answer = Refuse | Accept "deferred_packet list"

fun submit_all :: "tick \<Rightarrow> deferred_packet list \<Rightarrow> tsys \<Rightarrow> tsys comp" where
  "submit_all ms [] s = ret s"
| "submit_all ms (d # ds) s = bindC (schedSendTiming ms (dp_pkt d) (dp_tick d) s) (submit_all ms ds)"

fun peer_recv :: "tick \<Rightarrow> peer_answer \<Rightarrow> nat \<Rightarrow> tsys \<Rightarrow> (bool \<times> tsys) comp" where
  "peer_recv ms Refuse p s = ret (False, s)"
| "peer_recv ms (Accept ds) p s = bindC (submit_all ms ds s) (\<lambda>s1. ret (True, s1))"

fun handed :: "peer_answer \<Rightarrow> deferred_packet list" where
  "handed Refuse = []"
| "handed (Accept ds) = ds"

definition env_step :: "tsys \<Rightarrow> evq \<Rightarrow> bool" where
  "env_step s q \<longleftrightarrow> time_ok (curTick q) \<and> sint (curTick (ts_evq s)) \<le> sint (curTick q) \<and>
     (\<exists>ys e e'. agenda q ys \<and> heap (ts_evq s) (sendEvent (ts_port s)) = Some e \<and> heap q (sendEvent (ts_port s)) = Some e' \<and>
       ev_data e' = ev_data e \<and>
       (scheduled e \<longrightarrow> sendEvent (ts_port s) \<in> fst ` set ys \<and> sint (curTick q) \<le> sint (e_when e)))"

definition drain_ok :: "(nat \<Rightarrow> tsys \<Rightarrow> tsys comp) \<Rightarrow> bool" where
  "drain_ok drained \<longleftrightarrow> (\<forall>de s e xs. send_live s e xs \<longrightarrow> \<not> scheduled e \<longrightarrow> time_ok (curTick (ts_evq s)) \<longrightarrow>
     (\<exists>q. drained de s = ret (s\<lparr>ts_evq := q\<rparr>) \<and> env_step s q))"

lemma env_mid:
  assumes m: "port_mid s e xs" and q: "env_step s q"
  shows "\<exists>e' ys. port_mid (s\<lparr>ts_evq := q\<rparr>) e' ys \<and> scheduled e' = scheduled e"
proof -
  have l: "heap (ts_evq s) (sendEvent (ts_port s)) = Some e" "initialized e" using m by (simp_all add: port_mid_def send_live_def)
  obtain ys e' where y: "agenda q ys" "heap q (sendEvent (ts_port s)) = Some e'" "ev_data e' = ev_data e"
      "scheduled e \<longrightarrow> sendEvent (ts_port s) \<in> fst ` set ys \<and> sint (curTick q) \<le> sint (e_when e)"
    and t: "time_ok (curTick q)" "sint (curTick (ts_evq s)) \<le> sint (curTick q)"
    using q l(1) by (auto simp: env_step_def)
  note d = ev_data_flags [OF y(3)]
  have "sendEvent (ts_port s) \<in> fst ` set ys \<Longrightarrow> scheduled e'" using agenda_not_scheduled [OF y(1,2)] by blast
  then have "send_live (s\<lparr>ts_evq := q\<rparr>) e' ys" using y(1,2,4) d l(2) by (auto simp: send_live_def)
  then have "port_mid (s\<lparr>ts_evq := q\<rparr>) e' ys" using m t y(4) d by (auto simp: port_mid_def Let_def)
  with d show ?thesis by blast
qed

lemma env_ok: "port_ok s \<Longrightarrow> env_step s q \<Longrightarrow> port_ok (s\<lparr>ts_evq := q\<rparr>)"
proof -
  assume a: "port_ok s" "env_step s q"
  then obtain e xs where e: "port_mid s e xs"
      "if waitingOnRetry (ts_port s) then transmitList (ts_port s) \<noteq> [] \<and> dp_time (hd (transmitList (ts_port s))) \<le> sint (curTick (ts_evq s))
       else transmitList (ts_port s) \<noteq> [] \<longrightarrow> scheduled e"
    by (auto simp: port_ok_def Let_def)
  obtain e' ys where m: "port_mid (s\<lparr>ts_evq := q\<rparr>) e' ys" "scheduled e' = scheduled e" using env_mid [OF e(1) a(2)] by blast
  have "sint (curTick (ts_evq s)) \<le> sint (curTick q)" using a(2) by (simp add: env_step_def)
  with e(2) m show ?thesis unfolding port_ok_def Let_def
    by (intro exI [of _ e'] exI [of _ ys]) (auto split: if_splits)
qed

lemma submit_all_mid:
  assumes "port_mid s e xs" "\<forall>d \<in> set ds. in_window ms s (dp_tick d)"
  shows "\<exists>s' e' ys. submit_all ms ds s = ret s' \<and> port_frame s (fold enq_sorted ds (transmitList (ts_port s))) s' \<and> port_mid s' e' ys"
  using assms
proof (induction ds arbitrary: s e xs)
  case Nil
  then show ?case using port_frame_set [of s "transmitList (ts_port s)"] by auto
next
  case (Cons d ds)
  obtain s1 e1 ys where 1: "schedSendTiming ms (dp_pkt d) (dp_tick d) s = ret s1"
      "port_frame s (enq_sorted d (transmitList (ts_port s))) s1" "port_mid s1 e1 ys"
    using submit_mid [OF Cons.prems(1) _ refl, of ms "dp_tick d" d "dp_pkt d"] Cons.prems(2) by (cases d) auto
  note f = port_frameD [OF 1(2)]
  have "\<forall>x \<in> set ds. in_window ms s1 (dp_tick x)" using Cons.prems(2) f(7) by (simp add: in_window_def)
  from Cons.IH [OF 1(3) this] obtain s' e' zs where
    "submit_all ms ds s1 = ret s'" "port_frame s1 (fold enq_sorted ds (transmitList (ts_port s1))) s'" "port_mid s' e' zs" by blast
  with 1 f(1) port_frame_trans [OF 1(2)] show ?case by auto
qed

subsection \<open>Sending the first packet\<close>

definition set_waiting :: "bool \<Rightarrow> tsys \<Rightarrow> tsys" where
  "set_waiting w s = s\<lparr>ts_port := (ts_port s)\<lparr>waitingOnRetry := w\<rparr>\<rparr>"

lemma send_live_port:
  "send_live (s\<lparr>ts_port := P\<rparr>) e xs \<longleftrightarrow> send_live s e xs" if "sendEvent P = sendEvent (ts_port s)"
  using that by (simp add: send_live_def)

lemma port_okI:
  assumes "port_mid (set_waiting False s) e xs" "transmitList (ts_port s) \<noteq> [] \<longrightarrow> scheduled e"
  shows "port_ok (set_waiting False s)"
  unfolding port_ok_def using assms by (intro exI [of _ e] exI [of _ xs]) (simp add: set_waiting_def Let_def)

lemma reschedule_rest:
  assumes m: "port_mid s e xs" and L: "transmitList (ts_port s) = d # L" "\<not> scheduled e"
  shows "\<exists>q e' ys. schedule (sendEvent (ts_port s)) (if dp_tick d \<le>s curTick (ts_evq s) then curTick (ts_evq s) + 1 else dp_tick d) (ts_evq s) = ret q \<and>
    curTick q = curTick (ts_evq s) \<and> port_mid (set_waiting False (s\<lparr>ts_evq := q\<rparr>)) e' ys \<and> scheduled e'"
proof -
  let ?now = "curTick (ts_evq s)"
  let ?t = "if dp_tick d \<le>s ?now then ?now + 1 else dp_tick d"
  have l: "send_live s e xs" "time_ok ?now" "sorted (map dp_time (d # L))" using m L(1) by (simp_all add: port_mid_def Let_def)
  have t: "0 \<le> sint ?now" "sint ?now \<le> sint ?t" "dp_time d \<le> sint ?t" "sint ?t \<le> max (dp_time d) (sint ?now + 1)"
    using l(2) time_ok_next [OF l(2)] by (auto simp: time_ok_sint word_sle_eq)
  obtain q e' ys where q: "schedule (sendEvent (ts_port s)) ?t (ts_evq s) = ret q" "curTick q = ?now"
    "send_live (s\<lparr>ts_evq := q\<rparr>) e' ys" "scheduled e'" "e_when e' = ?t"
    using schedule_send [OF l(1) L(2) t(1,2)] by blast
  have "port_mid (set_waiting False (s\<lparr>ts_evq := q\<rparr>)) e' ys"
    using q l t L(1) unfolding port_mid_def set_waiting_def by (simp add: send_live_def Let_def)
  with q show ?thesis by blast
qed

lemma sent_ok_ok:
  assumes m: "port_mid s e xs" and d: "drain_ok drained"
  shows "\<exists>s'. sent_ok drained s = ret s' \<and> port_ok (set_waiting False s') \<and>
    transmitList (ts_port s') = transmitList (ts_port s) \<and> sendEvent (ts_port s') = sendEvent (ts_port s) \<and>
    sint (curTick (ts_evq s)) \<le> sint (curTick (ts_evq s'))"
proof (cases "transmitList (ts_port s)")
  case L: Nil
  have l: "send_live s e xs" "time_ok (curTick (ts_evq s))" "\<not> scheduled e" using m L by (auto simp: port_mid_def Let_def)
  show ?thesis
  proof (cases "drainEvent (ts_port s)")
    case None
    then have "sent_ok drained s = ret s" using L by (simp add: sent_ok_def)
    moreover have "port_mid (set_waiting False s) e xs" using m L l(3) by (simp add: port_mid_def set_waiting_def send_live_port)
    ultimately show ?thesis using port_okI L by auto
  next
    case (Some de)
    obtain q where q: "drained de s = ret (s\<lparr>ts_evq := q\<rparr>)" "env_step s q" using d l unfolding drain_ok_def by blast
    let ?s = "s\<lparr>ts_evq := q, ts_port := (ts_port s)\<lparr>drainEvent := None\<rparr>\<rparr>"
    obtain e' ys where e': "port_mid (s\<lparr>ts_evq := q\<rparr>) e' ys" "scheduled e' = scheduled e" using env_mid [OF m q(2)] by blast
    have "sent_ok drained s = ret ?s" using L Some q(1) by (simp add: sent_ok_def)
    moreover have "port_mid (set_waiting False ?s) e' ys"
      using e' L l(3) by (simp add: port_mid_def set_waiting_def send_live_def)
    then have "port_ok (set_waiting False ?s)" by (rule port_okI) (simp add: L)
    ultimately show ?thesis using L q(2) by (auto simp: env_step_def)
  qed
next
  case L: (Cons x xs')
  have h: "heap (ts_evq s) (sendEvent (ts_port s)) = Some e" using m by (simp add: port_mid_def send_live_def)
  show ?thesis
  proof (cases "scheduled e")
    case True
    then have "sent_ok drained s = ret s" using L h by (simp add: sent_ok_def)
    moreover have "port_mid (set_waiting False s) e xs" using m True by (simp add: port_mid_def set_waiting_def send_live_port Let_def)
    ultimately show ?thesis using port_okI True by auto
  next
    case False
    obtain q e' ys where q: "schedule (sendEvent (ts_port s)) (if dp_tick x \<le>s curTick (ts_evq s) then curTick (ts_evq s) + 1 else dp_tick x) (ts_evq s) = ret q"
      "curTick q = curTick (ts_evq s)" "port_mid (set_waiting False (s\<lparr>ts_evq := q\<rparr>)) e' ys" "scheduled e'"
      using reschedule_rest [OF m L False] by blast
    have "sent_ok drained s = ret (s\<lparr>ts_evq := q\<rparr>)" using L h False q(1) by (simp add: sent_ok_def)
    moreover have "port_ok (set_waiting False (s\<lparr>ts_evq := q\<rparr>))" using port_okI [OF q(3)] q(4) by simp
    ultimately show ?thesis using q(2) by auto
  qed
qed

fun delivered :: "peer_answer \<Rightarrow> deferred_packet \<Rightarrow> deferred_packet list" where
  "delivered Refuse d = []"
| "delivered (Accept ds) d = [d]"

fun left_over :: "peer_answer \<Rightarrow> deferred_packet list \<Rightarrow> deferred_packet list" where
  "left_over Refuse L = L"
| "left_over (Accept ds) L = tl L"

definition answer_ok :: "tick \<Rightarrow> tsys \<Rightarrow> peer_answer \<Rightarrow> bool" where
  "answer_ok ms s a \<longleftrightarrow> (\<forall>d \<in> set (handed a). in_window ms s (dp_tick d))"

definition port_moves :: "tsys \<Rightarrow> peer_answer \<Rightarrow> tsys \<Rightarrow> bool" where
  "port_moves s a s' \<longleftrightarrow> port_ok s' \<and> sendEvent (ts_port s') = sendEvent (ts_port s) \<and>
     transmitList (ts_port s') = fold enq_sorted (handed a) (left_over a (transmitList (ts_port s))) \<and>
     sint (curTick (ts_evq s)) \<le> sint (curTick (ts_evq s'))"

lemma send_ok:
  assumes m: "port_mid s e xs" and n: "\<not> scheduled e"
    and L: "transmitList (ts_port s) \<noteq> []" "dp_time (hd (transmitList (ts_port s))) \<le> sint (curTick (ts_evq s))"
    and a: "answer_ok ms s a" and d: "drain_ok drained"
  shows "\<exists>s'. sendDeferredPacket (peer_recv ms a) drained s = ret s' \<and> port_moves s a s'"
proof -
  obtain x L' where x: "transmitList (ts_port s) = x # L'" using L(1) by (cases "transmitList (ts_port s)") auto
  have ready: "deferredPacketReady s" using L by (simp add: deferredPacketReady_def word_sle_eq)
  have so: "sorted (map dp_time (x # L'))" using m x by (simp add: port_mid_def Let_def)
  have h: "heap (ts_evq s) (sendEvent (ts_port s)) = Some e" using m by (simp add: port_mid_def send_live_def)
  show ?thesis
  proof (cases a)
    case Refuse
    let ?s = "set_waiting True s"
    have "set_list (x # L') s = s" using set_list_same [of s] x by simp
    then have "sendDeferredPacket (peer_recv ms a) drained s = ret ?s"
      using ready h n x Refuse by (simp add: sendDeferredPacket_def set_waiting_def set_list_def)
    moreover have "port_mid ?s e xs" using m n by (simp add: port_mid_def set_waiting_def send_live_port)
    then have "port_ok ?s" unfolding port_ok_def using L by (intro exI [of _ e] exI [of _ xs]) (simp add: set_waiting_def Let_def)
    ultimately show ?thesis using Refuse by (auto simp: port_moves_def set_waiting_def)
  next
    case (Accept ds)
    have m1: "port_mid (set_list L' s) e xs" using m n so by (intro port_mid_list) auto
    have "\<forall>d \<in> set ds. in_window ms (set_list L' s) (dp_tick d)" using a Accept by (simp add: answer_ok_def in_window_def)
    from submit_all_mid [OF m1 this] obtain s1 e1 ys where s1: "submit_all ms ds (set_list L' s) = ret s1"
      "port_frame (set_list L' s) (fold enq_sorted ds L') s1" "port_mid s1 e1 ys" by auto
    note f = port_frameD [OF s1(2)]
    obtain s2 where s2: "sent_ok drained s1 = ret s2" "port_ok (set_waiting False s2)"
      "transmitList (ts_port s2) = transmitList (ts_port s1)" "sendEvent (ts_port s2) = sendEvent (ts_port s1)"
      "sint (curTick (ts_evq s1)) \<le> sint (curTick (ts_evq s2))"
      using sent_ok_ok [OF s1(3) d] by blast
    have "sendDeferredPacket (peer_recv ms a) drained s = ret (set_waiting False s2)"
      using ready x Accept s1(1) s2(1) by (simp add: sendDeferredPacket_def set_waiting_def)
    with s2 f x Accept show ?thesis by (auto simp: port_moves_def set_waiting_def)
  qed
qed

subsection \<open>The port as a transition system\<close>

text \<open>
  A step carries the packets handed to the port and the packets the peer accepted. The send event
  fires when it is the first of the event queue, as the simulation loop does it: time moves
  to the event, and the event is taken off the queue.
\<close>

definition fires :: "tsys \<Rightarrow> tsys \<Rightarrow> bool" where
  "fires s s0 \<longleftrightarrow> (\<exists>t q. nextTick (ts_evq s) = ret t \<and> time_ok t \<and>
     pop_head ((ts_evq s)\<lparr>curTick := t\<rparr>) = ret (q, sendEvent (ts_port s)) \<and> s0 = s\<lparr>ts_evq := q\<rparr>)"

inductive port_step :: "tick \<Rightarrow> (nat \<Rightarrow> tsys \<Rightarrow> tsys comp) \<Rightarrow> tsys \<Rightarrow> deferred_packet list \<Rightarrow> deferred_packet list \<Rightarrow> tsys \<Rightarrow> bool"
  for ms drained where
  submit: "in_window ms s t \<Longrightarrow> schedSendTiming ms p t s = ret s' \<Longrightarrow>
     port_step ms drained s [\<lparr>dp_tick = t, dp_pkt = p\<rparr>] [] s'"
| fire: "fires s s0 \<Longrightarrow> answer_ok ms s0 a \<Longrightarrow> processSendEvent (peer_recv ms a) drained s0 = ret s' \<Longrightarrow>
     port_step ms drained s (handed a) (delivered a (hd (transmitList (ts_port s)))) s'"
| retry: "waitingOnRetry (ts_port s) \<Longrightarrow> answer_ok ms s a \<Longrightarrow> recvRetry (peer_recv ms a) drained s = ret s' \<Longrightarrow>
     port_step ms drained s (handed a) (delivered a (hd (transmitList (ts_port s)))) s'"
| drain: "tp_drain de s = (n, s') \<Longrightarrow> port_step ms drained s [] [] s'"
| other: "env_step s q \<Longrightarrow> port_step ms drained s [] [] (s\<lparr>ts_evq := q\<rparr>)"

inductive port_run :: "tick \<Rightarrow> (nat \<Rightarrow> tsys \<Rightarrow> tsys comp) \<Rightarrow> tsys \<Rightarrow> deferred_packet list \<Rightarrow> deferred_packet list \<Rightarrow> tsys \<Rightarrow> bool"
  for ms drained where
  start: "port_run ms drained s [] [] s"
| step: "port_run ms drained s ins outs s1 \<Longrightarrow> port_step ms drained s1 i out s2 \<Longrightarrow>
     port_run ms drained s (ins @ i) (outs @ out) s2"

lemma curTick_agenda: "agenda (s\<lparr>curTick := t\<rparr>) xs = agenda s xs"
  by (simp add: agenda_def wf_evq_def)

lemma fires_mid:
  assumes p: "port_ok s" and f: "fires s s0"
  shows "\<exists>e xs. port_mid s0 e xs \<and> \<not> scheduled e" "ts_port s0 = ts_port s" "\<not> waitingOnRetry (ts_port s)"
    "transmitList (ts_port s) \<noteq> []" "dp_time (hd (transmitList (ts_port s))) \<le> sint (curTick (ts_evq s0))"
    "sint (curTick (ts_evq s)) \<le> sint (curTick (ts_evq s0))"
proof -
  obtain e xs where e: "port_mid s e xs" using p by (auto simp: port_ok_def)
  obtain t q where q: "nextTick (ts_evq s) = ret t" "time_ok t"
    "pop_head ((ts_evq s)\<lparr>curTick := t\<rparr>) = ret (q, sendEvent (ts_port s))" "s0 = s\<lparr>ts_evq := q\<rparr>"
    using f by (auto simp: fires_def)
  have l: "agenda (ts_evq s) xs" "heap (ts_evq s) (sendEvent (ts_port s)) = Some e" "initialized e"
    using e by (simp_all add: port_mid_def send_live_def)
  obtain ev k ys where xs: "xs = (ev, k) # ys" using agenda_head [OF l(1)] q(1) by (cases xs) (auto simp: nextTick_def)
  have ag: "agenda ((ts_evq s)\<lparr>curTick := t\<rparr>) ((ev, k) # ys)" using l(1) xs by (simp add: curTick_agenda)
  obtain q' e0 e' where pop: "pop_head ((ts_evq s)\<lparr>curTick := t\<rparr>) = ret (q', ev)" "heap (ts_evq s) ev = Some e0" "scheduled e0"
     "heap q' ev = Some e'" "ev_data e' = (e_when e0, e_priority e0, fl_clear (e_flags e0) Scheduled)"
     "others ev ((ts_evq s)\<lparr>curTick := t\<rparr>) q'" "agenda q' ys"
    using pop_head_agenda [OF ag] by auto
  have eq: "q' = q" "ev = sendEvent (ts_port s)" "e0 = e" using pop(1,2) q(3) l(2) by auto
  have t: "t = e_when e" using q(1) agenda_head [OF l(1)] xs l(2) eq(2) by (simp add: nextTick_def)
  have n: "\<not> scheduled e'" "initialized e'"
    using pop(5) l(3) eq(3) by (auto simp: ev_data_def flag_tests initialized_def)
  have "ev \<notin> fst ` set ys" using agenda_distinct [OF ag] by auto
  then have live: "send_live s0 e' ys" using pop(4,7) n q(4) eq by (simp add: send_live_def)
  have cur: "curTick (ts_evq s0) = e_when e" using pop(6) q(4) eq(1) t by (simp add: others_def)
  have m: "\<not> waitingOnRetry (ts_port s)" "transmitList (ts_port s) \<noteq> []" "dp_time (hd (transmitList (ts_port s))) \<le> sint (e_when e)"
      "sint (curTick (ts_evq s)) \<le> sint (e_when e)" "sorted (map dp_time (transmitList (ts_port s)))"
    using e pop(3) eq(3) by (simp_all add: port_mid_def Let_def)
  have "port_mid s0 e' ys" using live n m(5) q(2,4) cur t by (simp add: port_mid_def)
  with n(1) show "\<exists>e xs. port_mid s0 e xs \<and> \<not> scheduled e" by blast
  show "ts_port s0 = ts_port s" using q(4) by simp
  show "\<not> waitingOnRetry (ts_port s)" "transmitList (ts_port s) \<noteq> []" by (rule m)+
  show "dp_time (hd (transmitList (ts_port s))) \<le> sint (curTick (ts_evq s0))" "sint (curTick (ts_evq s)) \<le> sint (curTick (ts_evq s0))"
    using m(3,4) cur by simp_all
qed

lemma fire_ok:
  assumes "port_ok s" "fires s s0" "answer_ok ms s0 a" "drain_ok drained"
  shows "\<exists>s'. processSendEvent (peer_recv ms a) drained s0 = ret s' \<and> port_moves s0 a s'"
proof -
  note f = fires_mid [OF assms(1,2)]
  obtain e xs where e: "port_mid s0 e xs" "\<not> scheduled e" using f(1) by blast
  show ?thesis using send_ok [OF e _ _ assms(3,4)] f by (simp add: processSendEvent_def)
qed

lemma retry_ok:
  assumes "port_ok s" "waitingOnRetry (ts_port s)" "answer_ok ms s a" "drain_ok drained"
  shows "\<exists>s'. recvRetry (peer_recv ms a) drained s = ret s' \<and> port_moves s a s'"
proof -
  obtain e xs where e: "port_mid s e xs" "transmitList (ts_port s) \<noteq> []"
      "dp_time (hd (transmitList (ts_port s))) \<le> sint (curTick (ts_evq s))"
    using assms(1,2) by (auto simp: port_ok_def Let_def)
  then have "\<not> scheduled e" using assms(2) by (auto simp: port_mid_def Let_def)
  from send_ok [OF e(1) this e(2,3) assms(3,4)] show ?thesis using assms(2) by (simp add: recvRetry_def)
qed

subsection \<open>Runs\<close>

lemma sort_fold: "sort_key dp_time (xs @ ds) = fold enq_sorted ds (sort_key dp_time xs)"
proof (induction ds arbitrary: xs)
  case (Cons d ds)
  then show ?case using Cons.IH [of "xs @ [d]"] by (simp add: sort_snoc)
qed simp

lemma fold_enq_append:
  "\<forall>d \<in> set ds. \<forall>x \<in> set D. dp_time x \<le> dp_time d \<Longrightarrow> fold enq_sorted ds (D @ L) = D @ fold enq_sorted ds L"
  by (induction ds arbitrary: L) (auto simp: enq_sorted_append)

definition port_inv :: "tsys \<Rightarrow> deferred_packet list \<Rightarrow> deferred_packet list \<Rightarrow> bool" where
  "port_inv s ins outs \<longleftrightarrow> port_ok s \<and> outs @ transmitList (ts_port s) = sort_key dp_time ins \<and>
     (\<forall>d \<in> set outs. dp_time d \<le> sint (curTick (ts_evq s)))"

lemma moves_inv:
  assumes i: "outs @ L = sort_key dp_time ins" "\<forall>d \<in> set outs. dp_time d \<le> sint (curTick (ts_evq s))"
    and L: "L = transmitList (ts_port s)" "L \<noteq> []" "dp_time (hd L) \<le> sint (curTick (ts_evq s))"
    and a: "answer_ok ms s a" and m: "port_moves s a s'"
  shows "port_inv s' (ins @ handed a) (outs @ delivered a (hd L))"
proof -
  let ?D = "outs @ delivered a (hd L)"
  have old: "\<forall>x \<in> set ?D. dp_time x \<le> sint (curTick (ts_evq s))" using i(2) L(3) by (cases a) auto
  have "\<forall>d \<in> set (handed a). sint (curTick (ts_evq s)) < dp_time d"
    using a by (auto simp: answer_ok_def in_window_def word_sless_alt)
  then have le: "\<forall>d \<in> set (handed a). \<forall>x \<in> set ?D. dp_time x \<le> dp_time d" using old by fastforce
  have "?D @ left_over a L = outs @ L" using L(2) by (cases a) auto
  then have "?D @ transmitList (ts_port s') = sort_key dp_time (ins @ handed a)"
    using m fold_enq_append [OF le, of "left_over a L"] i(1) by (simp add: port_moves_def sort_fold L(1))
  moreover have "port_ok s'" "sint (curTick (ts_evq s)) \<le> sint (curTick (ts_evq s'))" using m by (simp_all add: port_moves_def)
  moreover have "\<forall>x \<in> set ?D. dp_time x \<le> sint (curTick (ts_evq s'))" using old calculation(3) by (meson order_trans)
  ultimately show ?thesis unfolding port_inv_def by blast
qed

lemma port_ok_drain: "port_ok (s\<lparr>ts_port := (ts_port s)\<lparr>drainEvent := de\<rparr>\<rparr>) = port_ok s"
  by (simp add: port_ok_def port_mid_def send_live_def)

lemma step_inv:
  assumes "port_step ms drained s i out s'" "drain_ok drained" "port_inv s ins outs"
  shows "port_inv s' (ins @ i) (outs @ out)"
  using assms
proof (induction rule: port_step.induct)
  case (submit s t p s')
  let ?d = "\<lparr>dp_tick = t, dp_pkt = p\<rparr>"
  have ok: "port_ok s" "outs @ transmitList (ts_port s) = sort_key dp_time ins" "\<forall>d \<in> set outs. dp_time d \<le> sint (curTick (ts_evq s))"
    using submit.prems by (simp_all add: port_inv_def)
  have s': "port_frame s (enq_sorted ?d (transmitList (ts_port s))) s'" "port_ok s'"
    using submit_ok [OF ok(1) submit.hyps(1) refl, of p] submit.hyps(2) by auto
  note f = port_frameD [OF s'(1)]
  have "\<forall>x \<in> set outs. dp_time x \<le> dp_time ?d" using ok(3) submit.hyps(1) by (fastforce simp: in_window_def word_sless_alt)
  then have "outs @ transmitList (ts_port s') = sort_key dp_time (ins @ [?d])"
    unfolding f(1) sort_snoc ok(2) [symmetric] by (simp add: enq_sorted_append)
  with ok(3) f(7) s'(2) show ?case by (simp add: port_inv_def)
next
  case (fire s s0 a s')
  have ok: "port_ok s" "outs @ transmitList (ts_port s) = sort_key dp_time ins" "\<forall>d \<in> set outs. dp_time d \<le> sint (curTick (ts_evq s))"
    using fire.prems by (simp_all add: port_inv_def)
  note f = fires_mid [OF ok(1) fire.hyps(1)]
  have "port_moves s0 a s'" using fire_ok [OF ok(1) fire.hyps(1,2) fire.prems(1)] fire.hyps(3) by auto
  moreover have "\<forall>d \<in> set outs. dp_time d \<le> sint (curTick (ts_evq s0))" using ok(3) f(6) by fastforce
  ultimately show ?case using moves_inv [OF ok(2) _ _ f(4,5) fire.hyps(2)] f(2) by simp
next
  case (retry s a s')
  have ok: "port_ok s" "outs @ transmitList (ts_port s) = sort_key dp_time ins" "\<forall>d \<in> set outs. dp_time d \<le> sint (curTick (ts_evq s))"
    using retry.prems by (simp_all add: port_inv_def)
  have L: "transmitList (ts_port s) \<noteq> []" "dp_time (hd (transmitList (ts_port s))) \<le> sint (curTick (ts_evq s))"
    using ok(1) retry.hyps(1) by (auto simp: port_ok_def Let_def)
  have "port_moves s a s'" using retry_ok [OF ok(1) retry.hyps(1,2) retry.prems(1)] retry.hyps(3) by auto
  then show ?case by (rule moves_inv [OF ok(2,3) refl L retry.hyps(2)])
next
  case (drain de s n s')
  then show ?case by (auto simp: tp_drain_def port_inv_def port_ok_drain split: if_splits)
next
  case (other s q)
  then have "port_ok (s\<lparr>ts_evq := q\<rparr>)" "sint (curTick (ts_evq s)) \<le> sint (curTick q)"
    using env_ok by (auto simp: port_inv_def env_step_def)
  with other.prems show ?case by (fastforce simp: port_inv_def)
qed

lemma run_inv:
  assumes "port_run ms drained s ins outs s'" "drain_ok drained" "port_inv s [] []"
  shows "port_inv s' ins outs"
  using assms by (induction rule: port_run.induct) (auto intro: step_inv)

lemma new_port_ok:
  assumes "agenda q xs" "heap q p = None" "time_ok (curTick q)" "SimpleTimingPort_new p q = ret (P, q1)"
  shows "port_inv \<lparr>ts_port = P, ts_evq = q1, ts_pkts = ps, ts_mem = m\<rparr> [] []"
proof -
  let ?e = "new_event Default_Pri"
  have P: "P = \<lparr>transmitList = [], sendEvent = p, drainEvent = None, waitingOnRetry = False\<rparr>" "q1 = q\<lparr>heap := (heap q)(p \<mapsto> ?e)\<rparr>"
    using assms(2,4) by (auto simp: SimpleTimingPort_new_def new_at_def)
  have off: "p \<notin> fst ` set xs" using agenda_event [OF assms(1)] assms(2) by fastforce
  have "agenda q1 xs" unfolding P(2) by (rule agenda_heap_off [OF assms(1) off])
  then have "send_live \<lparr>ts_port = P, ts_evq = q1, ts_pkts = ps, ts_mem = m\<rparr> ?e xs"
    using off flag_words by (simp add: send_live_def P)
  then have "port_mid \<lparr>ts_port = P, ts_evq = q1, ts_pkts = ps, ts_mem = m\<rparr> ?e xs"
    using assms(3) flag_words by (simp add: port_mid_def P)
  then show ?thesis by (auto simp: port_inv_def port_ok_def Let_def P)
qed

subsection \<open>Timing accesses to the memory\<close>

lemma atomic_latency:
  assumes "doAtomicAccess ir be rnd p s = Inr (t, p', s')" "\<not> memInhibitAsserted p"
  shows "t = calculateLatency rnd (pm s)"
  using assms by (auto simp: doAtomicAccess_def do_swap_def do_read_def do_write_def calculateLatency_def Let_def
      split: option.splits if_splits)

lemma read_needs_response: "isRead c \<Longrightarrow> isRequest c \<Longrightarrow> needsResponse c"
  by (cases c; simp add: cmd_attr)

lemma port_ok_data: "port_ok (s\<lparr>ts_pkts := ps, ts_mem := m\<rparr>) = port_ok s"
  by (simp add: port_ok_def port_mid_def send_live_def)

subsection \<open>Properties\<close>

definition no_drain :: "nat \<Rightarrow> tsys \<Rightarrow> tsys comp" where
  "no_drain de s = ret s"

definition sample_port :: tsys where
  "sample_port = \<lparr>ts_port = \<lparr>transmitList = [], sendEvent = 1, drainEvent = None, waitingOnRetry = False\<rparr>,
     ts_evq = idle_queue\<lparr>heap := (heap idle_queue)(1 \<mapsto> new_event Default_Pri)\<rparr>,
     ts_pkts = [7 \<mapsto> sample_packet ReadReq 1], ts_mem = sample_mem\<rparr>"

lemma sample_port_new:
  "SimpleTimingPort_new 1 idle_queue = ret (ts_port sample_port, ts_evq sample_port)"
  "agenda idle_queue []" "heap idle_queue 1 = None" "time_ok (curTick idle_queue)"
  by (simp_all add: SimpleTimingPort_new_def new_at_def idle_queue_def sample_port_def agenda_empty time_ok_sint)

lemma sample_port_inv: "port_inv sample_port [] []"
  using new_port_ok [OF sample_port_new(2,3,4,1), of "[7 \<mapsto> sample_packet ReadReq 1]" sample_mem]
  by (simp add: sample_port_def)

lemma sample_window: "in_window 100 sample_port t" if "t \<in> {6, 20}"
  using that by (auto simp: in_window_def sample_port_def idle_queue_def word_sless_alt)

lemma no_drain_ok: "drain_ok no_drain"
  unfolding drain_ok_def
proof (intro allI impI)
  fix de s e xs assume "send_live s e xs" "\<not> scheduled e" "time_ok (curTick (ts_evq s))"
  then show "\<exists>q. no_drain de s = ret (s\<lparr>ts_evq := q\<rparr>) \<and> env_step s q"
    by (intro exI [of _ "ts_evq s"]) (auto simp: no_drain_def env_step_def send_live_def)
qed

text \<open>
  C12: The port never fails and never forgets its work. In a state that satisfies the invariant, a
  packet can be handed over for any time in the next millisecond, the send event can be
  processed when it is due, and a retry can be received when the port waits for one, whatever
  the peer answers; the invariant holds again. Unless the port waits for a retry, a
  packet in the list means that the send event is scheduled, not before the first packet is
  due and at most at its time or one tick from now.
\<close>

theorem port_progress:
  assumes "port_ok s" "drain_ok drained"
  shows "(\<forall>p t. in_window ms s t \<longrightarrow> (\<exists>s'. schedSendTiming ms p t s = ret s' \<and> port_ok s')) \<and>
    (\<forall>s0 a. fires s s0 \<and> answer_ok ms s0 a \<longrightarrow> (\<exists>s'. processSendEvent (peer_recv ms a) drained s0 = ret s' \<and> port_ok s')) \<and>
    (\<forall>a. waitingOnRetry (ts_port s) \<and> answer_ok ms s a \<longrightarrow> (\<exists>s'. recvRetry (peer_recv ms a) drained s = ret s' \<and> port_ok s')) \<and>
    (\<forall>d L. transmitList (ts_port s) = d # L \<and> \<not> waitingOnRetry (ts_port s) \<longrightarrow>
      (\<exists>e. heap (ts_evq s) (sendEvent (ts_port s)) = Some e \<and> scheduled e \<and> dp_time d \<le> sint (e_when e) \<and>
        sint (e_when e) \<le> max (dp_time d) (sint (curTick (ts_evq s)) + 1)))"
proof (intro conjI allI impI)
  show "\<exists>s'. schedSendTiming ms p t s = ret s' \<and> port_ok s'" if "in_window ms s t" for p t
    using submit_ok [OF assms(1) that refl] by blast
  show "\<exists>s'. processSendEvent (peer_recv ms a) drained s0 = ret s' \<and> port_ok s'" if "fires s s0 \<and> answer_ok ms s0 a" for s0 a
    using fire_ok [OF assms(1) conjunct1 [OF that] conjunct2 [OF that] assms(2)] by (auto simp: port_moves_def)
  show "\<exists>s'. recvRetry (peer_recv ms a) drained s = ret s' \<and> port_ok s'" if "waitingOnRetry (ts_port s) \<and> answer_ok ms s a" for a
    using retry_ok [OF assms(1) conjunct1 [OF that] conjunct2 [OF that] assms(2)] by (auto simp: port_moves_def)
  show "\<exists>e. heap (ts_evq s) (sendEvent (ts_port s)) = Some e \<and> scheduled e \<and> dp_time d \<le> sint (e_when e) \<and>
      sint (e_when e) \<le> max (dp_time d) (sint (curTick (ts_evq s)) + 1)"
    if "transmitList (ts_port s) = d # L \<and> \<not> waitingOnRetry (ts_port s)" for d L
    using assms(1) that by (auto simp: port_ok_def port_mid_def send_live_def Let_def)
qed

theorem port_progress_witness:
  "\<exists>s'. schedSendTiming 100 7 20 sample_port = ret s' \<and> port_ok s'"
  using port_progress [of sample_port no_drain 100] sample_port_inv no_drain_ok sample_window [of 20]
  by (simp add: port_inv_def)

text \<open>
  C11: The port delivers in order and loses nothing. In every run of a new port, with packets handed
  over at any time, also by the peer while it receives one, with refusals, retries and
  activity of other objects in any order, the packets the peer accepted followed by those
  still in the list are the stable sort by time of all packets handed over; and no packet is
  delivered before its time.
\<close>

theorem transmit_order:
  assumes "agenda q xs" "heap q p = None" "time_ok (curTick q)" "SimpleTimingPort_new p q = ret (P, q1)" "drain_ok drained"
    and "port_run ms drained \<lparr>ts_port = P, ts_evq = q1, ts_pkts = ps, ts_mem = m\<rparr> ins outs s"
  shows "outs @ transmitList (ts_port s) = sort_key dp_time ins \<and> (\<forall>d \<in> set outs. dp_time d \<le> sint (curTick (ts_evq s)))"
  using run_inv [OF assms(6,5) new_port_ok [OF assms(1-4)]] by (simp add: port_inv_def)

theorem transmit_order_witness:
  "\<exists>s. port_run 100 no_drain sample_port [\<lparr>dp_tick = 20, dp_pkt = 7\<rparr>, \<lparr>dp_tick = 6, dp_pkt = 8\<rparr>] [] s \<and>
    transmitList (ts_port s) = [\<lparr>dp_tick = 6, dp_pkt = 8\<rparr>, \<lparr>dp_tick = 20, dp_pkt = 7\<rparr>]"
proof -
  obtain s1 where 1: "schedSendTiming 100 7 20 sample_port = ret s1" "port_ok s1" "curTick (ts_evq s1) = curTick (ts_evq sample_port)"
    using submit_ok [of sample_port 100 20 _ 7] sample_port_inv sample_window [of 20] port_frameD(7) by (fastforce simp: port_inv_def)
  have w: "in_window 100 s1 6" using sample_window [of 6] 1(3) by (simp add: in_window_def)
  obtain s2 where 2: "schedSendTiming 100 8 6 s1 = ret s2" using submit_ok [OF 1(2) w refl] by blast
  have "port_step 100 no_drain sample_port [\<lparr>dp_tick = 20, dp_pkt = 7\<rparr>] [] s1"
    using port_step.submit [OF sample_window [of 20] 1(1)] by simp
  from port_run.step [OF port_run.start this] port_run.step port_step.submit [OF w 2]
  have run: "port_run 100 no_drain sample_port [\<lparr>dp_tick = 20, dp_pkt = 7\<rparr>, \<lparr>dp_tick = 6, dp_pkt = 8\<rparr>] [] s2" by fastforce
  have "sample_port = \<lparr>ts_port = ts_port sample_port, ts_evq = ts_evq sample_port, ts_pkts = ts_pkts sample_port, ts_mem = ts_mem sample_port\<rparr>"
    by simp
  with transmit_order [OF sample_port_new(2,3,4,1) no_drain_ok, of 100 "ts_pkts sample_port" "ts_mem sample_port"] run
  have "transmitList (ts_port s2) = sort_key dp_time [\<lparr>dp_tick = 20, dp_pkt = 7\<rparr>, \<lparr>dp_tick = 6, dp_pkt = 8\<rparr>]" by fastforce
  with run show ?thesis by auto
qed

text \<open>
  C13: A timing read of the memory is answered in time with the right bytes. The request becomes
  its response, its buffer holds the bytes of the memory at its address, the memory is
  unchanged, and the response takes its place in the list for the time at which the latency of
  the memory has passed, behind the responses that are due then or before.
\<close>

theorem timing_read:
  assumes "port_ok s" "ts_pkts s p = Some pkt" "mem_view (ts_mem s) b M" "access_ok (ts_mem s) b pkt d X"
    and "isRead (pk_cmd pkt)" "isRequest (pk_cmd pkt)" "pk_cmd pkt \<notin> {SwapReq, LoadLockedReq}"
    and "locks_ok (lockedAddrList (pm (ts_mem s)))"
    and "t = curTick (ts_evq s) + calculateLatency rnd (pm (ts_mem s))" "in_window ms s t"
  shows "\<exists>s' pkt'. recvTiming (mem_recvAtomic ir be rnd) ms p s = ret (True, s') \<and> ts_pkts s' p = Some pkt' \<and>
    pk_cmd pkt' = responseCommand (pk_cmd pkt) \<and>
    holds (pm_bufs (ts_mem s')) d (take (unat (pk_size pkt)) (drop (mem_off (ts_mem s) pkt) M)) \<and> mem_view (ts_mem s') b M \<and>
    transmitList (ts_port s') = enq_sorted \<lparr>dp_tick = t, dp_pkt = p\<rparr> (transmitList (ts_port s)) \<and> port_ok s'"
proof -
  have ninh: "\<not> memInhibitAsserted pkt" using assms(4) by (simp add: access_ok_def)
  obtain l pkt' m where a: "doAtomicAccess ir be rnd pkt (ts_mem s) = Inr (l, pkt', m)" "mem_view m b M"
     "holds (pm_bufs m) d (take (unat (pk_size pkt)) (drop (mem_off (ts_mem s) pkt) M))" "pk_cmd pkt' = responseCommand (pk_cmd pkt)"
    using atomic_read [OF assms(3-6) _ _ assms(8), of ir be rnd] assms(7) by auto
  let ?s1 = "s\<lparr>ts_pkts := (ts_pkts s)(p \<mapsto> pkt'), ts_mem := m\<rparr>"
  have n: "needsResponse (pk_cmd pkt)" by (rule read_needs_response [OF assms(5,6)])
  have ok: "port_ok ?s1" "in_window ms ?s1 t" using assms(1,10) by (simp_all add: port_ok_data in_window_def)
  obtain s2 where s2: "schedSendTiming ms p t ?s1 = ret s2" "port_ok s2"
     "port_frame ?s1 (enq_sorted \<lparr>dp_tick = t, dp_pkt = p\<rparr> (transmitList (ts_port s))) s2"
    using submit_ok [OF ok, of _ p] by auto
  note f = port_frameD [OF s2(3)]
  have "mem_recvAtomic ir be rnd p s = ret (l, ?s1)" using assms(2) a(1) by (simp add: mem_recvAtomic_def ts_pkt_def liftC_def ret_def)
  then have "recvTiming (mem_recvAtomic ir be rnd) ms p s = ret (True, s2)"
    using assms(2,9) ninh n a(4) response_kind(1) [OF n] s2(1) atomic_latency [OF a(1) ninh]
    by (simp add: recvTiming_def ts_pkt_def liftC_def)
  with a(2-4) s2(2) f show ?thesis by auto
qed

theorem timing_read_witness:
  "\<exists>s' pkt'. recvTiming (mem_recvAtomic 8 False (\<lambda>_ _. 0)) 100 7 sample_port = ret (True, s') \<and> ts_pkts s' 7 = Some pkt' \<and>
    pk_cmd pkt' = ReadResp \<and> holds (pm_bufs (ts_mem s')) (1, 0) [5, 6, 7, 8] \<and>
    transmitList (ts_port s') = [\<lparr>dp_tick = 6, dp_pkt = 7\<rparr>]"
proof -
  have f: "ts_mem sample_port = sample_mem" "ts_pkts sample_port 7 = Some (sample_packet ReadReq 1)"
    "transmitList (ts_port sample_port) = []" "curTick (ts_evq sample_port) = 5" by (simp_all add: sample_port_def idle_queue_def)
  have c: "isRead ReadReq" "isRequest ReadReq" "responseCommand ReadReq = ReadResp" by (simp_all add: cmd_attr)
  have m: "calculateLatency (\<lambda>_ _. 0) (pm sample_mem) = 1" "locks_ok (lockedAddrList (pm sample_mem))"
    "take 4 (drop (mem_off sample_mem (sample_packet ReadReq 1)) [1, 2, 3, 4, 5, 6, 7, 8]) = [5, 6, 7, 8 :: uint8]"
    by (simp_all add: calculateLatency_def sample_mem_def mem_off_def)
  have "port_ok sample_port" using sample_port_inv by (simp add: port_inv_def)
  from timing_read [OF this f(2), of "(0, 0)" "[1, 2, 3, 4, 5, 6, 7, 8]" "(1, 0)" "[10, 20, 30, 40]" 6 "\<lambda>_ _. 0" 100 8 False]
  show ?thesis using f c m sample_view sample_access [of ReadReq] sample_window [of 6] by auto
qed

end
