(* ===== verification/Spec2Isabelle.thy ===== *)
theory Spec2Isabelle
  imports Simulate Physical_Memory Int_Math Cache_Tags Mshr_Queue Message_Buffer Branch_Predictor Register_Renaming
    Timing_Port
begin

text \<open>
  A verification library for the M5 full-system simulator (\<^verbatim>\<open>src/src\<close>).

  \<^bold>\<open>The program.\<close> M5 is a discrete-event simulator. Simulated objects schedule events on one
  queue, which the simulation loop serves in the order of time and priority. The objects exchange
  memory requests, wrapped into packets, through caches with miss registers down to a
  physical memory; the Ruby memory system passes messages through buffers that wake up their
  consumers by events of the same queue. The out-of-order CPU predicts branches and renames
  registers speculatively and takes both back when it squashes instructions. The library models
  these parts as executable functions and proves what they promise to each other.

  \<^bold>\<open>Conventions.\<close> Ticks, addresses, sequence numbers, flags, counters of messages and predictors and
  other data that the code computes with are words of their width, with the wrap-around and the
  signed or unsigned comparison of the source. Unbounded integers or naturals stand for the register
  numbers of \<^verbatim>\<open>Register_Renaming\<close>, the sizes and counters of \<^verbatim>\<open>Mshr_Queue\<close>, the sizes and indices of
  \<^verbatim>\<open>Ruby_Vector\<close> and \<^verbatim>\<open>Prio_Heap\<close>, shift amounts of the tag store, and statistics: these
  models are the code as long as the values fit their types, which a hypothesis says where a
  property depends on it. In the prime search of \<^verbatim>\<open>Int_Math\<close> the signed overflow of a product is an
  error. A class is a record, a method a function that returns the
  changed record. A method that can stop (failed assertion, \<^verbatim>\<open>panic\<close>, \<^verbatim>\<open>fatal\<close>, invalid
  access, signed overflow) returns \<open>'a res\<close>, one with a loop over pointers or events that may not end returns
  \<open>'a comp\<close>, an option of it, and is defined by \<^theory_text>\<open>partial_function\<close>; theorems about these
  say that the call returns. No loop has fuel. Objects that are shared or deleted live in explicit
  stores: events, byte buffers, requests, packets and miss registers. Debug output is left out.

  \<^bold>\<open>Theories\<close>, each with the files it models below \<^verbatim>\<open>src/src\<close>:

  \<^item> \<^verbatim>\<open>M5_Prelude\<close>: integer types, errors and results, \<^verbatim>\<open>Flags<T>\<close> (\<^verbatim>\<open>base/types.hh\<close>,
    \<^verbatim>\<open>base/flags.hh\<close>), array indexing and the lemmas that the components share.
  \<^item> \<^verbatim>\<open>Min_Queue\<close>, \<^verbatim>\<open>Recency\<close>, \<^verbatim>\<open>Spec_Undo\<close>: the interfaces. A queue that returns a least element
    (locale \<^verbatim>\<open>min_queue\<close>, interpreted by the event queue and by the priority heap), a
    store with least-recently-used replacement (\<^verbatim>\<open>lru_store\<close>, by the cache tags), and speculation
    with an undo log (\<^verbatim>\<open>undo_log\<close> and \<^verbatim>\<open>total_undo_log\<close>, by the rename stage and the branch
    predictor). Draining a queue, a run of accesses and undoing a run of steps are verified
    once, against the interface.
  \<^item> \<^verbatim>\<open>Event_Queue\<close> (\<^verbatim>\<open>sim/eventq.hh\<close>, \<^verbatim>\<open>sim/eventq.cc\<close>): the two-level linked list of bins, as
    a heap of event objects. Every operation refines an operation on a sorted agenda.
  \<^item> \<^verbatim>\<open>Simulate\<close> (\<^verbatim>\<open>sim/simulate.cc\<close>, \<^verbatim>\<open>sim/sim_events.cc\<close>): the loop \<^verbatim>\<open>simulate\<close> with its limit
    event, exit events and signal flags. Handlers of other events are sequences of queue
    operations given by the environment. Bounds on time, termination, and that a run returns.
  \<^item> \<^verbatim>\<open>Byte_Memory\<close>, \<^verbatim>\<open>Request\<close>, \<^verbatim>\<open>Packet\<close> (\<^verbatim>\<open>mem/request.hh\<close>, \<^verbatim>\<open>mem/packet.hh\<close>,
    \<^verbatim>\<open>mem/packet.cc\<close>): requests, the command table, packets, ownership of payloads, responses and
    functional accesses, over a heap of byte buffers.
  \<^item> \<^verbatim>\<open>Physical_Memory\<close> (\<^verbatim>\<open>mem/physical.hh\<close>, \<^verbatim>\<open>mem/physical.cc\<close>): load locks, atomic and functional
    accesses, page allocation. Store-conditionals refine a map from contexts to locked addresses.
  \<^item> \<^verbatim>\<open>Timing_Port\<close> (\<^verbatim>\<open>mem/tport.hh\<close>, \<^verbatim>\<open>mem/tport.cc\<close>, the port in \<^verbatim>\<open>mem/physical.cc\<close>): responses of a
    memory that wait in a list for their time, sent by an event. The port is a transition system
    (\<^theory_text>\<open>inductive\<close> steps and runs); it delivers in the order of time and never gets stuck.
  \<^item> \<^verbatim>\<open>Int_Math\<close> (\<^verbatim>\<open>base/intmath.hh\<close>, \<^verbatim>\<open>base/intmath.cc\<close>, \<^verbatim>\<open>base/bitfield.hh\<close>): logarithms,
    rounding, primes and bit fields.
  \<^item> \<^verbatim>\<open>Cache_Tags\<close> (\<^verbatim>\<open>mem/cache/blk.hh\<close>, \<^verbatim>\<open>mem/cache/tags/cacheset.cc\<close>, \<^verbatim>\<open>lru.hh\<close>, \<^verbatim>\<open>lru.cc\<close>): the
    LRU tag store and its replacement.
  \<^item> \<^verbatim>\<open>Mshr\<close>, \<^verbatim>\<open>Mshr_Queue\<close> (\<^verbatim>\<open>mem/cache/mshr.hh\<close>, \<^verbatim>\<open>mshr.cc\<close>, \<^verbatim>\<open>mshr_queue.hh\<close>, \<^verbatim>\<open>mshr_queue.cc\<close>):
    miss registers and the queue that owns them. Order of requests, snoops, clearing of the
    pending marks along a chain of caches, consistency of lists.
  \<^item> \<^verbatim>\<open>Ruby_Vector\<close>, \<^verbatim>\<open>Prio_Heap\<close> (\<^verbatim>\<open>mem/gems_common/Vector.hh\<close>, \<^verbatim>\<open>PrioHeap.hh\<close>): the containers of
    Ruby. The vector is a list; the heap returns least elements.
  \<^item> \<^verbatim>\<open>Ruby_Events\<close>, \<^verbatim>\<open>Message_Buffer\<close> (\<^verbatim>\<open>mem/ruby/eventqueue\<close>, \<^verbatim>\<open>mem/ruby/common/Consumer.hh\<close>,
    \<^verbatim>\<open>mem/ruby/buffers\<close>): wakeups of consumers on the event queue, and the message buffers
    that schedule them. A buffer is a queue sorted by arrival time and counter; \<^verbatim>\<open>recycle\<close> puts its
    first message back, where later ones can overtake it. Every arrival has its wakeup.
  \<^item> \<^verbatim>\<open>Branch_Tables\<close>, \<^verbatim>\<open>Branch_Predictor\<close> (\<^verbatim>\<open>cpu/o3/sat_counter.hh\<close>, \<^verbatim>\<open>cpu/pred\<close>,
    \<^verbatim>\<open>cpu/o3/bpred_unit.hh\<close>, \<^verbatim>\<open>bpred_unit_impl.hh\<close>): the predictors, the target buffer, the return address
    stack, and the unit that speculates with them.
  \<^item> \<^verbatim>\<open>Register_Renaming\<close> (\<^verbatim>\<open>cpu/o3/free_list\<close>, \<^verbatim>\<open>rename_map\<close>, \<^verbatim>\<open>scoreboard\<close>, \<^verbatim>\<open>rename_impl.hh\<close>): free
    lists, rename maps and the history buffer. Conservation of registers and undoing.

  \<^bold>\<open>Parameters.\<close> What the code takes from elsewhere is an argument of the definitions: the actions of
  event handlers and the arrival of signals, the answers of the peer of a port, random numbers, the byte order and the format of
  printed bytes, the contents of uninitialised memory, the constants and the register flattening
  of the instruction set, and the number of processors.

  \<^bold>\<open>Not modelled.\<close>
  \<^item> Checkpointing (\<^verbatim>\<open>serialize\<close>, \<^verbatim>\<open>unserialize\<close>), statistics registration and text output of the
    modelled classes: they move data to files and name it.
  \<^item> The instruction sets (\<^verbatim>\<open>arch\<close>): their decoders are generated from the ISA descriptions.
  \<^item> The Ruby protocols (\<^verbatim>\<open>mem/protocol\<close>, \<^verbatim>\<open>mem/slicc\<close>): controllers generated by the build; the
    network, profilers, testers and tables around them (\<^verbatim>\<open>mem/ruby\<close>) depend on generated types.
  \<^item> The cache controller (\<^verbatim>\<open>mem/cache/cache_impl.hh\<close>), the prefetchers and the fully
    associative and indirect-index tag stores; bus and bridge (\<^verbatim>\<open>mem/bus.cc\<close>,
    \<^verbatim>\<open>mem/bridge.cc\<close>), DRAM timing and the page table.
  \<^item> The other pipeline stages of the out-of-order CPU and its variants (\<^verbatim>\<open>cpu/o3\<close>, \<^verbatim>\<open>cpu/o3lite\<close>), the
    in-order and the ozone CPU, the simple CPUs, checker and trace readers.
  \<^item> Devices and platforms (\<^verbatim>\<open>dev\<close>), kernel hooks (\<^verbatim>\<open>kern\<close>), object-file loaders, statistics, remote
    debugging and other utilities of \<^verbatim>\<open>base\<close>, system calls and process set-up (\<^verbatim>\<open>sim\<close>), and
    the configuration in Python (\<^verbatim>\<open>python\<close>): input and output of the host.
\<close>

end
